theory Spec2Isabelle
  imports Complex_Main "HOL-Library.Word" "HOL-Library.Multiset"
begin

section \<open>Constants and machine types of \<open>main.cpp\<close>\<close>

text \<open>
  The program works on \<open>std::uint64_t\<close> values throughout; they are
  64-bit words here, so \<open>+\<close>, \<open>-\<close> and \<open>*\<close> wrap modulo \<open>2 ^ 64\<close> as
  in the source. The loop counter of \<open>shuffle\<close> is a \<open>std::uint32_t\<close>.
\<close>

type_synonym u64 = "64 word"
type_synonym u32 = "32 word"

definition max_discover_mem :: u64 where
  "max_discover_mem = 2 ^ 15"

definition max_check_mem :: u64 where
  "max_check_mem = 2 ^ 24"

definition page_size :: u64 where
  "page_size = 16384"

text \<open>\<open>sizeof(std::uint64_t)\<close>.\<close>

definition slot_bytes :: u64 where
  "slot_bytes = 8"

section \<open>\<open>aligned_array\<close>: the byte count handed to \<open>std::aligned_alloc\<close>\<close>

text \<open>
  The constructor computes \<open>bytes = size * sizeof(std::uint64_t)\<close> (the
  parameter \<open>size\<close> is \<open>sz\<close> here) and, when
  that is not a multiple of \<open>page_size\<close>, replaces it by
  \<open>(page_size / page_size + 1) * page_size\<close>.
\<close>

definition aligned_array_bytes :: "u64 \<Rightarrow> u64" where
  "aligned_array_bytes sz =
     (let bytes = sz * slot_bytes
      in if bytes mod page_size \<noteq> 0
         then (page_size div page_size + 1) * page_size
         else bytes)"

text \<open>The slot counts of the two global arrays: \<open>clutter(1 << 23)\<close> and \<open>a(max_check_mem)\<close>.\<close>

definition clutter_size :: u64 where
  "clutter_size = 2 ^ 23"

definition a_size :: u64 where
  "a_size = max_check_mem"

section \<open>\<open>next_spots\<close>\<close>

definition step :: u64 where
  "step = 2 ^ 9"

definition next_spots :: "u64 \<Rightarrow> u64 \<Rightarrow> u64" where
  "next_spots stride spots =
     (if spots * stride \<le> step then spots * 2
      else if stride > step then spots + 1
      else spots + step div stride)"

section \<open>Double-precision arithmetic\<close>

text \<open>
  Durations are \<open>std::chrono::duration<double>\<close> and the quotients and distances
  computed from them are \<open>double\<close>: IEEE 754 binary64 with the default rounding,
  to nearest with ties to even. A double is a sign and a magnitude
  \<open>k * 2 ^ e\<close> with \<open>k < 2 ^ 53\<close> and \<open>- 1074 \<le> e \<le> 971\<close> (so zero has
  a sign), an infinity with its sign, or not a number. The sign \<open>True\<close> is minus.
\<close>

datatype double = Finite bool real | Infinity bool | NaN

text \<open>\<open>2 ^ e\<close> for an integer \<open>e\<close>.\<close>

definition pow2 :: "int \<Rightarrow> real" where
  "pow2 e = (if 0 \<le> e then 2 ^ nat e else 1 / 2 ^ nat (- e))"

text \<open>The integer nearest to \<open>x\<close>, the even one of two that are equally near.\<close>

definition round_even :: "real \<Rightarrow> int" where
  "round_even x =
     (let f = \<lfloor>x\<rfloor>; d = x - of_int f
      in if d < 1 / 2 then f
         else if 1 / 2 < d then f + 1
         else if even f then f else f + 1)"

text \<open>
  The exponent of the last place of a magnitude \<open>m\<close>: the least \<open>e\<close> from
  \<open>- 1074\<close> on with \<open>m < 2 ^ (e + 53)\<close>, and 971 beyond the largest binade.
  \<open>nearest m\<close> is the multiple of \<open>2 ^ e\<close> nearest to \<open>m\<close>, and a magnitude
  that rounds to \<open>2 ^ 1024\<close> or more overflows to an infinity.
\<close>

primrec find_expo :: "nat \<Rightarrow> int \<Rightarrow> real \<Rightarrow> int" where
  "find_expo 0 e m = e"
| "find_expo (Suc n) e m = (if pow2 (e + 53) \<le> m then find_expo n (e + 1) m else e)"

definition expo :: "real \<Rightarrow> int" where
  "expo m = find_expo 2045 (- 1074) m"

definition nearest :: "real \<Rightarrow> real" where
  "nearest m = of_int (round_even (m / pow2 (expo m))) * pow2 (expo m)"

definition rnd :: "bool \<Rightarrow> real \<Rightarrow> double" where
  "rnd s m = (let r = nearest m in if pow2 1024 \<le> r then Infinity s else Finite s r)"

text \<open>Sign changes, and the value of a finite double.\<close>

fun dneg :: "double \<Rightarrow> double" where
  "dneg (Finite s m) = Finite (\<not> s) m"
| "dneg (Infinity s) = Infinity (\<not> s)"
| "dneg NaN = NaN"

fun dabs :: "double \<Rightarrow> double" where
  "dabs (Finite s m) = Finite False m"
| "dabs (Infinity s) = Infinity False"
| "dabs NaN = NaN"

fun valof :: "double \<Rightarrow> real" where
  "valof (Finite s m) = (if s then - m else m)"
| "valof (Infinity s) = 0"
| "valof NaN = 0"

text \<open>
  The double nearest to the real \<open>r\<close>; an exact zero takes the sign \<open>z\<close>, a
  result that rounds to zero keeps the sign of \<open>r\<close>.
\<close>

definition round_real :: "bool \<Rightarrow> real \<Rightarrow> double" where
  "round_real z r = (if r = 0 then Finite z 0 else rnd (r < 0) \<bar>r\<bar>)"

text \<open>
  The operations follow IEEE 754: the exact result is rounded; an exact zero sum is
  \<open>+0\<close> unless both terms are \<open>-0\<close>; the sign of a product or quotient is the
  exclusive or of the signs; \<open>inf - inf\<close>, \<open>0 * inf\<close>, \<open>0 / 0\<close> and
  \<open>inf / inf\<close> are not numbers. The source is taken as written, one rounding per
  operation.
\<close>

fun dadd :: "double \<Rightarrow> double \<Rightarrow> double" where
  "dadd (Finite s a) (Finite t b) =
     round_real (s \<and> t) (valof (Finite s a) + valof (Finite t b))"
| "dadd (Infinity s) (Infinity t) = (if s = t then Infinity s else NaN)"
| "dadd (Infinity s) (Finite t b) = Infinity s"
| "dadd (Finite s a) (Infinity t) = Infinity t"
| "dadd NaN y = NaN"
| "dadd x NaN = NaN"

definition dsub :: "double \<Rightarrow> double \<Rightarrow> double" where
  "dsub x y = dadd x (dneg y)"

fun dmul :: "double \<Rightarrow> double \<Rightarrow> double" where
  "dmul (Finite s a) (Finite t b) = rnd (s \<noteq> t) (a * b)"
| "dmul (Infinity s) (Infinity t) = Infinity (s \<noteq> t)"
| "dmul (Infinity s) (Finite t b) = (if b = 0 then NaN else Infinity (s \<noteq> t))"
| "dmul (Finite s a) (Infinity t) = (if a = 0 then NaN else Infinity (s \<noteq> t))"
| "dmul NaN y = NaN"
| "dmul x NaN = NaN"

fun ddiv :: "double \<Rightarrow> double \<Rightarrow> double" where
  "ddiv (Finite s a) (Finite t b) =
     (if b = 0 then (if a = 0 then NaN else Infinity (s \<noteq> t))
      else rnd (s \<noteq> t) (a / b))"
| "ddiv (Infinity s) (Infinity t) = NaN"
| "ddiv (Infinity s) (Finite t b) = Infinity (s \<noteq> t)"
| "ddiv (Finite s a) (Infinity t) = Finite (s \<noteq> t) 0"
| "ddiv NaN y = NaN"
| "ddiv x NaN = NaN"

text \<open>The comparisons \<open><=\<close>, \<open><\<close> and \<open>>=\<close>: false whenever a side is not a number.\<close>

fun dle :: "double \<Rightarrow> double \<Rightarrow> bool" where
  "dle (Finite s a) (Finite t b) = (valof (Finite s a) \<le> valof (Finite t b))"
| "dle (Finite s a) (Infinity t) = (\<not> t)"
| "dle (Infinity s) (Finite t b) = s"
| "dle (Infinity s) (Infinity t) = (s \<or> \<not> t)"
| "dle NaN y = False"
| "dle x NaN = False"

fun dlt :: "double \<Rightarrow> double \<Rightarrow> bool" where
  "dlt (Finite s a) (Finite t b) = (valof (Finite s a) < valof (Finite t b))"
| "dlt (Finite s a) (Infinity t) = (\<not> t)"
| "dlt (Infinity s) (Finite t b) = s"
| "dlt (Infinity s) (Infinity t) = (s \<and> \<not> t)"
| "dlt NaN y = False"
| "dlt x NaN = False"

definition dge :: "double \<Rightarrow> double \<Rightarrow> bool" where
  "dge x y = dle y x"

text \<open>
  The values of the datatype that are doubles: the magnitude of a finite one is a
  fixed point of the rounding, below \<open>2 ^ 1024\<close>.
\<close>

fun is_double :: "double \<Rightarrow> bool" where
  "is_double (Finite s m) \<longleftrightarrow> 0 \<le> m \<and> m < pow2 1024 \<and> nearest m = m"
| "is_double (Infinity s) \<longleftrightarrow> True"
| "is_double NaN \<longleftrightarrow> True"

text \<open>A decimal literal of the source, and the conversion of an integer.\<close>

definition lit :: "real \<Rightarrow> double" where
  "lit r = round_real False r"

definition int_to_double :: "int \<Rightarrow> double" where
  "int_to_double n = round_real False (of_int n)"

section \<open>The machine state: arena, sequence generator, clock\<close>

text \<open>
  The globals of the program that the pattern builders read and write. The global
  array \<open>a\<close> is \<open>arena\<close>, a list of 64-bit slots, and \<open>a_begin\<close> is the
  address \<open>a.begin\<close> that \<open>std::aligned_alloc\<close> returned, so that the address of
  slot \<open>i\<close> is \<open>a_begin + 8 * i\<close>. \<open>clutter\<close> holds the slots of the second
  global array; \<open>sink\<close> and \<open>rng_seed\<close> are the globals of these names.
  The steady clock is not part of the program: \<open>clock\<close> is the sequence of
  elapsed times that successive timed walks will observe and \<open>ticks\<close> counts how
  many have been taken. An elapsed time is a \<open>std::chrono::steady_clock::duration\<close>,
  taken to be a signed 64-bit count of nanoseconds as in libstdc++ and libc++.

  An access outside the array, a dereference of a value that is not the address of a
  slot, an integer division by zero and \<open>container[0]\<close> on an empty vector are
  undefined behaviour in the source; they are error values here. So is \<open>std::sort\<close>
  on a range that \<open><\<close> does not order.
\<close>

datatype error = OutOfBounds | BadPointer | DivByZero | EmptyVector | Unordered

type_synonym ns_t = "64 word"

record machine =
  a_begin :: u64
  arena :: "u64 list"
  clutter :: "u64 list"
  sink :: "32 word"
  rng_seed :: u64
  clock :: "nat \<Rightarrow> ns_t"
  ticks :: nat

definition bind_err :: "error + 'a \<Rightarrow> ('a \<Rightarrow> error + 'b) \<Rightarrow> error + 'b" where
  "bind_err m f = (case m of Inl e \<Rightarrow> Inl e | Inr x \<Rightarrow> f x)"

text \<open>\<open>&a[i]\<close>, \<open>a[i]\<close> as an rvalue, and \<open>a[i] = v\<close>.\<close>

definition slot_addr :: "machine \<Rightarrow> u64 \<Rightarrow> u64" where
  "slot_addr st i = a_begin st + i * slot_bytes"

definition read_slot :: "machine \<Rightarrow> u64 \<Rightarrow> error + u64" where
  "read_slot st i =
     (if unat i < length (arena st) then Inr (arena st ! unat i) else Inl OutOfBounds)"

definition write_slot :: "u64 \<Rightarrow> u64 \<Rightarrow> machine \<Rightarrow> error + machine" where
  "write_slot i v st =
     (if unat i < length (arena st)
      then Inr (st\<lparr>arena := (arena st)[unat i := v]\<rparr>)
      else Inl OutOfBounds)"

text \<open>\<open>*ptr\<close> for \<open>ptr = reinterpret_cast<std::uint64_t*>(v)\<close>.\<close>

definition deref :: "machine \<Rightarrow> u64 \<Rightarrow> error + u64" where
  "deref st ptr =
     (let off = ptr - a_begin st
      in if off mod slot_bytes = 0 \<and> unat (off div slot_bytes) < length (arena st)
         then Inr (arena st ! unat (off div slot_bytes))
         else Inl BadPointer)"

section \<open>The sequence generator\<close>

definition rng :: "machine \<Rightarrow> u64 \<times> machine" where
  "rng st =
     (let s1 = rng_seed st * 2862933555777941757;
          s2 = s1 + 3037000493
      in (s2, st\<lparr>rng_seed := s2\<rparr>))"

section \<open>Pattern builders\<close>

text \<open>\<open>std::swap(a[i], a[j])\<close>.\<close>

definition swap_slots :: "u64 \<Rightarrow> u64 \<Rightarrow> machine \<Rightarrow> error + machine" where
  "swap_slots i j st =
     bind_err (read_slot st i) (\<lambda>x.
     bind_err (read_slot st j) (\<lambda>y.
     bind_err (write_slot i y st) (write_slot j x)))"

text \<open>
  The index expression \<open>rng() % (i + 1)\<close> of \<open>shuffle\<close>, for the value
  \<open>r\<close> that \<open>rng()\<close> returned: \<open>i + 1\<close> is computed in 32 bits before
  it is widened for \<open>%\<close>.
\<close>

definition pick_index :: "u64 \<Rightarrow> u32 \<Rightarrow> u64" where
  "pick_index r i = r mod ucast (i + 1)"

text \<open>
  The loop of \<open>shuffle\<close>, from its counter \<open>i\<close> (a \<open>std::uint32_t\<close>) down
  to 1. A zero divisor of \<open>%\<close> is an error.
\<close>

function shuffle_loop :: "u64 \<Rightarrow> u32 \<Rightarrow> machine \<Rightarrow> error + machine" where
  "shuffle_loop stride i st =
     (if i > 0
      then (let (r, st1) = rng st
            in if i + 1 = 0 then Inl DivByZero
               else bind_err
                      (swap_slots (ucast i * stride) (pick_index r i * stride) st1)
                      (shuffle_loop stride (i - 1)))
      else Inr st)"
  by pat_completeness auto
termination
proof (relation "measure (\<lambda>(stride, i, st). unat i)")
  fix stride :: u64 and i :: u32 and st x :: machine and r :: u64 and xa y
  assume "0 < i"
  then have "i \<noteq> 0" by auto
  then have "unat (i - 1) = unat i - 1" and "0 < unat i"
    by (simp_all add: unat_minus_one unat_gt_0)
  then show "((stride, i - 1, x), (stride, i, st)) \<in> measure (\<lambda>(stride, i, st). unat i)"
    by simp
qed simp

definition shuffle :: "u64 \<Rightarrow> u64 \<Rightarrow> machine \<Rightarrow> error + machine" where
  "shuffle stride spots st = shuffle_loop stride (ucast (spots - 1)) st"

text \<open>The loop of \<open>create_forward_chain\<close>, from its counter \<open>i\<close> upwards.\<close>

function forward_loop :: "u64 \<Rightarrow> u64 \<Rightarrow> u64 \<Rightarrow> machine \<Rightarrow> error + machine" where
  "forward_loop stride spots i st =
     (if i < spots - 1
      then bind_err (write_slot (i * stride) (slot_addr st ((i + 1) * stride)) st)
                    (forward_loop stride spots (i + 1))
      else Inr st)"
  by pat_completeness auto
termination
proof (relation "measure (\<lambda>(stride, spots, i, st). unat (spots - 1) - unat i)")
  fix stride spots i :: u64 and st x :: machine
  assume "i < spots - 1"
  then have lt: "unat i < unat (spots - 1)"
    by (simp add: word_less_nat_alt)
  have "unat (spots - 1) < 2 ^ LENGTH(64)"
    by (rule unsigned_less)
  with lt have "unat i + unat (1 :: u64) < 2 ^ LENGTH(64)"
    by simp
  then have "unat (i + 1) = unat i + 1"
    by (simp add: unat_add_lem [THEN iffD1])
  with lt show "((stride, spots, i + 1, x), (stride, spots, i, st))
      \<in> measure (\<lambda>(stride, spots, i, st). unat (spots - 1) - unat i)"
    by simp
qed simp

definition create_forward_chain :: "u64 \<Rightarrow> u64 \<Rightarrow> machine \<Rightarrow> error + machine" where
  "create_forward_chain stride spots st =
     (let sz = stride * spots
      in bind_err (forward_loop stride spots 0 st)
                  (\<lambda>st1. write_slot (sz - stride) (slot_addr st1 0) st1))"

text \<open>
  The pointer chase of \<open>measure_walk\<close>: \<open>n\<close> times \<open>sum += *ptr; ptr = *ptr\<close>.
  It returns the final pointer and the sum.
\<close>

fun chase :: "nat \<Rightarrow> u64 \<Rightarrow> u64 \<Rightarrow> machine \<Rightarrow> error + (u64 \<times> u64)" where
  "chase 0 ptr sm st = Inr (ptr, sm)"
| "chase (Suc n) ptr sm st =
     bind_err (deref st ptr) (\<lambda>v. chase n v (sm + v) st)"

text \<open>The pointers that these \<open>n\<close> steps dereference, in order.\<close>

fun chase_path :: "nat \<Rightarrow> u64 \<Rightarrow> machine \<Rightarrow> error + u64 list" where
  "chase_path 0 ptr st = Inr []"
| "chase_path (Suc n) ptr st =
     bind_err (deref st ptr) (\<lambda>v.
     bind_err (chase_path n v st) (\<lambda>ps. Inr (ptr # ps)))"

text \<open>
  The second loop of \<open>measure_shuffled\<close>:
  \<open>a[i * stride + stride / 2] = a[i * stride] + (stride / 2) * sizeof(std::uint64_t)\<close>
  for \<open>i\<close> from its current value up to \<open>spots - 1\<close>.
\<close>

function half_loop :: "u64 \<Rightarrow> u64 \<Rightarrow> u64 \<Rightarrow> machine \<Rightarrow> error + machine" where
  "half_loop stride spots i st =
     (if i < spots
      then bind_err (read_slot st (i * stride)) (\<lambda>v.
           bind_err (write_slot (i * stride + stride div 2)
                       (v + (stride div 2) * slot_bytes) st)
                    (half_loop stride spots (i + 1)))
      else Inr st)"
  by pat_completeness auto
termination
proof (relation "measure (\<lambda>(stride, spots, i, st). unat spots - unat i)")
  fix stride spots i :: u64 and st :: machine and x :: u64 and xa :: machine
  assume "i < spots"
  then have lt: "unat i < unat spots"
    by (simp add: word_less_nat_alt)
  have "unat spots < 2 ^ LENGTH(64)"
    by (rule unsigned_less)
  with lt have "unat i + unat (1 :: u64) < 2 ^ LENGTH(64)"
    by simp
  then have "unat (i + 1) = unat i + 1"
    by (simp add: unat_add_lem [THEN iffD1])
  with lt show "((stride, spots, i + 1, xa), (stride, spots, i, st))
      \<in> measure (\<lambda>(stride, spots, i, st). unat spots - unat i)"
    by simp
qed simp

text \<open>
  The pattern that \<open>measure_shuffled\<close> writes before it calls \<open>measure_walk\<close>.
\<close>

definition shuffled_pattern :: "u64 \<Rightarrow> u64 \<Rightarrow> machine \<Rightarrow> error + machine" where
  "shuffled_pattern stride spots st =
     bind_err (create_forward_chain stride spots st) (\<lambda>st1.
     bind_err (shuffle stride spots st1) (half_loop stride spots 0))"

definition lookbehind_offset :: u32 where
  "lookbehind_offset = 16"

text \<open>
  \<open>(i + spots - lookbehind_offset) % spots\<close>, computed in 64 bits from the 32-bit
  counter \<open>i\<close>.
\<close>

definition behind_index :: "u64 \<Rightarrow> u32 \<Rightarrow> u64" where
  "behind_index spots i = (ucast i + spots - ucast lookbehind_offset) mod spots"

text \<open>One iteration of the loop of \<open>measure_lookbehind\<close>.\<close>

definition lookbehind_step :: "u64 \<Rightarrow> u64 \<Rightarrow> u32 \<Rightarrow> machine \<Rightarrow> error + machine" where
  "lookbehind_step stride spots i st =
     (let behind = behind_index spots i * stride + stride div 2
      in bind_err (read_slot st (ucast i * stride)) (\<lambda>v.
         bind_err (write_slot behind v st)
                  (\<lambda>st1. write_slot (ucast i * stride) (slot_addr st1 behind) st1)))"

text \<open>
  The loop of \<open>measure_lookbehind\<close>. Its counter is a \<open>std::uint32_t\<close> compared
  with the 64-bit \<open>spots\<close>: for \<open>spots\<close> beyond \<open>2 ^ 32\<close> the counter wraps and
  the loop has no exit, so the result is an option and \<open>None\<close> stands for a run
  that does not return.
\<close>

partial_function (option) lookbehind_loop ::
  "u64 \<Rightarrow> u64 \<Rightarrow> u32 \<Rightarrow> machine \<Rightarrow> (error + machine) option" where
  "lookbehind_loop stride spots i st =
     (if ucast i < spots
      then (case lookbehind_step stride spots i st of
              Inl e \<Rightarrow> Some (Inl e)
            | Inr st1 \<Rightarrow> lookbehind_loop stride spots (i + 1) st1)
      else Some (Inr st))"

text \<open>
  The pattern that \<open>measure_lookbehind\<close> writes before it calls \<open>measure_walk\<close>.
\<close>

definition lookbehind_pattern :: "u64 \<Rightarrow> u64 \<Rightarrow> machine \<Rightarrow> (error + machine) option" where
  "lookbehind_pattern stride spots st =
     (case create_forward_chain stride spots st of
        Inl e \<Rightarrow> Some (Inl e)
      | Inr st1 \<Rightarrow> lookbehind_loop stride spots 0 st1)"

section \<open>The timing harness\<close>

definition ops :: nat where
  "ops = 2 ^ 20"

text \<open>
  \<open>measure_walk\<close>: the pass over \<open>clutter\<close> (every slot is added to \<open>sum\<close> and
  its lowest bit flipped; \<open>clutter.size\<close> is \<open>2 ^ 23\<close>, so the 32-bit counter of
  that loop does not wrap), the untimed chase from \<open>&a[0]\<close>, the timed chase from
  \<open>&a[initial_offset]\<close>, and \<open>sink += sum\<close>. The elapsed time is the next value of
  the clock sequence. The parameters \<open>stride\<close> and \<open>spots\<close> are not used by the
  source either.
\<close>

definition measure_walk ::
  "u64 \<Rightarrow> u64 \<Rightarrow> u64 \<Rightarrow> machine \<Rightarrow> error + (ns_t \<times> machine)" where
  "measure_walk stride spots initial_offset st =
     (let sum0 = foldl (+) 0 (clutter st);
          st1 = st\<lparr>clutter := map (\<lambda>x. xor x 1) (clutter st)\<rparr>
      in bind_err (chase ops (slot_addr st1 0) sum0 st1) (\<lambda>(p1, sum1).
         bind_err (chase ops (slot_addr st1 initial_offset) sum1 st1) (\<lambda>(p2, sum2).
         Inr (clock st1 (ticks st1),
              st1\<lparr>ticks := Suc (ticks st1),
                  sink := ucast ((scast (sink st1) :: u64) + sum2)\<rparr>))))"

definition measure_shuffled ::
  "u64 \<Rightarrow> u64 \<Rightarrow> machine \<Rightarrow> (error + (ns_t \<times> machine)) option" where
  "measure_shuffled stride spots st =
     Some (bind_err (shuffled_pattern stride spots st)
             (measure_walk stride spots (stride div 2)))"

definition measure_lookbehind ::
  "u64 \<Rightarrow> u64 \<Rightarrow> machine \<Rightarrow> (error + (ns_t \<times> machine)) option" where
  "measure_lookbehind stride spots st =
     (case lookbehind_pattern stride spots st of
        None \<Rightarrow> None
      | Some r \<Rightarrow> Some (bind_err r (measure_walk stride spots 0)))"

section \<open>The trial aggregator\<close>

text \<open>
  A function of the program either returns a value, or runs into one of the errors
  above, or does not return: \<open>Some (Inr x)\<close>, \<open>Some (Inl e)\<close> and \<open>None\<close>.
\<close>

type_synonym 'a outcome = "(error + 'a) option"

definition bind_out :: "'a outcome \<Rightarrow> ('a \<Rightarrow> 'b outcome) \<Rightarrow> 'b outcome" where
  "bind_out m f = Option.bind m (\<lambda>r. case r of Inl e \<Rightarrow> Some (Inl e) | Inr x \<Rightarrow> f x)"

lemma bind_out_mono [partial_function_mono]:
  assumes "mono_option B" and "\<And>y. mono_option (C y)"
  shows "mono_option (\<lambda>f. bind_out (B f) (\<lambda>y. C y f))"
  unfolding bind_out_def
proof (rule bind_mono)
  show "mono_option B"
    by fact
next
  fix r
  show "mono_option (\<lambda>f. case r of Inl e \<Rightarrow> Some (Inl e) | Inr x \<Rightarrow> C x f)"
    by (cases r) (simp_all add: assms(2) option.const_mono)
qed

text \<open>
  \<open>measure_t\<close> is \<open>std::chrono::duration<double>\<close>, a count of seconds. A
  \<open>std::map<std::uint64_t, std::vector<measure_t>>\<close> is only ever indexed with
  \<open>operator[]\<close>, which creates an empty vector for an absent key, so it is a total
  function here. A measuring method takes the stride and the spots and returns the
  elapsed time of its walk.
\<close>

type_synonym measure_t = double
type_synonym results = "u64 \<Rightarrow> measure_t list"
type_synonym measure_method = "u64 \<Rightarrow> u64 \<Rightarrow> machine \<Rightarrow> (ns_t \<times> machine) outcome"

text \<open>
  \<open>push_back\<close> converts the elapsed time to \<open>measure_t\<close>: the count as a
  \<open>double\<close>, divided by \<open>1000000000\<close>.
\<close>

definition to_seconds :: "ns_t \<Rightarrow> measure_t" where
  "to_seconds n = ddiv (int_to_double (sint n)) (int_to_double 1000000000)"

definition iterations :: nat where
  "iterations = 9"

text \<open>\<open>rng_seed = spots + i\<close>, at the start of trial \<open>i\<close> for \<open>spots\<close>.\<close>

definition trial_state :: "u64 \<Rightarrow> nat \<Rightarrow> machine \<Rightarrow> machine" where
  "trial_state spots i st = st\<lparr>rng_seed := spots + of_nat i\<rparr>"

text \<open>
  The inner loop of \<open>measure\<close> over the spots values, for iteration \<open>i\<close>, and its
  outer loop over the iterations. What the source writes to \<open>std::cerr\<close> and to the
  debug logger is not part of the model.
\<close>

fun measure_spots ::
  "measure_method \<Rightarrow> u64 \<Rightarrow> nat \<Rightarrow> u64 list \<Rightarrow> results \<Rightarrow> machine \<Rightarrow> (results \<times> machine) outcome"
  where
  "measure_spots method stride i [] res st = Some (Inr (res, st))"
| "measure_spots method stride i (spots # rest) res st =
     bind_out (method stride spots (trial_state spots i st)) (\<lambda>(d, st1).
       measure_spots method stride i rest (res(spots := res spots @ [to_seconds d])) st1)"

fun measure_iterations ::
  "measure_method \<Rightarrow> u64 \<Rightarrow> u64 list \<Rightarrow> nat list \<Rightarrow> results \<Rightarrow> machine \<Rightarrow> (results \<times> machine) outcome"
  where
  "measure_iterations method stride all_spots [] res st = Some (Inr (res, st))"
| "measure_iterations method stride all_spots (i # is) res st =
     bind_out (measure_spots method stride i all_spots res st) (\<lambda>(res1, st1).
       measure_iterations method stride all_spots is res1 st1)"

definition measure_c ::
  "u64 \<Rightarrow> u64 list \<Rightarrow> measure_method \<Rightarrow> machine \<Rightarrow> (results \<times> machine) outcome" where
  "measure_c stride all_spots method st =
     measure_iterations method stride all_spots [0..<iterations] (\<lambda>k. []) st"

text \<open>
  \<open>std::sort\<close> with \<open><\<close>, as an insertion sort. Its result is determined when
  the range holds no NaN and not zeros of both signs: \<open><\<close> is no strict weak
  ordering on a range with a NaN, and of two zeros of different sign, which it does
  not tell apart, either may come first.
\<close>

fun insort_d :: "double \<Rightarrow> double list \<Rightarrow> double list" where
  "insort_d x [] = [x]"
| "insort_d x (y # ys) = (if dle x y then x # y # ys else y # insort_d x ys)"

definition sort_d :: "double list \<Rightarrow> double list" where
  "sort_d xs = foldr insort_d xs []"

definition sortable :: "double list \<Rightarrow> bool" where
  "sortable xs \<longleftrightarrow>
     NaN \<notin> set xs \<and> \<not> (Finite False 0 \<in> set xs \<and> Finite True 0 \<in> set xs)"

text \<open>\<open>median\<close> and \<open>sum\<close>; both read \<open>container[0]\<close> or beyond.\<close>

definition median :: "measure_t list \<Rightarrow> error + measure_t" where
  "median container =
     (if \<not> sortable container then Inl Unordered
      else if length container div 2 < length container
      then Inr (sort_d container ! (length container div 2))
      else Inl EmptyVector)"

definition sum_c :: "measure_t list \<Rightarrow> error + measure_t" where
  "sum_c container =
     (case container of
        [] \<Rightarrow> Inl EmptyVector
      | x # rest \<Rightarrow> Inr (foldl dadd x rest))"

section \<open>\<open>make_spots\<close>\<close>

partial_function (option) make_spots_loop ::
  "u64 \<Rightarrow> u64 \<Rightarrow> u64 \<Rightarrow> u64 list \<Rightarrow> u64 list option" where
  "make_spots_loop stride max_spots spots result =
     (if spots \<le> max_spots
      then make_spots_loop stride max_spots (next_spots stride spots) (result @ [spots])
      else Some result)"

definition make_spots :: "u64 \<Rightarrow> u64 list outcome" where
  "make_spots stride =
     (if stride = 0 then Some (Inl DivByZero)
      else map_option Inr
             (make_spots_loop stride (next_spots stride (max_discover_mem div stride)) 1 []))"

section \<open>\<open>find_rest_spots\<close>\<close>

text \<open>
  The \<open>std::set\<close> that the loop body fills from \<open>all_spots\<close>, as the sequence in
  which \<open>measure\<close> iterates over it: ascending, without duplicates.
\<close>

definition new_spots :: "u64 list \<Rightarrow> u64 list" where
  "new_spots all_spots =
     sorted_list_of_set
       (set (concat (map (\<lambda>spots. if spots > 1 then [spots, spots div 2] else [spots])
                         all_spots)))"

text \<open>
  The loop that accumulates \<open>full_distance\<close> and \<open>half_distance\<close> over
  \<open>all_spots\<close>. The C++ standard does not say how \<open>std::cbrt\<close> rounds, so the
  cube root of the library is a parameter \<open>cbrt\<close> of the model, here and in the
  functions that reach this loop.
\<close>

fun distances ::
  "(double \<Rightarrow> double) \<Rightarrow> results \<Rightarrow> results \<Rightarrow> u64 list \<Rightarrow> double \<Rightarrow> double \<Rightarrow>
     error + (double \<times> double)" where
  "distances cbrt prev_measured new_measured [] full_distance half_distance =
     Inr (full_distance, half_distance)"
| "distances cbrt prev_measured new_measured (spots # rest) full_distance half_distance =
     bind_err (sum_c (prev_measured spots)) (\<lambda>p.
     bind_err (sum_c (new_measured spots)) (\<lambda>n.
     bind_err (sum_c (new_measured (spots div 2 + spots mod 2))) (\<lambda>h.
       distances cbrt prev_measured new_measured rest
         (dadd full_distance (cbrt (dabs (dsub p n))))
         (dadd half_distance (cbrt (dabs (dsub p h)))))))"

text \<open>
  The \<open>while (true)\<close> loop of \<open>find_rest_spots\<close>, entered with the stride, the
  spots and the measurements of the previous round. The measuring method is a
  parameter; the source passes \<open>measure_shuffled\<close>.
\<close>

partial_function (option) rest_loop ::
  "(double \<Rightarrow> double) \<Rightarrow> measure_method \<Rightarrow> u64 \<Rightarrow> u64 \<Rightarrow> u64 list \<Rightarrow> results \<Rightarrow> machine \<Rightarrow>
     (u64 list \<times> machine) outcome"
  where
  "rest_loop cbrt method initial_stride stride0 all_spots prev_measured st =
     bind_out (measure_c (stride0 * 2) (new_spots all_spots) method st) (\<lambda>(new_measured, st1).
       case distances cbrt prev_measured new_measured all_spots (lit 0) (lit 0) of
         Inl e \<Rightarrow> Some (Inl e)
       | Inr (full_distance, half_distance) \<Rightarrow>
           if dlt full_distance half_distance
           then (if all_spots \<noteq> [] \<and> initial_stride = 0 then Some (Inl DivByZero)
                 else Some (Inr (map (\<lambda>spots. spots * (stride0 * 2 div 2 div initial_stride))
                                   all_spots, st1)))
           else bind_out (make_spots (stride0 * 2)) (\<lambda>all_spots1.
                  rest_loop cbrt method initial_stride (stride0 * 2) all_spots1 new_measured st1))"

definition find_rest_spots_by ::
  "(double \<Rightarrow> double) \<Rightarrow> measure_method \<Rightarrow> u64 \<Rightarrow> machine \<Rightarrow> (u64 list \<times> machine) outcome"
  where
  "find_rest_spots_by cbrt method initial_stride st =
     bind_out (make_spots initial_stride) (\<lambda>all_spots.
     bind_out (measure_c initial_stride all_spots method st) (\<lambda>(prev_measured, st1).
       rest_loop cbrt method initial_stride initial_stride all_spots prev_measured st1))"

definition find_rest_spots ::
  "(double \<Rightarrow> double) \<Rightarrow> u64 \<Rightarrow> machine \<Rightarrow> (u64 list \<times> machine) outcome" where
  "find_rest_spots cbrt = find_rest_spots_by cbrt measure_shuffled"

section \<open>\<open>find_jump\<close>\<close>

text \<open>The first loop: \<open>smooth_suffix.push_back(sum(measured[spots]))\<close>.\<close>

fun totals :: "results \<Rightarrow> u64 list \<Rightarrow> error + measure_t list" where
  "totals measured [] = Inr []"
| "totals measured (spots # rest) =
     bind_err (sum_c (measured spots)) (\<lambda>t.
     bind_err (totals measured rest) (\<lambda>ts. Inr (t # ts)))"

definition alpha :: double where
  "alpha = lit 0.5"

text \<open>\<open>x * alpha + y * (1 - alpha)\<close>.\<close>

definition blend :: "measure_t \<Rightarrow> measure_t \<Rightarrow> measure_t" where
  "blend x y = dadd (dmul x alpha) (dmul y (dsub (lit 1) alpha))"

text \<open>
  The second loop, for \<open>i\<close> from its current value down to 1:
  \<open>smooth_suffix[i - 1] = smooth_suffix[i - 1] * alpha + smooth_suffix[i] * (1 - alpha)\<close>.
\<close>

fun smooth_loop :: "nat \<Rightarrow> measure_t list \<Rightarrow> measure_t list" where
  "smooth_loop 0 smooth_suffix = smooth_suffix"
| "smooth_loop (Suc k) smooth_suffix =
     smooth_loop k (smooth_suffix[k := blend (smooth_suffix ! k) (smooth_suffix ! Suc k)])"

text \<open>
  The last loop, from position \<open>i\<close>; it returns 0 when it runs to its end. The
  quotients are doubles, compared with the doubles \<open>1.045\<close> and \<open>1.12\<close>.
\<close>

function scan_loop :: "results \<Rightarrow> u64 list \<Rightarrow> measure_t list \<Rightarrow> nat \<Rightarrow> error + u64" where
  "scan_loop measured search_spots smooth_suffix i =
     (if i < length search_spots - 1
      then bind_err (sum_c (measured (search_spots ! i))) (\<lambda>result.
           bind_err (sum_c (measured (search_spots ! (i + 1)))) (\<lambda>next_result.
             if dge (ddiv next_result result) (lit 1.045) \<and>
                dge (ddiv (smooth_suffix ! (i + 1)) result) (lit 1.12)
             then Inr (search_spots ! i)
             else scan_loop measured search_spots smooth_suffix (i + 1)))
      else Inr 0)"
  by pat_completeness auto
termination
  by (relation "measure (\<lambda>(measured, search_spots, smooth_suffix, i). length search_spots - 1 - i)")
    auto

text \<open>
  \<open>find_jump\<close> after the measurement. With an empty \<open>search_spots\<close> the
  counter of the smoothing loop starts at \<open>size() - 1\<close>, which wraps, and the loop
  writes outside the vector.
\<close>

definition jump_of :: "results \<Rightarrow> u64 list \<Rightarrow> error + u64" where
  "jump_of measured search_spots =
     bind_err (totals measured search_spots) (\<lambda>smooth_suffix.
       if smooth_suffix = [] then Inl OutOfBounds
       else scan_loop measured search_spots
              (smooth_loop (length smooth_suffix - 1) smooth_suffix) 0)"

definition find_jump_by ::
  "measure_method \<Rightarrow> u64 \<Rightarrow> u64 list \<Rightarrow> machine \<Rightarrow> (u64 \<times> machine) outcome" where
  "find_jump_by method initial_stride search_spots st =
     bind_out (measure_c initial_stride search_spots method st) (\<lambda>(measured, st1).
       Some (bind_err (jump_of measured search_spots) (\<lambda>spots. Inr (spots, st1))))"

definition find_jump :: "u64 \<Rightarrow> u64 list \<Rightarrow> machine \<Rightarrow> (u64 \<times> machine) outcome" where
  "find_jump = find_jump_by measure_shuffled"

section \<open>\<open>find_cache_line_size\<close>\<close>

definition min_stride :: u64 where
  "min_stride = 2"

definition max_stride :: u64 where
  "max_stride = 128"

text \<open>The first loop, from its current stride, with the medians collected so far.\<close>

partial_function (option) stride_loop ::
  "measure_method \<Rightarrow> u64 \<Rightarrow> measure_t list \<Rightarrow> machine \<Rightarrow> (measure_t list \<times> machine) outcome" where
  "stride_loop method stride results st =
     (if stride \<le> max_stride
      then (if stride = 0 then Some (Inl DivByZero)
            else bind_out (measure_c stride [max_check_mem div stride] method st)
                   (\<lambda>(measured, st1).
                      case median (measured (max_check_mem div stride)) of
                        Inl e \<Rightarrow> Some (Inl e)
                      | Inr result \<Rightarrow> stride_loop method (stride * 2) (results @ [result]) st1))
      else Some (Inr (results, st)))"

text \<open>
  The second loop, from position \<open>i\<close>, with the current \<open>cache_line_stride\<close> and
  \<open>max_speedup\<close>; \<open>min_stride << i\<close> is \<open>push_bit i min_stride\<close>.
\<close>

function speedup_loop :: "measure_t list \<Rightarrow> nat \<Rightarrow> u64 \<Rightarrow> double \<Rightarrow> u64" where
  "speedup_loop results i cache_line_stride max_speedup =
     (if i < length results
      then (let stride = push_bit i min_stride;
                speedup = ddiv (results ! i) (results ! (i - 1))
            in if dge speedup max_speedup
               then speedup_loop results (i + 1) (stride div 2) speedup
               else speedup_loop results (i + 1) cache_line_stride max_speedup)
      else cache_line_stride)"
  by pat_completeness auto
termination
  by (relation "measure (\<lambda>(results, i, cache_line_stride, max_speedup). length results - i)")
    auto

definition cache_line_stride_of :: "measure_t list \<Rightarrow> u64" where
  "cache_line_stride_of results = speedup_loop results 1 1 (lit 1.0)"

definition find_cache_line_size_by :: "measure_method \<Rightarrow> machine \<Rightarrow> (u64 \<times> machine) outcome" where
  "find_cache_line_size_by method st =
     bind_out (stride_loop method min_stride [] st) (\<lambda>(results, st1).
       Some (Inr (cache_line_stride_of results, st1)))"

definition find_cache_line_size :: "machine \<Rightarrow> (u64 \<times> machine) outcome" where
  "find_cache_line_size = find_cache_line_size_by measure_lookbehind"

section \<open>\<open>main\<close>\<close>

definition initial_stride :: u64 where
  "initial_stride = 2"

text \<open>Decimal output of an unsigned integer, as \<open>operator<<\<close> prints it.\<close>

fun dec :: "nat \<Rightarrow> string" where
  "dec n = (if n < 10 then [''0123456789'' ! n]
            else dec (n div 10) @ [''0123456789'' ! (n mod 10)])"

text \<open>
  What \<open>main\<close> writes to \<open>std::cout\<close>, from the three values it computed.
  \<open>rest_spots.front()\<close> of an empty vector and a division by zero are errors.
\<close>

definition print_summary :: "u64 \<Rightarrow> u64 list \<Rightarrow> u64 \<Rightarrow> error + string" where
  "print_summary jump rest_spots cache_line_size =
     (case rest_spots of
        [] \<Rightarrow> Inl EmptyVector
      | front # others \<Rightarrow>
          if front = 0 then Inl DivByZero
          else Inr (''associativity='' @ dec (unat (jump div front))
                    @ '' cache_size='' @ dec (unat (jump * initial_stride * slot_bytes))
                    @ '' cache_line_size='' @ dec (unat (cache_line_size * slot_bytes))
                    @ [CHR 0x0A]))"

text \<open>
  \<open>main\<close> with the two measuring methods as parameters, and the program itself.
  The result is the text written to the standard output. The cube root of the library
  is the parameter \<open>cbrt\<close>.
\<close>

definition main_by ::
  "(double \<Rightarrow> double) \<Rightarrow> measure_method \<Rightarrow> measure_method \<Rightarrow> machine \<Rightarrow>
     (string \<times> machine) outcome" where
  "main_by cbrt shuffled lookbehind st =
     bind_out (find_rest_spots_by cbrt shuffled initial_stride st) (\<lambda>(rest_spots, st1).
     bind_out (find_jump_by shuffled initial_stride rest_spots st1) (\<lambda>(jump, st2).
     bind_out (find_cache_line_size_by lookbehind st2) (\<lambda>(cache_line_size, st3).
       Some (bind_err (print_summary jump rest_spots cache_line_size)
               (\<lambda>out. Inr (out, st3))))))"

definition main :: "(double \<Rightarrow> double) \<Rightarrow> machine \<Rightarrow> (string \<times> machine) outcome" where
  "main cbrt = main_by cbrt measure_shuffled measure_lookbehind"

section \<open>Observations used in the statements\<close>

text \<open>
  \<open>same_frame st st'\<close>: nothing but the contents of the arena differs between
  the two states.
\<close>

definition same_frame :: "machine \<Rightarrow> machine \<Rightarrow> bool" where
  "same_frame st st' \<longleftrightarrow>
     a_begin st' = a_begin st \<and> length (arena st') = length (arena st) \<and>
     clutter st' = clutter st \<and> sink st' = sink st \<and>
     rng_seed st' = rng_seed st \<and> clock st' = clock st \<and> ticks st' = ticks st"

text \<open>\<open>&a[j * stride]\<close>, the address of chain anchor \<open>j\<close>.\<close>

definition anchor_addr :: "machine \<Rightarrow> u64 \<Rightarrow> nat \<Rightarrow> u64" where
  "anchor_addr st stride j = slot_addr st (of_nat j * stride)"

text \<open>
  A state holds a forward chain when every anchor holds the address of the next one,
  the last wrapping to the first.
\<close>

definition is_cycle :: "u64 \<Rightarrow> u64 \<Rightarrow> machine \<Rightarrow> bool" where
  "is_cycle stride spots st \<longleftrightarrow>
     (\<forall>j < unat spots. read_slot st (of_nat j * stride) =
        Inr (anchor_addr st stride (Suc j mod unat spots)))"

text \<open>A small machine state for concrete evaluations.\<close>

definition example_machine :: machine where
  "example_machine =
     \<lparr>a_begin = 4096, arena = [0, 0, 0, 0, 0, 0, 0, 0], clutter = [0, 0], sink = 0,
      rng_seed = 0, clock = (\<lambda>n. 1), ticks = 0\<rparr>"

text \<open>
  The values held in the \<open>spots\<close> chain-anchor slots \<open>a[0]\<close>,
  \<open>a[stride]\<close>, \<open>a[2 * stride]\<close>, ..., in this order.
\<close>

definition anchors :: "u64 \<Rightarrow> u64 \<Rightarrow> machine \<Rightarrow> u64 list" where
  "anchors stride spots st = map (\<lambda>j. arena st ! (j * unat stride)) [0..<unat spots]"

text \<open>The small machine after \<open>create_forward_chain(2, 3)\<close>.\<close>

definition example_chain :: machine where
  "example_chain = example_machine\<lparr>arena := [4112, 0, 4128, 0, 4096, 0, 0, 0]\<rparr>"

text \<open>
  \<open>agree_on S st1 st2\<close>: the two states have the same arena (base address and
  size) and the same generator state, and hold the same values in the slots of \<open>S\<close>.
  The slot sets are the anchors \<open>j * stride\<close>, the slots \<open>j * stride + stride / 2\<close>
  that \<open>measure_shuffled\<close> writes, and the slots
  \<open>behind_index * stride + stride / 2\<close> that \<open>measure_lookbehind\<close> writes.
\<close>

definition agree_on :: "nat set \<Rightarrow> machine \<Rightarrow> machine \<Rightarrow> bool" where
  "agree_on S st1 st2 \<longleftrightarrow>
     a_begin st1 = a_begin st2 \<and> length (arena st1) = length (arena st2) \<and>
     rng_seed st1 = rng_seed st2 \<and> (\<forall>k \<in> S. arena st1 ! k = arena st2 ! k)"

definition anchor_slots :: "u64 \<Rightarrow> u64 \<Rightarrow> nat set" where
  "anchor_slots stride spots = (\<lambda>j. j * unat stride) ` {..<unat spots}"

definition half_slots :: "u64 \<Rightarrow> u64 \<Rightarrow> nat set" where
  "half_slots stride spots = (\<lambda>j. j * unat stride + unat stride div 2) ` {..<unat spots}"

definition behind_slots :: "u64 \<Rightarrow> u64 \<Rightarrow> nat set" where
  "behind_slots stride spots =
     (\<lambda>i. unat (behind_index spots (of_nat i)) * unat stride + unat stride div 2) ` {..<unat spots}"

text \<open>The first \<open>n\<close> values that \<open>rng\<close> returns from a state.\<close>

fun rng_values :: "nat \<Rightarrow> machine \<Rightarrow> u64 list" where
  "rng_values 0 st = []"
| "rng_values (Suc n) st = (let (r, st1) = rng st in r # rng_values n st1)"

text \<open>
  Two more machine states: one with other contents everywhere but the same arena
  base and size, and one whose arena lies at another address.
\<close>

definition example_other :: machine where
  "example_other =
     \<lparr>a_begin = 4096, arena = [1, 2, 3, 4, 5, 6, 7, 8], clutter = [5, 5], sink = 3,
      rng_seed = 99, clock = (\<lambda>n. 2), ticks = 7\<rparr>"

definition example_moved :: machine where
  "example_moved = example_machine\<lparr>a_begin := 8192\<rparr>"

text \<open>
  The sweep in the words of the specification: for each stride of the list, measure
  the lookbehind pattern at \<open>max_check_mem / stride\<close> spots and record the median.
\<close>

fun sweep ::
  "measure_method \<Rightarrow> u64 list \<Rightarrow> measure_t list \<Rightarrow> machine \<Rightarrow> (measure_t list \<times> machine) outcome"
  where
  "sweep method [] results st = Some (Inr (results, st))"
| "sweep method (stride # rest) results st =
     bind_out (measure_c stride [max_check_mem div stride] method st) (\<lambda>(measured, st1).
       case median (measured (max_check_mem div stride)) of
         Inl e \<Rightarrow> Some (Inl e)
       | Inr result \<Rightarrow> sweep method rest (results @ [result]) st1)"

text \<open>
  The speedup at position \<open>i\<close>, a double, and the property that the specification
  states of the returned value \<open>r\<close>: it is half of a stride of the walk whose
  speedup is the largest.
\<close>

definition speedup_at :: "measure_t list \<Rightarrow> nat \<Rightarrow> double" where
  "speedup_at results i = ddiv (results ! i) (results ! (i - 1))"

definition half_of_max_speedup_stride :: "measure_t list \<Rightarrow> u64 \<Rightarrow> bool" where
  "half_of_max_speedup_stride results r \<longleftrightarrow>
     list_ex (\<lambda>i. r = push_bit i min_stride div 2 \<and>
                   list_all (\<lambda>j. dle (speedup_at results j) (speedup_at results i))
                     [1..<length results])
       [1..<length results]"

text \<open>
  The test of the scan at position \<open>i\<close>, on the totals \<open>ts\<close> and the smoothed
  suffix \<open>sm\<close>.
\<close>

definition crosses :: "measure_t list \<Rightarrow> measure_t list \<Rightarrow> nat \<Rightarrow> bool" where
  "crosses ts sm i \<longleftrightarrow>
     dge (ddiv (ts ! (i + 1)) (ts ! i)) (lit 1.045) \<and>
     dge (ddiv (sm ! (i + 1)) (ts ! i)) (lit 1.12)"

text \<open>
  A positive finite double whose half is a double as well, so that halving it is exact:
  every positive double from \<open>2 ^ - 1021\<close> on is one.
\<close>

fun halvable :: "double \<Rightarrow> bool" where
  "halvable (Finite s m) \<longleftrightarrow>
     \<not> s \<and> 0 < m \<and> m < pow2 1024 \<and> nearest m = m \<and> nearest (m / 2) = m / 2"
| "halvable (Infinity s) \<longleftrightarrow> False"
| "halvable NaN \<longleftrightarrow> False"

text \<open>
  Measurements with one trial per spots value: the spots value \<open>k\<close>, counted from
  1, has the duration \<open>cs ! (k - 1)\<close>.
\<close>

definition curve_results :: "measure_t list \<Rightarrow> results" where
  "curve_results cs =
     (\<lambda>spots. if 0 < unat spots \<and> unat spots \<le> length cs then [cs ! (unat spots - 1)] else [])"

text \<open>
  The half distance as the specification words it: against the new total at the spots
  value halved, rounded down, but at least 1.
\<close>

fun half_distance_rounded_down ::
  "(double \<Rightarrow> double) \<Rightarrow> results \<Rightarrow> results \<Rightarrow> u64 list \<Rightarrow> double \<Rightarrow> error + double" where
  "half_distance_rounded_down cbrt prev_measured new_measured [] half_distance =
     Inr half_distance"
| "half_distance_rounded_down cbrt prev_measured new_measured (spots # rest) half_distance =
     bind_err (sum_c (prev_measured spots)) (\<lambda>p.
     bind_err (sum_c (new_measured (max 1 (spots div 2)))) (\<lambda>h.
       half_distance_rounded_down cbrt prev_measured new_measured rest
         (dadd half_distance (cbrt (dabs (dsub p h))))))"

text \<open>A cube root that is correctly rounded.\<close>

fun cbrt_rn :: "double \<Rightarrow> double" where
  "cbrt_rn (Finite s m) = rnd s (root 3 m)"
| "cbrt_rn (Infinity s) = Infinity s"
| "cbrt_rn NaN = NaN"

text \<open>Measurements of one trial each for the spots values 1, 2 and 3.\<close>

definition example_prev :: results where
  "example_prev = (\<lambda>spots. if spots = 1 \<or> spots = 2 \<or> spots = 3 then [lit 10] else [])"

definition example_new :: results where
  "example_new =
     (\<lambda>spots. if spots = 1 then [lit 2] else if spots = 2 then [lit 9]
              else if spots = 3 then [lit 10] else [])"

text \<open>
  Measurements that lack the spots value 2: the set that \<open>find_rest_spots\<close> measures
  for the single spots value 3, which is 3 and its half 1.
\<close>

definition example_gap :: results where
  "example_gap = (\<lambda>spots. if spots = 1 \<or> spots = 3 then [lit 10] else [])"

text \<open>The total of nine equal trials, as \<open>sum\<close> adds them up.\<close>

definition nine_times :: "double \<Rightarrow> double" where
  "nine_times x = foldl dadd x (replicate 8 x)"

text \<open>
  A measuring method that stands in for a timed walk: the elapsed time is a given
  function of the stride and the spots, and the machine is left as it is.
\<close>

definition pure_method :: "(u64 \<Rightarrow> u64 \<Rightarrow> ns_t) \<Rightarrow> measure_method" where
  "pure_method f stride spots st = Some (Inr (f stride spots, st))"

text \<open>The measurements of a pure method: nine equal trials for every measured spots value.\<close>

definition pure_results :: "(u64 \<Rightarrow> u64 \<Rightarrow> ns_t) \<Rightarrow> u64 \<Rightarrow> u64 list \<Rightarrow> results" where
  "pure_results f stride xs =
     (\<lambda>k. replicate (9 * count_list xs k) (to_seconds (f stride k)))"

text \<open>
  The spots values of \<open>make_spots(2)\<close>: the powers of two up to 512, then steps of
  256 up to 16640.
\<close>

definition spots2 :: "u64 list" where
  "spots2 =
      [1, 2, 4, 8, 16, 32, 64, 128, 256, 512, 768, 1024, 1280, 1536, 1792, 2048, 2304,
       2560, 2816, 3072, 3328, 3584, 3840, 4096, 4352, 4608, 4864, 5120, 5376, 5632,
       5888, 6144, 6400, 6656, 6912, 7168, 7424, 7680, 7936, 8192, 8448, 8704, 8960,
       9216, 9472, 9728, 9984, 10240, 10496, 10752, 11008, 11264, 11520, 11776, 12032,
       12288, 12544, 12800, 13056, 13312, 13568, 13824, 14080, 14336, 14592, 14848,
       15104, 15360, 15616, 15872, 16128, 16384, 16640]"

text \<open>
  Two synthetic curves of elapsed nanoseconds: one that is one second below 512 spots
  and four seconds from there on, at every stride, and one that is one second except
  for 384 spots at stride 4.
\<close>

definition step_duration :: "u64 \<Rightarrow> u64 \<Rightarrow> ns_t" where
  "step_duration stride spots = (if 512 \<le> spots then 4000000000 else 1000000000)"

definition bump_duration :: "u64 \<Rightarrow> u64 \<Rightarrow> ns_t" where
  "bump_duration stride spots =
     (if stride = 4 \<and> spots = 384 then 4000000000 else 1000000000)"

section \<open>Properties\<close>

subsection \<open>Rounding\<close>

lemma pow2_powr: "pow2 e = 2 powr (of_int e)"
proof (cases "0 \<le> e")
  case True
  then show ?thesis
    by (simp add: pow2_def powr_realpow [symmetric])
next
  case False
  then have "2 powr (of_int e) = 1 / (2 :: real) powr (of_int (- e))"
    by (simp add: powr_minus_divide)
  also have "\<dots> = 1 / 2 ^ nat (- e)"
    using False by (simp add: powr_realpow [symmetric])
  finally show ?thesis
    using False by (simp add: pow2_def)
qed

lemma pow2_pos [simp]: "0 < pow2 e"
  by (simp add: pow2_powr)

lemma pow2_nonneg [simp]: "0 \<le> pow2 e"
  by (simp add: pow2_powr)

lemma pow2_nonzero [simp]: "pow2 e \<noteq> 0"
  by (simp add: pow2_powr)

lemma pow2_not_le_0 [simp]: "\<not> pow2 e \<le> 0"
  by (simp add: pow2_powr not_le)

lemma pow2_add: "pow2 (a + b) = pow2 a * pow2 b"
  by (simp add: pow2_powr powr_add)

lemma pow2_0 [simp]: "pow2 0 = 1"
  by (simp add: pow2_def)

lemma pow2_Suc: "pow2 (e + 1) = 2 * pow2 e"
  using pow2_add [of e 1] by (simp add: pow2_def [of 1])

lemma pow2_mono: "a \<le> b \<Longrightarrow> pow2 a \<le> pow2 b"
  by (simp add: pow2_powr)

lemma pow2_strict_mono: "a < b \<Longrightarrow> pow2 a < pow2 b"
  by (simp add: pow2_powr)

lemma pow2_nat: "pow2 (int n) = 2 ^ n"
  by (simp add: pow2_def)

lemma find_expo_spec:
  "e \<le> find_expo n e m \<and> find_expo n e m \<le> e + int n \<and>
   (find_expo n e m < e + int n \<longrightarrow> m < pow2 (find_expo n e m + 53)) \<and>
   (e < find_expo n e m \<longrightarrow> pow2 (find_expo n e m + 52) \<le> m)"
proof (induction n arbitrary: e)
  case 0
  show ?case by simp
next
  case (Suc n)
  show ?case
  proof (cases "pow2 (e + 53) \<le> m")
    case True
    note ih = Suc [of "e + 1"]
    have "find_expo (Suc n) e m = find_expo n (e + 1) m"
      using True by simp
    moreover have "pow2 (find_expo n (e + 1) m + 52) \<le> m"
    proof (cases "e + 1 < find_expo n (e + 1) m")
      case True
      with ih show ?thesis by simp
    next
      case False
      with ih have "find_expo n (e + 1) m = e + 1"
        by simp
      with True show ?thesis
        by (simp add: add.commute add.left_commute)
    qed
    ultimately show ?thesis
      using ih by auto
  next
    case False
    then show ?thesis
      by simp
  qed
qed

lemma expo_range: "- 1074 \<le> expo m" "expo m \<le> 971"
  using find_expo_spec [of "- 1074" 2045 m] by (simp_all add: expo_def)

lemma expo_upper: "expo m < 971 \<Longrightarrow> m < pow2 (expo m + 53)"
  using find_expo_spec [of "- 1074" 2045 m] by (simp add: expo_def)

lemma expo_lower: "- 1074 < expo m \<Longrightarrow> pow2 (expo m + 52) \<le> m"
  using find_expo_spec [of "- 1074" 2045 m] by (simp add: expo_def)

lemma expo_mono:
  assumes "x \<le> y"
  shows "expo x \<le> expo y"
proof (rule ccontr)
  assume "\<not> expo x \<le> expo y"
  then have lt: "expo y < expo x"
    by simp
  then have "- 1074 < expo x" and "expo y < 971"
    using expo_range [of y] expo_range [of x] by simp_all
  then have "pow2 (expo x + 52) \<le> x" and "y < pow2 (expo y + 53)"
    by (simp_all only: expo_lower expo_upper)
  moreover have "pow2 (expo y + 53) \<le> pow2 (expo x + 52)"
    using lt by (intro pow2_mono) simp
  ultimately show False
    using assms by linarith
qed

lemma expo_eq:
  assumes "- 1074 \<le> e" and "e \<le> 971"
    and "e = - 1074 \<or> pow2 (e + 52) \<le> m"
    and "e = 971 \<or> m < pow2 (e + 53)"
  shows "expo m = e"
proof (rule ccontr)
  assume ne: "expo m \<noteq> e"
  show False
  proof (cases "expo m < e")
    case True
    then have a: "expo m < 971" and b: "- 1074 < e"
      using assms(2) expo_range(1) [of m] by simp_all
    from a have "m < pow2 (expo m + 53)"
      by (rule expo_upper)
    moreover from b assms(3) have "pow2 (e + 52) \<le> m"
      by simp
    moreover have "pow2 (expo m + 53) \<le> pow2 (e + 52)"
      using True by (intro pow2_mono) simp
    ultimately show False
      by linarith
  next
    case False
    with ne have gt: "e < expo m"
      by simp
    then have a: "- 1074 < expo m" and b: "e < 971"
      using assms(1) expo_range(2) [of m] by simp_all
    from a have "pow2 (expo m + 52) \<le> m"
      by (rule expo_lower)
    moreover from b assms(4) have "m < pow2 (e + 53)"
      by simp
    moreover have "pow2 (e + 53) \<le> pow2 (expo m + 52)"
      using gt by (intro pow2_mono) simp
    ultimately show False
      by linarith
  qed
qed

lemma round_even_int [simp]: "round_even (of_int n) = n"
  by (simp add: round_even_def)

lemma round_even_bounds: "of_int (round_even x) \<le> x + 1 / 2" "x - 1 / 2 \<le> of_int (round_even x)"
  unfolding round_even_def Let_def by (auto; linarith)+

lemma round_even_mono:
  assumes "x \<le> y"
  shows "round_even x \<le> round_even y"
proof (cases "\<lfloor>x\<rfloor> = \<lfloor>y\<rfloor>")
  case True
  with assms show ?thesis
    unfolding round_even_def Let_def by auto
next
  case False
  with assms have "\<lfloor>x\<rfloor> < \<lfloor>y\<rfloor>"
    using floor_mono [OF assms] by simp
  then have "\<lfloor>x\<rfloor> + 1 \<le> \<lfloor>y\<rfloor>"
    by simp
  moreover have "round_even x \<le> \<lfloor>x\<rfloor> + 1"
    unfolding round_even_def Let_def by auto
  moreover have "\<lfloor>y\<rfloor> \<le> round_even y"
    unfolding round_even_def Let_def by auto
  ultimately show ?thesis
    by linarith
qed


lemma nearest_0 [simp]: "nearest 0 = 0"
  using round_even_int [of 0] by (simp add: nearest_def)

lemma nearest_nonneg:
  assumes "0 \<le> m"
  shows "0 \<le> nearest m"
proof -
  have "0 \<le> m / pow2 (expo m)"
    using assms by simp
  then have "round_even 0 \<le> round_even (m / pow2 (expo m))"
    by (rule round_even_mono)
  then have "0 \<le> round_even (m / pow2 (expo m))"
    using round_even_int [of 0] by simp
  then show ?thesis
    by (simp add: nearest_def)
qed

lemma nearest_mono:
  assumes "x \<le> y"
  shows "nearest x \<le> nearest y"
proof -
  have le: "expo x \<le> expo y"
    using assms by (rule expo_mono)
  show ?thesis
  proof (cases "expo x = expo y")
    case True
    have "x / pow2 (expo y) \<le> y / pow2 (expo y)"
      using assms by (simp add: divide_right_mono)
    then have "round_even (x / pow2 (expo y)) \<le> round_even (y / pow2 (expo y))"
      by (rule round_even_mono)
    then have "of_int (round_even (x / pow2 (expo y))) * pow2 (expo y)
        \<le> (of_int (round_even (y / pow2 (expo y))) :: real) * pow2 (expo y)"
      by (intro mult_right_mono) simp_all
    then show ?thesis
      by (simp add: nearest_def True)
  next
    case False
    with le have lt: "expo x < expo y"
      by simp
    then have a: "expo x < 971" and b: "- 1074 < expo y"
      using expo_range [of y] expo_range [of x] by simp_all
    define c where "c = (2 :: int) ^ 53"
    define d where "d = (2 :: int) ^ 52"
    have c: "(of_int c :: real) = pow2 53" and d: "(of_int d :: real) = pow2 52"
      by (simp_all add: c_def d_def pow2_def)
    from a have "x < pow2 (expo x + 53)"
      by (rule expo_upper)
    then have "x < pow2 53 * pow2 (expo x)"
      by (simp add: pow2_add mult.commute)
    then have "x / pow2 (expo x) \<le> pow2 53"
      by (simp add: pos_divide_le_eq)
    then have "x / pow2 (expo x) \<le> of_int c"
      by (simp only: c)
    then have "round_even (x / pow2 (expo x)) \<le> round_even (of_int c)"
      by (rule round_even_mono)
    then have "(of_int (round_even (x / pow2 (expo x))) :: real) \<le> of_int c"
      by (simp only: round_even_int of_int_le_iff)
    then have "of_int (round_even (x / pow2 (expo x))) * pow2 (expo x)
        \<le> (of_int c :: real) * pow2 (expo x)"
      by (intro mult_right_mono) simp_all
    also have "(of_int c :: real) * pow2 (expo x) = pow2 (expo x + 53)"
      by (simp only: c pow2_add mult.commute)
    finally have nx: "nearest x \<le> pow2 (expo x + 53)"
      by (simp only: nearest_def)
    from b have "pow2 (expo y + 52) \<le> y"
      by (rule expo_lower)
    then have "pow2 52 * pow2 (expo y) \<le> y"
      by (simp add: pow2_add mult.commute)
    then have "pow2 52 \<le> y / pow2 (expo y)"
      by (simp add: pos_le_divide_eq)
    then have "of_int d \<le> y / pow2 (expo y)"
      by (simp only: d)
    then have "round_even (of_int d) \<le> round_even (y / pow2 (expo y))"
      by (rule round_even_mono)
    then have "(of_int d :: real) \<le> of_int (round_even (y / pow2 (expo y)))"
      by (simp only: round_even_int of_int_le_iff)
    then have "(of_int d :: real) * pow2 (expo y)
        \<le> of_int (round_even (y / pow2 (expo y))) * pow2 (expo y)"
      by (intro mult_right_mono) simp_all
    moreover have "(of_int d :: real) * pow2 (expo y) = pow2 (expo y + 52)"
      by (simp only: d pow2_add mult.commute)
    ultimately have ny: "pow2 (expo y + 52) \<le> nearest y"
      by (simp only: nearest_def)
    have "pow2 (expo x + 53) \<le> pow2 (expo y + 52)"
      using lt by (intro pow2_mono) simp
    with nx ny show ?thesis
      by linarith
  qed
qed

text \<open>The magnitudes \<open>k * 2 ^ e\<close> of the format are fixed points of the rounding.\<close>

lemma nearest_exact:
  assumes "0 \<le> k" and "k < 2 ^ 53" and "- 1074 \<le> e" and "e \<le> 971"
  shows "nearest (of_int k * pow2 e) = of_int k * pow2 e"
proof (cases "k = 0")
  case True
  then show ?thesis by simp
next
  case False
  let ?m = "of_int k * pow2 e"
  have "(of_int k :: real) < of_int (2 ^ 53)"
    using assms(2) by (simp only: of_int_less_iff)
  then have "(of_int k :: real) < pow2 53"
    by (simp add: pow2_def)
  then have "?m < pow2 53 * pow2 e"
    by (intro mult_strict_right_mono) simp_all
  then have up: "?m < pow2 (e + 53)"
    by (simp add: pow2_add mult.commute)
  have le: "expo ?m \<le> e"
  proof (rule ccontr)
    assume "\<not> expo ?m \<le> e"
    then have gt: "e < expo ?m"
      by simp
    then have "- 1074 < expo ?m"
      using assms(3) by simp
    then have "pow2 (expo ?m + 52) \<le> ?m"
      by (rule expo_lower)
    moreover have "pow2 (e + 53) \<le> pow2 (expo ?m + 52)"
      using gt by (intro pow2_mono) simp
    ultimately show False
      using up by linarith
  qed
  define x where "x = expo ?m"
  define n where "n = nat (e - x)"
  have e: "e = x + int n"
    using le by (simp add: n_def x_def)
  have p: "pow2 e = pow2 x * 2 ^ n"
    by (simp only: e pow2_add pow2_nat)
  have "?m / pow2 x = of_int k * (pow2 x * 2 ^ n) / pow2 x"
    by (simp only: p)
  also have "\<dots> = of_int (k * 2 ^ n)"
    by simp
  finally have "round_even (?m / pow2 x) = k * 2 ^ n"
    by (simp only: round_even_int)
  then have "nearest ?m = of_int (k * 2 ^ n) * pow2 x"
    by (simp only: nearest_def x_def)
  also have "\<dots> = of_int k * (pow2 x * 2 ^ n)"
    by simp
  also have "\<dots> = ?m"
    by (simp only: p)
  finally show ?thesis .
qed

lemma exact_below_overflow:
  assumes "0 \<le> k" and "k < 2 ^ 53" and "e \<le> 971"
  shows "of_int k * pow2 e < pow2 1024"
proof -
  have "(of_int k :: real) < of_int (2 ^ 53)"
    using assms(2) by (simp only: of_int_less_iff)
  then have "(of_int k :: real) < pow2 53"
    by (simp add: pow2_def)
  then have "of_int k * pow2 e < pow2 53 * pow2 e"
    by (intro mult_strict_right_mono) simp_all
  also have "\<dots> = pow2 (e + 53)"
    by (simp add: pow2_add mult.commute)
  also have "\<dots> \<le> pow2 1024"
    using assms(3) by (intro pow2_mono) simp
  finally show ?thesis .
qed

lemma rnd_exact:
  assumes "0 \<le> k" and "k < 2 ^ 53" and "- 1074 \<le> e" and "e \<le> 971"
  shows "rnd s (of_int k * pow2 e) = Finite s (of_int k * pow2 e)"
  using nearest_exact [OF assms] exact_below_overflow [OF assms(1,2,4)]
  by (simp add: rnd_def)

lemma rnd_0 [simp]: "rnd s 0 = Finite s 0"
  by (simp add: rnd_def)

lemma rnd_nat:
  assumes "n < 2 ^ 53"
  shows "rnd s (of_nat n) = Finite s (of_nat n)"
proof -
  have "int n < 2 ^ 53"
    using assms by (metis of_nat_less_iff of_nat_numeral of_nat_power)
  from rnd_exact [of "int n" 0 s, OF _ this] show ?thesis
    by simp
qed

lemma rnd_1 [simp]: "rnd s 1 = Finite s 1"
  using rnd_nat [of 1 s] by simp

lemma rnd_numeral [simp]:
  "numeral w < (2 :: nat) ^ 53 \<Longrightarrow> rnd s (numeral w) = Finite s (numeral w)"
  using rnd_nat [of "numeral w" s] by simp

lemma rnd_dyadic:
  assumes "k < 2 ^ 53" and "n \<le> 1074"
  shows "rnd s (of_nat k / 2 ^ n) = Finite s (of_nat k / 2 ^ n)"
proof -
  have "int k < 2 ^ 53"
    using assms(1) by (metis of_nat_less_iff of_nat_numeral of_nat_power)
  moreover have "pow2 (- int n) = 1 / 2 ^ n"
    by (simp add: pow2_def)
  ultimately show ?thesis
    using rnd_exact [of "int k" "- int n" s] assms(2) by simp
qed


lemma dle_refl: "x \<noteq> NaN \<Longrightarrow> dle x x"
  by (cases x) simp_all

lemma dle_trans: "dle x y \<Longrightarrow> dle y z \<Longrightarrow> dle x z"
  by (cases x; cases y; cases z) (auto split: if_splits)

lemma dle_total: "x \<noteq> NaN \<Longrightarrow> y \<noteq> NaN \<Longrightarrow> dle x y \<or> dle y x"
  by (cases x; cases y) (auto split: if_splits)

lemma dlt_iff: "dlt x y \<longleftrightarrow> dle x y \<and> \<not> dle y x"
  by (cases x; cases y) (auto split: if_splits)

lemma dle_not_NaN: "dle x y \<Longrightarrow> x \<noteq> NaN \<and> y \<noteq> NaN"
  by (cases x; cases y) simp_all

lemma rnd_half [simp]: "rnd s (1 / 2) = Finite s (1 / 2)"
  using rnd_dyadic [of 1 1 s] by simp

lemma round_real_pos: "0 < r \<Longrightarrow> round_real z r = rnd False r"
  by (simp add: round_real_def)

lemma lit_0 [simp]: "lit 0 = Finite False 0"
  by (simp add: lit_def round_real_def)

lemma lit_1 [simp]: "lit 1 = Finite False 1"
  by (simp add: lit_def round_real_def)

lemma lit_numeral [simp]:
  "numeral w < (2 :: nat) ^ 53 \<Longrightarrow> lit (numeral w) = Finite False (numeral w)"
  by (simp add: lit_def round_real_def)

lemma lit_half [simp]: "lit (1 / 2) = Finite False (1 / 2)"
  by (simp add: lit_def round_real_def)

lemma rnd_le:
  assumes "x \<le> y"
  shows "dle (rnd False x) (rnd False y)"
proof -
  have "nearest x \<le> nearest y"
    using assms by (rule nearest_mono)
  then show ?thesis
    by (auto simp: rnd_def Let_def)
qed

text \<open>A literal between two doubles is a double between them.\<close>

lemma lit_between:
  assumes "0 < lo" and "lo \<le> r" and "r \<le> hi"
    and "nearest lo = lo" and "nearest hi = hi" and "hi < pow2 1024"
  shows "\<exists>c. lit r = Finite False c \<and> lo \<le> c \<and> c \<le> hi"
proof -
  have "nearest lo \<le> nearest r" and "nearest r \<le> nearest hi"
    using assms(2,3) by (simp_all add: nearest_mono)
  then have "lo \<le> nearest r" and "nearest r \<le> hi"
    using assms(4,5) by simp_all
  moreover have "lit r = rnd False r"
    using assms(1,2) by (simp add: lit_def round_real_pos)
  ultimately show ?thesis
    using assms(6) by (auto simp: rnd_def Let_def)
qed

lemma nearest_dyadic:
  assumes "k < 2 ^ 53" and "n \<le> 1074"
  shows "nearest (of_nat k / 2 ^ n) = of_nat k / 2 ^ n"
proof -
  have "int k < 2 ^ 53"
    using assms(1) by (metis of_nat_less_iff of_nat_numeral of_nat_power)
  moreover have "pow2 (- int n) = 1 / 2 ^ n"
    by (simp add: pow2_def)
  ultimately show ?thesis
    using nearest_exact [of "int k" "- int n"] assms(2) by simp
qed

lemma pow2_1024_large: "(2 :: real) ^ 60 \<le> pow2 1024"
proof -
  have "pow2 60 \<le> pow2 1024"
    by (rule pow2_mono) simp
  then show ?thesis
    by (simp add: pow2_def [of 60])
qed

lemma lit_1045: "\<exists>c. lit 1.045 = Finite False c \<and> 33 / 32 \<le> c \<and> c \<le> 17 / 16"
proof (rule lit_between)
  show "nearest (33 / 32) = 33 / 32"
    using nearest_dyadic [of 33 5] by simp
  show "nearest (17 / 16) = 17 / 16"
    using nearest_dyadic [of 17 4] by simp
  show "17 / 16 < pow2 1024"
    using pow2_1024_large by simp
qed simp_all

lemma lit_112: "\<exists>c. lit 1.12 = Finite False c \<and> 35 / 32 \<le> c \<and> c \<le> 9 / 8"
proof (rule lit_between)
  show "nearest (35 / 32) = 35 / 32"
    using nearest_dyadic [of 35 5] by simp
  show "nearest (9 / 8) = 9 / 8"
    using nearest_dyadic [of 9 3] by simp
  show "9 / 8 < pow2 1024"
    using pow2_1024_large by simp
qed simp_all

lemma dge_trans: "dge x y \<Longrightarrow> dge y z \<Longrightarrow> dge x z"
  unfolding dge_def by (rule dle_trans)

lemma dlt_not_dle: "dlt x y \<Longrightarrow> \<not> dle y x"
  by (simp add: dlt_iff)

lemma not_dle_dle: "\<not> dle x y \<Longrightarrow> x \<noteq> NaN \<Longrightarrow> y \<noteq> NaN \<Longrightarrow> dle y x"
  using dle_total by blast

lemma round_even_nonneg: "0 \<le> x \<Longrightarrow> 0 \<le> round_even x"
  using round_even_mono [of 0 x] round_even_int [of 0] by simp

lemma nearest_idem:
  assumes "0 \<le> m"
  shows "nearest (nearest m) = nearest m"
proof -
  define e where "e = expo m"
  define n where "n = round_even (m / pow2 e)"
  have r: "nearest m = of_int n * pow2 e"
    by (simp add: nearest_def n_def e_def)
  have n0: "0 \<le> n"
    unfolding n_def using assms by (intro round_even_nonneg) simp
  have range: "- 1074 \<le> e" "e \<le> 971"
    unfolding e_def by (rule expo_range)+
  define c where "c = (2 :: int) ^ 53"
  define d where "d = (2 :: int) ^ 52"
  have c: "(of_int c :: real) = pow2 53" and d: "(of_int d :: real) = pow2 52"
    by (simp_all add: c_def d_def pow2_def)
  show ?thesis
  proof (cases "e < 971")
    case True
    then have "m < pow2 (e + 53)"
      unfolding e_def by (rule expo_upper)
    then have "m < pow2 53 * pow2 e"
      by (simp add: pow2_add mult.commute)
    then have "m / pow2 e \<le> of_int c"
      by (simp add: pos_divide_le_eq c)
    then have "round_even (m / pow2 e) \<le> round_even (of_int c)"
      by (rule round_even_mono)
    then have nc: "n \<le> c"
      by (simp only: round_even_int n_def)
    show ?thesis
    proof (cases "n < c")
      case True
      then have "n < 2 ^ 53"
        by (simp add: c_def)
      from nearest_exact [OF n0 this range] show ?thesis
        by (simp only: r)
    next
      case False
      with nc have "n = c"
        by simp
      then have "nearest m = of_int d * pow2 (e + 1)"
        by (simp add: r c_def d_def pow2_Suc)
      moreover have "nearest (of_int d * pow2 (e + 1)) = of_int d * pow2 (e + 1)"
        using True range by (intro nearest_exact) (simp_all add: d_def)
      ultimately show ?thesis
        by simp
    qed
  next
    case False
    with range have e: "e = 971"
      by simp
    then have "- 1074 < expo m"
      by (simp add: e_def)
    then have "pow2 (expo m + 52) \<le> m"
      by (rule expo_lower)
    then have "pow2 52 * pow2 e \<le> m"
      by (simp add: pow2_add mult.commute e_def)
    then have "of_int d \<le> m / pow2 e"
      by (simp add: pos_le_divide_eq d)
    then have "round_even (of_int d) \<le> round_even (m / pow2 e)"
      by (rule round_even_mono)
    then have dn: "d \<le> n"
      by (simp only: round_even_int n_def)
    then have "(of_int d :: real) \<le> of_int n"
      by (simp only: of_int_le_iff)
    then have "of_int d * pow2 e \<le> (of_int n :: real) * pow2 e"
      by (intro mult_right_mono) simp_all
    then have "pow2 (e + 52) \<le> nearest m"
      by (simp only: r d pow2_add mult.commute)
    then have x: "expo (nearest m) = e"
      using e by (intro expo_eq) simp_all
    define v where "v = nearest m"
    have v: "v = of_int n * pow2 e" and xv: "expo v = e"
      using r x by (simp_all only: v_def)
    have "v / pow2 e = of_int n"
      by (simp add: v)
    then have "round_even (v / pow2 (expo v)) = n"
      by (simp only: xv round_even_int)
    then have "nearest v = of_int n * pow2 e"
      by (simp only: nearest_def xv)
    then show ?thesis
      by (simp only: v_def [symmetric] v)
  qed
qed

lemma rnd_is_double:
  assumes "0 \<le> m"
  shows "is_double (rnd s m)"
  using assms by (simp add: rnd_def Let_def nearest_idem nearest_nonneg)

lemma round_real_is_double: "is_double (round_real z r)"
  by (simp add: round_real_def rnd_is_double)

lemma dadd_is_double: "is_double x \<Longrightarrow> is_double y \<Longrightarrow> is_double (dadd x y)"
  by (cases x; cases y) (simp_all add: round_real_is_double)

lemma dmul_is_double: "is_double x \<Longrightarrow> is_double y \<Longrightarrow> is_double (dmul x y)"
  by (cases x; cases y) (simp_all add: rnd_is_double)

lemma ddiv_is_double: "is_double x \<Longrightarrow> is_double y \<Longrightarrow> is_double (ddiv x y)"
  by (cases x; cases y) (simp_all add: rnd_is_double)

lemma lit_is_double: "is_double (lit r)"
  by (simp add: lit_def round_real_is_double)

lemma alpha_val: "alpha = Finite False (1 / 2)"
  by (simp add: alpha_def)

lemma blend_val:
  "blend x y = dadd (dmul x (Finite False (1 / 2))) (dmul y (Finite False (1 / 2)))"
  by (simp add: blend_def alpha_val dsub_def round_real_def)

lemma blend_finite:
  "blend (Finite s a) (Finite t b) =
     dadd (rnd s (a * (1 / 2))) (rnd t (b * (1 / 2)))"
  by (simp add: blend_val)

lemma halvable_is_double: "halvable b \<Longrightarrow> is_double b"
  by (cases b) simp_all

lemma halvable_cases:
  assumes "halvable b"
  obtains m where "b = Finite False m" and "0 < m" and "m < pow2 1024"
    and "nearest m = m" and "nearest (m / 2) = m / 2"
  using assms by (cases b) auto

lemma rnd_fixed:
  assumes "nearest m = m" and "m < pow2 1024"
  shows "rnd s m = Finite s m"
  using assms by (simp add: rnd_def)

lemma blend_same:
  assumes "halvable b"
  shows "blend b b = b"
proof -
  from assms obtain m where b: "b = Finite False m" and m: "0 < m" "m < pow2 1024"
    "nearest m = m" "nearest (m / 2) = m / 2"
    by (rule halvable_cases)
  have "m / 2 < pow2 1024"
    using m(1,2) by simp
  then have h: "rnd False (m * (1 / 2)) = Finite False (m / 2)"
    using m(4) by (simp add: rnd_fixed)
  have "dadd (Finite False (m / 2)) (Finite False (m / 2)) = rnd False m"
    using m(1) by (simp add: round_real_def)
  moreover have "rnd False m = Finite False m"
    using m(2,3) by (simp add: rnd_fixed)
  ultimately show ?thesis
    by (simp only: b blend_finite h)
qed

text \<open>A double that is at least a positive double is plus infinity or positive.\<close>

lemma above_cases:
  assumes "is_double x" and "dle l x" and "halvable l"
  obtains a m where "l = Finite False m" and "x = Finite False a" and "m \<le> a"
  | m where "l = Finite False m" and "x = Infinity False"
proof -
  from assms(3) obtain m where l: "l = Finite False m" and m: "0 < m"
    by (rule halvable_cases)
  show thesis
  proof (cases x)
    case (Finite s a)
    with assms(1,2) l m have "\<not> s" and "m \<le> a"
      by (auto split: if_splits)
    with Finite l that(1) show thesis
      by simp
  next
    case (Infinity s)
    with assms(2) l have "\<not> s"
      by simp
    with Infinity l that(2) show thesis
      by simp
  next
    case NaN
    with assms(2) l show thesis
      by simp
  qed
qed

lemma rnd_above:
  assumes "m \<le> a" and "nearest m = m"
  shows "(\<exists>c. rnd False a = Finite False c \<and> m \<le> c) \<or> rnd False a = Infinity False"
proof -
  have "nearest m \<le> nearest a"
    using assms(1) by (rule nearest_mono)
  then show ?thesis
    using assms(2) by (simp add: rnd_def Let_def)
qed

lemma blend_above:
  assumes "halvable l" and "is_double x" and "dle l x" and "is_double y" and "dle l y"
  shows "dle l (blend x y)"
proof -
  from assms(1) obtain m where l: "l = Finite False m" and m: "0 < m" "m < pow2 1024"
    "nearest m = m" "nearest (m / 2) = m / 2"
    by (rule halvable_cases)
  have half: "(\<exists>c. dmul z (Finite False (1 / 2)) = Finite False c \<and> m / 2 \<le> c)
      \<or> dmul z (Finite False (1 / 2)) = Infinity False"
    if "is_double z" and "dle l z" for z
    using that(1,2) assms(1)
  proof (cases rule: above_cases)
    case (1 a m')
    then have "m / 2 \<le> a * (1 / 2)"
      using l by simp
    from rnd_above [OF this m(4)] 1 show ?thesis
      by simp
  next
    case (2 m')
    then show ?thesis
      by simp
  qed
  have sum: "dle l (dadd u v)"
    if "(\<exists>c. u = Finite False c \<and> m / 2 \<le> c) \<or> u = Infinity False"
      and "(\<exists>c. v = Finite False c \<and> m / 2 \<le> c) \<or> v = Infinity False" for u v
  proof -
    from that consider c d where "u = Finite False c" "v = Finite False d" "m / 2 \<le> c" "m / 2 \<le> d"
      | "u = Infinity False" "v \<noteq> NaN" "v \<noteq> Infinity True"
      | "v = Infinity False" "u \<noteq> NaN" "u \<noteq> Infinity True"
      by auto
    then show ?thesis
    proof cases
      case 1
      then have le: "m \<le> c + d" and pos: "0 < c + d"
        using m(1) by simp_all
      have "dadd u v = rnd False (c + d)"
        using 1 pos by (simp add: round_real_def)
      with rnd_above [OF le m(3)] show ?thesis
        by (auto simp: l)
    next
      case 2
      then show ?thesis
        by (cases v) (simp_all add: l)
    next
      case 3
      then show ?thesis
        by (cases u) (simp_all add: l)
    qed
  qed
  show ?thesis
    unfolding blend_val by (intro sum half assms)
qed

lemma half_is_double: "is_double (Finite False (1 / 2))"
  using lit_is_double [of "1 / 2"] by simp

lemma blend_is_double: "is_double x \<Longrightarrow> is_double y \<Longrightarrow> is_double (blend x y)"
  unfolding blend_val by (intro dadd_is_double dmul_is_double half_is_double)

lemma ddiv_above:
  assumes "halvable l" and "halvable b" and "is_double x" and "dle l x"
  shows "dle (ddiv l b) (ddiv x b)"
proof -
  from assms(2) obtain mb where b: "b = Finite False mb" and mb: "0 < mb"
    by (rule halvable_cases)
  from assms(3,4,1) show ?thesis
  proof (cases rule: above_cases)
    case (1 a m)
    then have "m / mb \<le> a / mb"
      using mb by (simp add: divide_right_mono)
    then have "dle (rnd False (m / mb)) (rnd False (a / mb))"
      by (rule rnd_le)
    then show ?thesis
      using 1 b mb by simp
  next
    case (2 m)
    have "dle (rnd False (m / mb)) (Infinity False)"
      by (simp add: rnd_def Let_def)
    then show ?thesis
      using 2 b mb by simp
  qed
qed

lemma ddiv_same:
  assumes "halvable b"
  shows "ddiv b b = Finite False 1"
  using assms by (cases b) simp_all

lemma one_below_1045:
  assumes "c \<le> 1"
  shows "\<not> dge (Finite False c) (lit 1.045)"
  using lit_1045 assms by (auto simp: dge_def)

lemma ddiv_below:
  assumes "halvable b" and "is_double h" and "dle b h"
  shows "\<not> dge (ddiv b h) (lit 1.045)"
  using assms(2,3,1)
proof (cases rule: above_cases)
  case (1 a m)
  then have m: "0 < m" and a: "0 < a"
    using assms(1) by auto
  then have "m / a \<le> 1"
    using 1 by simp
  then have "nearest (m / a) \<le> nearest 1"
    by (rule nearest_mono)
  then have le: "nearest (m / a) \<le> 1"
    using nearest_exact [of 1 0] by simp
  moreover have "(1 :: real) < pow2 1024"
    using pow2_1024_large by simp
  ultimately have "rnd False (m / a) = Finite False (nearest (m / a))"
    by (simp add: rnd_def)
  then have "ddiv b h = Finite False (nearest (m / a))"
    using 1 a by simp
  with one_below_1045 [OF le] show ?thesis
    by simp
next
  case (2 m)
  then have "ddiv b h = Finite False 0"
    by simp
  with one_below_1045 [of 0] show ?thesis
    by simp
qed

lemma lit_112_ge_1045: "dge (lit 1.12) (lit 1.045)"
  using lit_112 lit_1045 by (auto simp: dge_def)

lemma halvable_dyadic:
  assumes "0 < k" and "k < 2 ^ 53" and "n \<le> 1073"
  shows "halvable (Finite False (of_nat k / 2 ^ n))"
proof -
  have "(of_nat k :: real) / 2 ^ n \<le> of_nat k"
    by (simp add: field_simps mult_le_cancel_left1)
  also have "(of_nat k :: real) < 2 ^ 53"
    using assms(2) by (metis of_nat_less_iff of_nat_numeral of_nat_power)
  also have "(2 :: real) ^ 53 \<le> 2 ^ 60"
    by simp
  finally have "(of_nat k :: real) / 2 ^ n < pow2 1024"
    using pow2_1024_large by simp
  moreover have "nearest (of_nat k / 2 ^ n) = of_nat k / 2 ^ n"
    using assms by (intro nearest_dyadic) simp_all
  moreover have "nearest (of_nat k / 2 ^ Suc n) = of_nat k / 2 ^ Suc n"
    using assms by (intro nearest_dyadic) simp_all
  ultimately show ?thesis
    using assms(1) by (simp add: mult.commute)
qed

text \<open>The rounding of a magnitude in a known binade, and of a quotient by 1.\<close>

lemma nearest_binade:
  assumes "- 1074 \<le> e" and "e \<le> 971" and "pow2 (e + 52) \<le> m" and "m < pow2 (e + 53)"
  shows "nearest m = of_int (round_even (m / pow2 e)) * pow2 e"
proof -
  have "expo m = e"
    using assms by (intro expo_eq) simp_all
  then show ?thesis
    by (simp add: nearest_def)
qed

lemma nearest_unit:
  assumes "1 \<le> m" and "m < 2"
  shows "nearest m = of_int (round_even (m * 2 ^ 52)) / 2 ^ 52"
  using nearest_binade [of "- 52" m] assms by (simp add: pow2_def)

lemma rnd_unit:
  assumes "1 \<le> m" and "m < 2" and "round_even (m * 2 ^ 52) = k" and "k < 2 ^ 53"
  shows "rnd s m = Finite s (of_int k / 2 ^ 52)"
proof -
  have n: "nearest m = of_int k / 2 ^ 52"
    using nearest_unit [OF assms(1,2)] assms(3) by simp
  have "(of_int k :: real) < of_int (2 ^ 53)"
    using assms(4) by (simp only: of_int_less_iff)
  then have "(of_int k :: real) / 2 ^ 52 < 2 ^ 60"
    by (simp add: field_simps)
  then have "of_int k / 2 ^ 52 < pow2 1024"
    using pow2_1024_large by simp
  then show ?thesis
    using n by (simp add: rnd_def)
qed

text \<open>The doubles that the literals 1.24, 1.12 and 1.045 denote.\<close>

lemma lit_values:
  "lit 1.24 = Finite False (5584463537939415 / 2 ^ 52)"
  "lit 1.12 = Finite False (5044031582654956 / 2 ^ 52)"
  "lit 1.045 = Finite False (4706261610602168 / 2 ^ 52)"
proof -
  have "rnd False 1.24 = Finite False (of_int 5584463537939415 / 2 ^ 52)"
    by (rule rnd_unit) (simp_all add: round_even_def)
  then show "lit 1.24 = Finite False (5584463537939415 / 2 ^ 52)"
    by (simp add: lit_def round_real_def)
  have "rnd False 1.12 = Finite False (of_int 5044031582654956 / 2 ^ 52)"
    by (rule rnd_unit) (simp_all add: round_even_def)
  then show "lit 1.12 = Finite False (5044031582654956 / 2 ^ 52)"
    by (simp add: lit_def round_real_def)
  have "rnd False 1.045 = Finite False (of_int 4706261610602168 / 2 ^ 52)"
    by (rule rnd_unit) (simp_all add: round_even_def)
  then show "lit 1.045 = Finite False (4706261610602168 / 2 ^ 52)"
    by (simp add: lit_def round_real_def)
qed

lemma ddiv_one:
  assumes "is_double x"
  shows "ddiv x (Finite False 1) = x"
  using assms by (cases x) (simp_all add: rnd_fixed)

lemma rnd_at_most_one:
  assumes "x \<le> 1"
  shows "\<exists>c. rnd False x = Finite False c \<and> c \<le> 1"
proof -
  have "nearest x \<le> nearest 1"
    using assms by (rule nearest_mono)
  then have le: "nearest x \<le> 1"
    using nearest_exact [of 1 0] by simp
  moreover have "(1 :: real) < pow2 1024"
    using pow2_1024_large by simp
  ultimately show ?thesis
    by (simp add: rnd_def)
qed


subsection \<open>Growth rule\<close>

text \<open>
  In the third branch of \<open>next_spots\<close> the divisor is never zero: a zero stride
  makes the product zero and selects the first branch.
\<close>

lemma next_spots_divisor_nonzero:
  "\<not> spots * stride \<le> step \<Longrightarrow> stride \<noteq> 0"
  by (auto simp: step_def)

text \<open>
  When nothing overflows, the word arithmetic of \<open>next_spots\<close> is the arithmetic
  of the natural numbers.
\<close>

lemma next_spots_unat:
  assumes "unat spots * unat stride < 2 ^ 64" and "unat spots < 2 ^ 63"
  shows "unat (next_spots stride spots) =
           (if unat spots * unat stride \<le> 512 then unat spots * 2
            else if unat stride > 512 then unat spots + 1
            else unat spots + 512 div unat stride)"
proof -
  have prod: "unat (spots * stride) = unat spots * unat stride"
    using assms(1) by (simp add: unat_word_ariths)
  have c1: "(spots * stride \<le> step) = (unat spots * unat stride \<le> 512)"
    by (simp add: word_le_nat_alt prod step_def)
  have c2: "(stride > step) = (unat stride > 512)"
    by (simp add: word_less_nat_alt step_def)
  have r1: "unat (spots * 2) = unat spots * 2"
    using assms(2) by (simp add: unat_word_ariths)
  have r2: "unat (spots + 1) = unat spots + 1"
    using assms(2) by (simp add: unat_word_ariths)
  have dv: "unat (step div stride) = 512 div unat stride"
    by (simp add: unat_div step_def)
  have le: "512 div unat stride \<le> 512"
    by (rule div_le_dividend)
  have "(2::nat) ^ 63 + 512 < 2 ^ 64"
    by simp
  with le assms(2) have "unat spots + 512 div unat stride < 2 ^ 64"
    by linarith
  then have "unat spots + unat (step div stride) < 2 ^ LENGTH(64)"
    by (simp add: dv)
  then have r3: "unat (spots + step div stride) = unat spots + 512 div unat stride"
    by (simp add: unat_add_lem [THEN iffD1] dv)
  show ?thesis
    by (simp add: next_spots_def c1 c2 r1 r2 r3)
qed

text \<open>
  C5. For every stride and spots (64-bit unsigned, products and sums wrapping
  as in the source), \<open>next_spots stride spots\<close> is \<open>spots * 2\<close> when
  \<open>spots * stride \<le> 512\<close>, otherwise \<open>spots + 1\<close> when \<open>stride > 512\<close>,
  otherwise \<open>spots + 512 / stride\<close>; and the three literal cases of the spec
  evaluate to 2, 11 and 108.
\<close>

theorem next_spots_growth_rule:
  "next_spots stride spots =
     (if spots * stride \<le> 512 then spots * 2
      else if stride > 512 then spots + 1
      else spots + 512 div stride)
   \<and> next_spots 256 1 = 2
   \<and> next_spots 1024 10 = 11
   \<and> next_spots 64 100 = 108"
  by (simp add: next_spots_def step_def)

subsection \<open>Allocation size\<close>

text \<open>
  C10. For every slot count \<open>sz\<close>, the constructor of \<open>aligned_array\<close>
  requests \<open>sz * 8\<close> bytes (the 64-bit product of the source) when that is a
  multiple of the page size 16384, and otherwise exactly \<open>2 * 16384 = 32768\<close>
  bytes, whatever \<open>sz\<close> is. The two global arrays, of \<open>2 ^ 23\<close> and
  \<open>2 ^ 24\<close> slots, are in the first case, and their byte counts
  \<open>2 ^ 26\<close> and \<open>2 ^ 27\<close> do not wrap.
\<close>

theorem aligned_array_bytes_cases:
  "aligned_array_bytes sz =
     (if (sz * 8) mod 16384 = 0 then sz * 8 else 32768)
   \<and> aligned_array_bytes clutter_size = clutter_size * 8
   \<and> aligned_array_bytes a_size = a_size * 8
   \<and> unat (aligned_array_bytes clutter_size) = 2 ^ 23 * 8
   \<and> unat (aligned_array_bytes a_size) = 2 ^ 24 * 8"
  by (simp add: aligned_array_bytes_def slot_bytes_def page_size_def
      clutter_size_def a_size_def max_check_mem_def)

subsection \<open>Auxiliary facts: error monad, word arithmetic, rotations\<close>

declare forward_loop.simps [simp del] shuffle_loop.simps [simp del]
  half_loop.simps [simp del] scan_loop.simps [simp del] speedup_loop.simps [simp del]

lemma bind_err_Inr [simp]: "bind_err (Inr x) f = f x"
  by (simp add: bind_err_def)

lemma bind_err_Inl [simp]: "bind_err (Inl e) f = Inl e"
  by (simp add: bind_err_def)

lemma unat_mult_small:
  fixes x y :: u64
  assumes "unat x * unat y < 2 ^ 64"
  shows "unat (x * y) = unat x * unat y"
  using assms by (simp add: unat_mult_lem [THEN iffD1])

lemma unat_add_small:
  fixes x y :: u64
  assumes "unat x + unat y < 2 ^ 64"
  shows "unat (x + y) = unat x + unat y"
  using assms by (simp add: unat_add_lem [THEN iffD1])

lemma unat_of_nat_small:
  "k < 2 ^ 64 \<Longrightarrow> unat (of_nat k :: u64) = k"
  by (simp add: unat_of_nat)

subsection \<open>The forward chain\<close>

lemma slot_addr_frame:
  "a_begin st' = a_begin st \<Longrightarrow> slot_addr st' i = slot_addr st i"
  by (simp add: slot_addr_def)

lemma forward_loop_spec:
  assumes "0 < unat stride"
    and "unat spots * unat stride \<le> length (arena st)"
    and "length (arena st) < 2 ^ 61"
    and "0 < unat spots"
    and "unat i \<le> unat spots - 1"
  shows "\<exists>st'. forward_loop stride spots i st = Inr st' \<and> same_frame st st' \<and>
           (\<forall>k < length (arena st). arena st' ! k =
              (if \<exists>j. unat i \<le> j \<and> j < unat spots - 1 \<and> k = j * unat stride
               then slot_addr st (of_nat (k + unat stride))
               else arena st ! k))"
  using assms
proof (induction stride spots i st rule: forward_loop.induct)
  case (1 stride spots i st)
  let ?n = "unat spots" and ?s = "unat stride" and ?L = "length (arena st)"
  have nz: "spots \<noteq> 0"
    using "1.prems"(4) by (simp add: unat_gt_0)
  have n1: "unat (spots - 1) = ?n - 1"
    using nz by (simp add: unat_minus_one)
  show ?case
  proof (cases "i < spots - 1")
    case False
    then have "\<not> unat i < ?n - 1"
      by (simp add: word_less_nat_alt n1)
    with False show ?thesis
      by (subst forward_loop.simps) (auto simp: same_frame_def)
  next
    case True
    then have lt: "unat i < ?n - 1"
      by (simp add: word_less_nat_alt n1)
    have i1: "unat (i + 1) = unat i + 1"
    proof -
      have "unat i + unat (1 :: u64) < 2 ^ 64"
        using lt unsigned_less [of spots, where 'a = nat] by simp
      then show ?thesis
        using unat_add_small [of i 1] by simp
    qed
    have "(unat i + 1) * ?s \<le> ?n * ?s"
      using lt by (intro mult_le_mono1) simp
    then have b2: "(unat i + 1) * ?s \<le> ?L"
      using "1.prems"(2) by simp
    then have b1: "unat i * ?s < ?L"
      using "1.prems"(1) by simp
    have L64: "?L < 2 ^ 64"
      using "1.prems"(3) by (rule less_trans) simp
    have ui: "unat (i * stride) = unat i * ?s"
      using b1 L64 by (intro unat_mult_small) simp
    have ui1: "unat ((i + 1) * stride) = (unat i + 1) * ?s"
    proof -
      have "unat (i + 1) * unat stride < 2 ^ 64"
        using b2 L64 by (simp add: i1)
      then show ?thesis
        using unat_mult_small [of "i + 1" stride] by (simp add: i1)
    qed
    have v: "(i + 1) * stride = of_nat (unat i * ?s + ?s)"
    proof -
      have "unat i * ?s + ?s < 2 ^ 64"
        using b2 L64 by simp
      then have "unat (of_nat (unat i * ?s + ?s) :: u64) = unat i * ?s + ?s"
        by (rule unat_of_nat_small)
      with ui1 have "unat ((i + 1) * stride) = unat (of_nat (unat i * ?s + ?s) :: u64)"
        by simp
      then show ?thesis
        by (rule word_unat_eq_iff [THEN iffD2])
    qed
    define st1 where "st1 = st\<lparr>arena := (arena st)[unat i * ?s := slot_addr st ((i + 1) * stride)]\<rparr>"
    have w: "write_slot (i * stride) (slot_addr st ((i + 1) * stride)) st = Inr st1"
      using b1 by (simp add: write_slot_def ui st1_def)
    have "\<exists>st'. forward_loop stride spots (i + 1) st1 = Inr st' \<and> same_frame st1 st' \<and>
           (\<forall>k < length (arena st1). arena st' ! k =
              (if \<exists>j. unat (i + 1) \<le> j \<and> j < unat spots - 1 \<and> k = j * unat stride
               then slot_addr st1 (of_nat (k + unat stride))
               else arena st1 ! k))"
      using True "1.prems" lt by (intro "1.IH") (simp_all add: st1_def i1)
    then obtain st' where
      run: "forward_loop stride spots (i + 1) st1 = Inr st'" and
      fr: "same_frame st1 st'" and
      ar: "\<forall>k < length (arena st1). arena st' ! k =
              (if \<exists>j. unat (i + 1) \<le> j \<and> j < unat spots - 1 \<and> k = j * unat stride
               then slot_addr st1 (of_nat (k + unat stride))
               else arena st1 ! k)"
      by blast
    have run': "forward_loop stride spots i st = Inr st'"
      using True w run by (subst forward_loop.simps) simp
    have fr': "same_frame st st'"
      using fr by (simp add: same_frame_def st1_def)
    have "arena st' ! k =
              (if \<exists>j. unat i \<le> j \<and> j < unat spots - 1 \<and> k = j * unat stride
               then slot_addr st (of_nat (k + unat stride))
               else arena st ! k)" if k: "k < ?L" for k
    proof -
      have k1: "k < length (arena st1)"
        using k by (simp add: st1_def)
      note eq = ar [rule_format, OF k1]
      have sl: "slot_addr st1 x = slot_addr st x" for x
        by (simp add: slot_addr_def st1_def)
      show ?thesis
      proof (cases "k = unat i * ?s")
        case True
        have nex: "\<not> (\<exists>j. unat (i + 1) \<le> j \<and> j < unat spots - 1 \<and> k = j * unat stride)"
          using True "1.prems"(1) by (auto simp: i1)
        have ex: "\<exists>j. unat i \<le> j \<and> j < unat spots - 1 \<and> k = j * unat stride"
          using True lt by blast
        have "arena st' ! k = arena st1 ! k"
          using eq nex by (simp only: if_False)
        also have "\<dots> = slot_addr st ((i + 1) * stride)"
          using b1 by (simp add: st1_def True)
        also have "\<dots> = slot_addr st (of_nat (k + ?s))"
          by (simp only: v True)
        finally show ?thesis
          using ex by (simp only: if_True)
      next
        case False
        have iff: "(\<exists>j. unat (i + 1) \<le> j \<and> j < unat spots - 1 \<and> k = j * unat stride)
            = (\<exists>j. unat i \<le> j \<and> j < unat spots - 1 \<and> k = j * unat stride)"
          using False by (auto simp: i1 le_less Suc_le_eq)
        have a1: "arena st1 ! k = arena st ! k"
          using False by (simp add: st1_def)
        show ?thesis
          using eq unfolding iff a1 sl .
      qed
    qed
    with run' fr' show ?thesis
      by blast
  qed
qed


lemma rot_inj_le:
  fixes n :: nat
  assumes "t \<le> t'" "t' < n" "(j + t) mod n = (j + t') mod n"
  shows "t = t'"
proof -
  have "n dvd (j + t') - (j + t)"
    using assms(1,3) mod_eq_dvd_iff_nat [of "j + t" "j + t'" n] by simp
  then have "n dvd t' - t"
    by simp
  moreover have "t' - t < n"
    using assms(2) by simp
  ultimately have "t' - t = 0"
    using dvd_imp_le [of n "t' - t"] by (cases "t' - t = 0") simp_all
  with assms(1) show ?thesis
    by simp
qed

lemma rot_inj:
  fixes n :: nat
  assumes "t < n" "t' < n" "(j + t) mod n = (j + t') mod n"
  shows "t = t'"
proof (cases "t \<le> t'")
  case True
  then show ?thesis
    using assms by (intro rot_inj_le [of t t' n j])
next
  case False
  then have "t' = t"
    using assms by (intro rot_inj_le [of t' t n j]) simp_all
  then show ?thesis
    by simp
qed

lemma rot_image:
  fixes n :: nat
  shows "(\<lambda>t. (j + t) mod n) ` {..<n} = {..<n}"
proof (rule endo_inj_surj)
  show "finite {..<n}"
    by simp
  show "(\<lambda>t. (j + t) mod n) ` {..<n} \<subseteq> {..<n}"
    by auto
  show "inj_on (\<lambda>t. (j + t) mod n) {..<n}"
    by (rule inj_onI) (auto intro: rot_inj)
qed

lemma of_nat_mult_unat: "(of_nat j :: u64) * w = of_nat (j * unat w)"
  by simp

lemma last_anchor_index:
  fixes stride spots :: u64
  assumes "0 < unat spots" "unat spots * unat stride < 2 ^ 64"
  shows "unat (stride * spots - stride) = (unat spots - 1) * unat stride"
proof -
  have a: "unat (stride * spots) = unat stride * unat spots"
    using assms(2) by (intro unat_mult_small) (simp add: mult.commute)
  have "unat stride \<le> unat stride * unat spots"
    using assms(1) by simp
  then have "stride \<le> stride * spots"
    by (simp add: word_le_nat_alt a)
  then have "unat (stride * spots - stride) = unat (stride * spots) - unat stride"
    by (rule unat_sub)
  then have "unat (stride * spots - stride) = unat stride * unat spots - unat stride"
    by (simp only: a)
  also have "\<dots> = (unat spots - 1) * unat stride"
    by (simp add: diff_mult_distrib2 mult.commute)
  finally show ?thesis .
qed

lemma create_forward_chain_spec:
  assumes "0 < unat stride"
    and "unat spots * unat stride \<le> length (arena st)"
    and "length (arena st) < 2 ^ 61"
    and "0 < unat spots"
  shows "\<exists>st'. create_forward_chain stride spots st = Inr st' \<and> same_frame st st' \<and>
           (\<forall>j < unat spots. arena st' ! (j * unat stride) =
              slot_addr st (of_nat (((j + 1) mod unat spots) * unat stride))) \<and>
           (\<forall>k < length (arena st). (\<forall>j < unat spots. k \<noteq> j * unat stride) \<longrightarrow>
              arena st' ! k = arena st ! k)"
proof -
  let ?n = "unat spots" and ?s = "unat stride" and ?L = "length (arena st)"
  obtain st1 where
    run: "forward_loop stride spots 0 st = Inr st1" and
    fr: "same_frame st st1" and
    ar: "\<forall>k < ?L. arena st1 ! k =
              (if \<exists>j. unat (0 :: u64) \<le> j \<and> j < ?n - 1 \<and> k = j * ?s
               then slot_addr st (of_nat (k + ?s))
               else arena st ! k)"
    using forward_loop_spec [OF assms, of 0] by auto
  have L64: "?L < 2 ^ 64"
    using assms(3) by (rule less_trans) simp
  have last: "unat (stride * spots - stride) = (?n - 1) * ?s"
    using assms(2,4) L64 by (intro last_anchor_index) simp_all
  have "(?n - 1) * ?s + ?s = ?n * ?s"
    using assms(4) by (simp add: diff_mult_distrib)
  then have lastL: "(?n - 1) * ?s < ?L"
    using assms(1,2) by linarith
  define st' where "st' = st1\<lparr>arena := (arena st1)[(?n - 1) * ?s := slot_addr st1 0]\<rparr>"
  have len1: "length (arena st1) = ?L" and beg1: "a_begin st1 = a_begin st"
    using fr by (simp_all add: same_frame_def)
  have w: "write_slot (stride * spots - stride) (slot_addr st1 0) st1 = Inr st'"
    using lastL by (simp add: write_slot_def last len1 st'_def)
  have run': "create_forward_chain stride spots st = Inr st'"
    by (simp add: create_forward_chain_def run w)
  have fr': "same_frame st st'"
    using fr by (simp add: same_frame_def st'_def)
  have anchors: "arena st' ! (j * ?s) = slot_addr st (of_nat (((j + 1) mod ?n) * ?s))"
    if j: "j < ?n" for j
  proof (cases "j = ?n - 1")
    case True
    then have "(j + 1) mod ?n = 0"
      using assms(4) by simp
    moreover have "arena st' ! (j * ?s) = slot_addr st 0"
      using lastL True by (simp add: st'_def len1 slot_addr_def beg1)
    ultimately show ?thesis
      by simp
  next
    case False
    then have jl: "j < ?n - 1"
      using j by simp
    then have m: "Suc j mod ?n = Suc j"
      by simp
    have ne: "j * ?s \<noteq> (?n - 1) * ?s"
      using False assms(1) by simp
    have "j * ?s \<le> (?n - 1) * ?s"
      using jl by (intro mult_le_mono1) simp
    then have jL: "j * ?s < ?L"
      using lastL by (rule le_less_trans)
    have "arena st' ! (j * ?s) = arena st1 ! (j * ?s)"
      using ne by (simp add: st'_def)
    also have "\<dots> = slot_addr st (of_nat (j * ?s + ?s))"
      using ar [rule_format, OF jL] jl by auto
    also have "j * ?s + ?s = (j + 1) mod ?n * ?s"
      by (simp add: m)
    finally show ?thesis .
  qed
  have others: "arena st' ! k = arena st ! k"
    if k: "k < ?L" and na: "\<forall>j < ?n. k \<noteq> j * ?s" for k
  proof -
    have "k \<noteq> (?n - 1) * ?s"
      using na assms(4) by simp
    then have "arena st' ! k = arena st1 ! k"
      by (simp add: st'_def)
    moreover have "\<not> (\<exists>j. unat (0 :: u64) \<le> j \<and> j < ?n - 1 \<and> k = j * ?s)"
      using na by auto
    then have "arena st1 ! k = arena st ! k"
      using ar [rule_format, OF k] by (simp only: if_False)
    ultimately show ?thesis
      by simp
  qed
  from run' fr' anchors others show ?thesis
    by blast
qed

lemma deref_slot_addr:
  assumes "unat i < length (arena st)" and "length (arena st) < 2 ^ 61"
  shows "deref st (slot_addr st i) = Inr (arena st ! unat i)"
proof -
  have i61: "unat i < 2 ^ 61"
    using assms by simp
  then have "unat i * unat (8 :: u64) < 2 ^ 64"
    by simp
  then have u8: "unat (i * 8) = unat i * 8"
    using unat_mult_small [of i 8] by simp
  have m: "(i * 8) mod 8 = (0 :: u64)"
    by (simp add: word_unat_eq_iff unat_mod u8)
  have d: "(i * 8) div 8 = i"
    by (simp add: word_unat_eq_iff unat_div u8)
  show ?thesis
    using assms(1) by (simp add: deref_def slot_addr_def slot_bytes_def m d)
qed

lemma slot_addr_inj:
  assumes "slot_addr st i = slot_addr st j" and "unat i < 2 ^ 61" and "unat j < 2 ^ 61"
  shows "i = j"
proof -
  have e: "i * 8 = j * 8"
    using assms(1) by (simp add: slot_addr_def slot_bytes_def)
  have "unat i * unat (8 :: u64) < 2 ^ 64" and "unat j * unat (8 :: u64) < 2 ^ 64"
    using assms(2,3) by simp_all
  then have "unat (i * 8) = unat i * 8" and "unat (j * 8) = unat j * 8"
    using unat_mult_small [of i 8] unat_mult_small [of j 8] by simp_all
  with e have "unat i = unat j"
    by simp
  then show ?thesis
    by (simp add: word_unat_eq_iff)
qed

text \<open>The index of an anchor, and the injectivity of anchor addresses.\<close>

lemma anchor_index:
  assumes "j * unat stride < 2 ^ 64"
  shows "unat (of_nat j * stride :: u64) = j * unat stride"
proof -
  have "(of_nat j :: u64) * stride = of_nat (j * unat stride)"
    by simp
  then show ?thesis
    using assms by (simp only: unat_of_nat_small)
qed

lemma anchor_addr_inj:
  assumes "anchor_addr st stride i = anchor_addr st stride j"
    and "i * unat stride < 2 ^ 61" and "j * unat stride < 2 ^ 61" and "0 < unat stride"
  shows "i = j"
proof -
  have i64: "i * unat stride < 2 ^ 64" and j64: "j * unat stride < 2 ^ 64"
    using assms(2,3) by (auto intro: less_trans)
  have "of_nat i * stride = of_nat j * stride"
    using assms(1) unfolding anchor_addr_def
    by (rule slot_addr_inj) (simp_all only: anchor_index [OF i64] anchor_index [OF j64] assms)
  then have "unat (of_nat i * stride) = unat (of_nat j * stride)"
    by simp
  then have "i * unat stride = j * unat stride"
    by (simp only: anchor_index [OF i64] anchor_index [OF j64])
  with assms(4) show ?thesis
    by simp
qed

lemma chase_path_cycle:
  assumes "is_cycle stride spots st" and "length (arena st) < 2 ^ 61" and "j < unat spots"
  shows "chase_path m (anchor_addr st stride j) st =
           Inr (map (\<lambda>t. anchor_addr st stride ((j + t) mod unat spots)) [0..<m])"
  using assms(3)
proof (induction m arbitrary: j)
  case 0
  show ?case by simp
next
  case (Suc m)
  let ?n = "unat spots"
  have rd: "read_slot st (of_nat j * stride) = Inr (anchor_addr st stride (Suc j mod ?n))"
    using assms(1) Suc.prems by (simp add: is_cycle_def)
  then have inr: "unat (of_nat j * stride) < length (arena st)"
    by (auto simp: read_slot_def split: if_splits)
  have "deref st (anchor_addr st stride j) = Inr (arena st ! unat (of_nat j * stride))"
    unfolding anchor_addr_def using inr assms(2) by (rule deref_slot_addr)
  also have "\<dots> = Inr (anchor_addr st stride (Suc j mod ?n))"
    using rd inr by (simp add: read_slot_def)
  finally have d: "deref st (anchor_addr st stride j) = Inr (anchor_addr st stride (Suc j mod ?n))" .
  have "Suc j mod ?n < ?n"
    using Suc.prems by simp
  then have ih: "chase_path m (anchor_addr st stride (Suc j mod ?n)) st =
           Inr (map (\<lambda>t. anchor_addr st stride ((Suc j mod ?n + t) mod ?n)) [0..<m])"
    by (rule Suc.IH)
  have m: "(Suc j mod ?n + t) mod ?n = Suc (j + t) mod ?n" for t
    by (simp add: mod_add_left_eq)
  have "[0..<Suc m] = 0 # map Suc [0..<m]"
    by (simp add: upt_conv_Cons map_Suc_upt del: upt_Suc)
  then have "map (\<lambda>t. anchor_addr st stride ((j + t) mod ?n)) [0..<Suc m] =
      anchor_addr st stride j # map (\<lambda>t. anchor_addr st stride ((j + Suc t) mod ?n)) [0..<m]"
    using Suc.prems by (simp add: comp_def del: upt_Suc)
  then show ?case
    by (simp add: d ih m del: upt_Suc)
qed

lemma chase_cycle:
  assumes "is_cycle stride spots st" and "length (arena st) < 2 ^ 61" and "j < unat spots"
  shows "\<exists>sm'. chase m (anchor_addr st stride j) sm st =
           Inr (anchor_addr st stride ((j + m) mod unat spots), sm')"
  using assms(3)
proof (induction m arbitrary: j sm)
  case 0
  then show ?case by simp
next
  case (Suc m)
  let ?n = "unat spots"
  have rd: "read_slot st (of_nat j * stride) = Inr (anchor_addr st stride (Suc j mod ?n))"
    using assms(1) Suc.prems by (simp add: is_cycle_def)
  then have inr: "unat (of_nat j * stride) < length (arena st)"
    by (auto simp: read_slot_def split: if_splits)
  have "deref st (anchor_addr st stride j) = Inr (arena st ! unat (of_nat j * stride))"
    unfolding anchor_addr_def using inr assms(2) by (rule deref_slot_addr)
  also have "\<dots> = Inr (anchor_addr st stride (Suc j mod ?n))"
    using rd inr by (simp add: read_slot_def)
  finally have d: "deref st (anchor_addr st stride j) = Inr (anchor_addr st stride (Suc j mod ?n))" .
  have "Suc j mod ?n < ?n"
    using Suc.prems by simp
  from Suc.IH [OF this] obtain sm' where
    "chase m (anchor_addr st stride (Suc j mod ?n))
       (sm + anchor_addr st stride (Suc j mod ?n)) st =
     Inr (anchor_addr st stride ((Suc j mod ?n + m) mod ?n), sm')"
    by blast
  moreover have "(Suc j mod ?n + m) mod ?n = Suc (j + m) mod ?n"
    by (simp add: mod_add_left_eq)
  ultimately show ?case
    by (simp add: d)
qed


lemma cycle_path_distinct:
  assumes "0 < unat stride" and "unat spots * unat stride < 2 ^ 61" and "j < unat spots"
  shows "distinct (map (\<lambda>t. anchor_addr st stride ((j + t) mod unat spots)) [0..<unat spots])"
proof -
  let ?n = "unat spots"
  have b: "i * unat stride < 2 ^ 61" if "i < ?n" for i
  proof -
    have "i * unat stride \<le> ?n * unat stride"
      using that by (intro mult_le_mono1) simp
    then show ?thesis
      using assms(2) by (rule le_less_trans)
  qed
  have "inj_on (\<lambda>t. anchor_addr st stride ((j + t) mod ?n)) (set [0..<?n])"
  proof (rule inj_onI)
    fix t t'
    assume t: "t \<in> set [0..<?n]" and t': "t' \<in> set [0..<?n]"
      and e: "anchor_addr st stride ((j + t) mod ?n) = anchor_addr st stride ((j + t') mod ?n)"
    have "(j + t) mod ?n < ?n" and "(j + t') mod ?n < ?n"
      using assms(3) by simp_all
    then have "(j + t) mod ?n * unat stride < 2 ^ 61" and "(j + t') mod ?n * unat stride < 2 ^ 61"
      by (simp_all only: b)
    with e have "(j + t) mod ?n = (j + t') mod ?n"
      using assms(1) by (rule anchor_addr_inj)
    then show "t = t'"
      using t t' by (intro rot_inj [of t ?n t' j]) simp_all
  qed
  then show ?thesis
    by (simp add: distinct_map)
qed

lemma cycle_path_set:
  "set (map (\<lambda>t. anchor_addr st stride ((j + t) mod unat spots)) [0..<unat spots]) =
     anchor_addr st stride ` {..<unat spots}"
proof -
  have "set (map (\<lambda>t. anchor_addr st stride ((j + t) mod unat spots)) [0..<unat spots]) =
      anchor_addr st stride ` ((\<lambda>t. (j + t) mod unat spots) ` {..<unat spots})"
    by (simp add: image_image lessThan_atLeast0)
  then show ?thesis
    by (simp only: rot_image)
qed

text \<open>
  C6. For every stride and spots that are at least 1 with \<open>spots * stride\<close>
  within the arena, \<open>create_forward_chain\<close> returns, changes nothing but the
  arena contents, leaves every slot that is not a chain anchor as it was, and makes each
  of the \<open>spots\<close> anchors (spaced \<open>stride\<close> apart) hold the address of the
  next one, the last wrapping to the first. Hence from any anchor the pointer chase of
  \<open>measure_walk\<close> is back at its start after exactly \<open>spots\<close> steps, and the
  \<open>spots\<close> pointers it dereferences on the way are pairwise distinct and are
  exactly the anchors.
\<close>

theorem forward_chain_cycle:
  assumes "0 < unat stride" and "0 < unat spots"
    and "unat spots * unat stride \<le> length (arena st)"
    and "length (arena st) < 2 ^ 61"
  shows "\<exists>st'. create_forward_chain stride spots st = Inr st' \<and> same_frame st st' \<and>
           is_cycle stride spots st' \<and>
           (\<forall>k < length (arena st). (\<forall>j < unat spots. k \<noteq> j * unat stride) \<longrightarrow>
              arena st' ! k = arena st ! k) \<and>
           (\<forall>j < unat spots.
              (\<exists>sm. chase (unat spots) (anchor_addr st' stride j) 0 st' =
                      Inr (anchor_addr st' stride j, sm)) \<and>
              (\<exists>ps. chase_path (unat spots) (anchor_addr st' stride j) st' = Inr ps \<and>
                    distinct ps \<and> set ps = anchor_addr st' stride ` {..<unat spots}))"
proof -
  let ?n = "unat spots" and ?s = "unat stride" and ?L = "length (arena st)"
  obtain st' where
    run: "create_forward_chain stride spots st = Inr st'" and
    fr: "same_frame st st'" and
    an: "\<forall>j < ?n. arena st' ! (j * ?s) = slot_addr st (of_nat (((j + 1) mod ?n) * ?s))" and
    ot: "\<forall>k < ?L. (\<forall>j < ?n. k \<noteq> j * ?s) \<longrightarrow> arena st' ! k = arena st ! k"
    using create_forward_chain_spec [OF assms(1,3,4,2)] by blast
  have len: "length (arena st') = ?L" and beg: "a_begin st' = a_begin st"
    using fr by (simp_all add: same_frame_def)
  have L61: "length (arena st') < 2 ^ 61"
    using assms(4) by (simp add: len)
  have ns61: "?n * ?s < 2 ^ 61"
    using assms(3,4) by (rule le_less_trans)
  have jb: "j * ?s < ?L" if "j < ?n" for j
  proof -
    have "j * ?s + ?s \<le> ?n * ?s"
      using that mult_le_mono1 [of "Suc j" ?n ?s] by simp
    then show ?thesis
      using assms(1,3) by linarith
  qed
  have cyc: "is_cycle stride spots st'"
    unfolding is_cycle_def
  proof (intro allI impI)
    fix j assume j: "j < ?n"
    have "j * ?s < 2 ^ 64"
      using jb [OF j] assms(4) by (auto intro: less_trans)
    then have idx: "unat (of_nat j * stride :: u64) = j * ?s"
      by (rule anchor_index)
    have "slot_addr st (of_nat ((Suc j mod ?n) * ?s)) = anchor_addr st' stride (Suc j mod ?n)"
      by (simp add: anchor_addr_def slot_addr_def beg)
    then show "read_slot st' (of_nat j * stride) = Inr (anchor_addr st' stride (Suc j mod ?n))"
      using an [rule_format, OF j] jb [OF j] by (simp add: read_slot_def idx len)
  qed
  have walk: "(\<exists>sm. chase ?n (anchor_addr st' stride j) 0 st' =
                      Inr (anchor_addr st' stride j, sm)) \<and>
              (\<exists>ps. chase_path ?n (anchor_addr st' stride j) st' = Inr ps \<and>
                    distinct ps \<and> set ps = anchor_addr st' stride ` {..<?n})"
    if j: "j < ?n" for j
  proof
    have "(j + ?n) mod ?n = j"
      using j by simp
    then show "\<exists>sm. chase ?n (anchor_addr st' stride j) 0 st' = Inr (anchor_addr st' stride j, sm)"
      using chase_cycle [OF cyc L61 j, of ?n 0] by simp
  next
    show "\<exists>ps. chase_path ?n (anchor_addr st' stride j) st' = Inr ps \<and>
                    distinct ps \<and> set ps = anchor_addr st' stride ` {..<?n}"
      using chase_path_cycle [OF cyc L61 j, of ?n]
        cycle_path_distinct [OF assms(1) ns61 j, of st']
        cycle_path_set [of st' stride j spots]
      by blast
  qed
  from run fr cyc ot walk show ?thesis
    by blast
qed

theorem forward_chain_cycle_witness:
  "0 < unat (2 :: u64) \<and> 0 < unat (3 :: u64)
   \<and> unat (3 :: u64) * unat (2 :: u64) \<le> length (arena example_machine)
   \<and> length (arena example_machine) < 2 ^ 61
   \<and> create_forward_chain 2 3 example_machine =
       Inr (example_machine\<lparr>arena := [4112, 0, 4128, 0, 4096, 0, 0, 0]\<rparr>)
   \<and> chase_path 3 4112 (example_machine\<lparr>arena := [4112, 0, 4128, 0, 4096, 0, 0, 0]\<rparr>) =
       Inr [4112, 4128, 4096]
   \<and> (\<exists>st' ps. create_forward_chain 2 3 example_machine = Inr st' \<and>
         chase_path (unat (3 :: u64)) (anchor_addr st' 2 1) st' = Inr ps \<and>
         distinct ps \<and> set ps = anchor_addr st' 2 ` {..<unat (3 :: u64)})"
proof -
  have h1: "0 < unat (2 :: u64)" and h2: "0 < unat (3 :: u64)"
    by simp_all
  have h3: "unat (3 :: u64) * unat (2 :: u64) \<le> length (arena example_machine)"
    by (simp add: example_machine_def)
  have h4: "length (arena example_machine) < 2 ^ 61"
    by (simp add: example_machine_def)
  have run: "create_forward_chain 2 3 example_machine =
       Inr (example_machine\<lparr>arena := [4112, 0, 4128, 0, 4096, 0, 0, 0]\<rparr>)"
    by (simp add: create_forward_chain_def forward_loop.simps write_slot_def slot_addr_def
        slot_bytes_def example_machine_def)
  have path: "chase_path 3 4112 (example_machine\<lparr>arena := [4112, 0, 4128, 0, 4096, 0, 0, 0]\<rparr>) =
       Inr [4112, 4128, 4096]"
    by (simp add: numeral_3_eq_3 deref_def slot_bytes_def example_machine_def)
  from forward_chain_cycle [OF h1 h2 h3 h4] obtain st' where
    r: "create_forward_chain 2 3 example_machine = Inr st'" and
    w: "\<forall>j < unat (3 :: u64).
          (\<exists>sm. chase (unat (3 :: u64)) (anchor_addr st' 2 j) 0 st' =
                      Inr (anchor_addr st' 2 j, sm)) \<and>
          (\<exists>ps. chase_path (unat (3 :: u64)) (anchor_addr st' 2 j) st' = Inr ps \<and>
                    distinct ps \<and> set ps = anchor_addr st' 2 ` {..<unat (3 :: u64)})"
    by blast
  have "(1 :: nat) < unat (3 :: u64)"
    by simp
  with w obtain ps where
    "chase_path (unat (3 :: u64)) (anchor_addr st' 2 1) st' = Inr ps \<and>
       distinct ps \<and> set ps = anchor_addr st' 2 ` {..<unat (3 :: u64)}"
    by blast
  with r have "\<exists>st' ps. create_forward_chain 2 3 example_machine = Inr st' \<and>
         chase_path (unat (3 :: u64)) (anchor_addr st' 2 1) st' = Inr ps \<and>
         distinct ps \<and> set ps = anchor_addr st' 2 ` {..<unat (3 :: u64)}"
    by blast
  with h1 h2 h3 h4 run path show ?thesis
    by (intro conjI)
qed

subsection \<open>The shuffle\<close>

lemma unat_ucast_down: "unat (ucast (w :: u64) :: u32) = unat w mod 2 ^ 32"
  by (simp add: unsigned_ucast_eq take_bit_eq_mod)

lemma unat_ucast_up: "unat (ucast (i :: u32) :: u64) = unat i"
proof -
  have "unat i < 2 ^ 32"
    using unsigned_less [of i, where 'a = nat] by simp
  then have "unat i < 2 ^ 64"
    by (rule less_trans) simp
  then show ?thesis
    by (simp add: unsigned_ucast_eq take_bit_nat_eq_self)
qed

lemma unat_succ_u32:
  fixes i :: u32
  assumes "i + 1 \<noteq> 0"
  shows "unat (i + 1) = Suc (unat i)"
  using unatSuc [of i] assms by (simp add: add.commute)

lemma succ_u32_nonzero:
  fixes i :: u32
  assumes "Suc (unat i) < 2 ^ 32"
  shows "i + 1 \<noteq> 0"
proof
  assume "i + 1 = 0"
  then have "i = - 1"
    by (simp add: eq_neg_iff_add_eq_0)
  then have "unat i = 2 ^ 32 - 1"
    by (simp add: unsigned_minus_1_eq_mask mask_eq_exp_minus_1)
  with assms show False
    by simp
qed

lemma pick_index_unat:
  assumes "i + 1 \<noteq> 0"
  shows "unat (pick_index r i) = unat r mod Suc (unat i)"
  by (simp add: pick_index_def unat_mod unat_ucast_up unat_succ_u32 [OF assms])

lemma pick_index_le:
  assumes "i + 1 \<noteq> 0"
  shows "unat (pick_index r i) \<le> unat i"
proof -
  have "unat r mod Suc (unat i) < Suc (unat i)"
    by (rule mod_less_divisor) simp
  then show ?thesis
    by (simp add: pick_index_unat [OF assms])
qed

text \<open>One swap of two anchors.\<close>

lemma anchors_update:
  assumes "0 < unat stride" and "j < unat spots"
    and "unat spots * unat stride \<le> length (arena st)"
  shows "anchors stride spots (st\<lparr>arena := (arena st)[j * unat stride := v]\<rparr>) =
           (anchors stride spots st)[j := v]"
proof (rule nth_equalityI)
  show "length (anchors stride spots (st\<lparr>arena := (arena st)[j * unat stride := v]\<rparr>)) =
      length ((anchors stride spots st)[j := v])"
    by (simp add: anchors_def)
next
  fix t
  assume "t < length (anchors stride spots (st\<lparr>arena := (arena st)[j * unat stride := v]\<rparr>))"
  then have t: "t < unat spots"
    by (simp add: anchors_def)
  have "j * unat stride + unat stride \<le> unat spots * unat stride"
    using assms(2) mult_le_mono1 [of "Suc j" "unat spots" "unat stride"] by simp
  then have jL: "j * unat stride < length (arena st)"
    using assms(1,3) by linarith
  show "anchors stride spots (st\<lparr>arena := (arena st)[j * unat stride := v]\<rparr>) ! t =
      (anchors stride spots st)[j := v] ! t"
  proof (cases "t = j")
    case True
    then show ?thesis
      using t jL by (simp add: anchors_def)
  next
    case False
    then have "t * unat stride \<noteq> j * unat stride"
      using assms(1) by simp
    then show ?thesis
      using t False by (simp add: anchors_def)
  qed
qed

lemma swap_slots_result:
  assumes "swap_slots p q st = Inr st'"
  shows "unat p < length (arena st) \<and> unat q < length (arena st) \<and>
         st' = st\<lparr>arena := (arena st)[unat p := arena st ! unat q, unat q := arena st ! unat p]\<rparr>"
  using assms
  by (auto simp: swap_slots_def read_slot_def write_slot_def split: if_splits)

lemma swap_slots_total:
  assumes "unat p < length (arena st)" and "unat q < length (arena st)"
  shows "\<exists>st'. swap_slots p q st = Inr st'"
  using assms by (simp add: swap_slots_def read_slot_def write_slot_def)

lemma swap_anchors:
  assumes sw: "swap_slots p q st = Inr st'"
    and p: "unat p = a * unat stride" and q: "unat q = b * unat stride"
    and a: "a < unat spots" and b: "b < unat spots"
    and bound: "unat spots * unat stride \<le> length (arena st)"
  shows "mset (anchors stride spots st') = mset (anchors stride spots st)"
    and "length (arena st') = length (arena st)"
    and "a_begin st' = a_begin st" and "rng_seed st' = rng_seed st"
    and "clock st' = clock st" and "ticks st' = ticks st"
    and "\<forall>k < length (arena st). (\<forall>j < unat spots. k \<noteq> j * unat stride) \<longrightarrow>
           arena st' ! k = arena st ! k"
proof -
  let ?s = "unat stride" and ?xs = "arena st"
  from swap_slots_result [OF sw] have
    pL: "a * ?s < length ?xs" and qL: "b * ?s < length ?xs" and
    st': "st' = st\<lparr>arena := ?xs[a * ?s := ?xs ! (b * ?s), b * ?s := ?xs ! (a * ?s)]\<rparr>"
    by (simp_all add: p q)
  show "length (arena st') = length (arena st)" "a_begin st' = a_begin st"
    "rng_seed st' = rng_seed st" "clock st' = clock st" "ticks st' = ticks st"
    by (simp_all add: st')
  show "\<forall>k < length (arena st). (\<forall>j < unat spots. k \<noteq> j * unat stride) \<longrightarrow>
           arena st' ! k = arena st ! k"
  proof (intro allI impI)
    fix k
    assume "k < length (arena st)" and na: "\<forall>j < unat spots. k \<noteq> j * unat stride"
    from na a b have "k \<noteq> a * ?s" and "k \<noteq> b * ?s"
      by blast+
    then show "arena st' ! k = arena st ! k"
      by (simp add: st')
  qed
  show "mset (anchors stride spots st') = mset (anchors stride spots st)"
  proof (cases "?s = 0")
    case True
    then have "st' = st"
      using pL by (simp add: st')
    then show ?thesis
      by simp
  next
    case False
    then have s: "0 < ?s"
      by simp
    define st1 where "st1 = st\<lparr>arena := ?xs[a * ?s := ?xs ! (b * ?s)]\<rparr>"
    have st'1: "st' = st1\<lparr>arena := (arena st1)[b * ?s := ?xs ! (a * ?s)]\<rparr>"
      by (simp add: st' st1_def)
    have an1: "anchors stride spots st1 = (anchors stride spots st)[a := ?xs ! (b * ?s)]"
      unfolding st1_def using s a bound by (rule anchors_update)
    have "anchors stride spots st' = (anchors stride spots st1)[b := ?xs ! (a * ?s)]"
      unfolding st'1 using s b by (rule anchors_update) (simp add: st1_def bound)
    moreover have "anchors stride spots st ! b = ?xs ! (b * ?s)"
      and "anchors stride spots st ! a = ?xs ! (a * ?s)"
      using a b by (simp_all add: anchors_def)
    ultimately have "anchors stride spots st' =
        (anchors stride spots st)[a := anchors stride spots st ! b, b := anchors stride spots st ! a]"
      by (simp only: an1)
    moreover have "b < length (anchors stride spots st)" "a < length (anchors stride spots st)"
      using a b by (simp_all add: anchors_def)
    ultimately show ?thesis
      by (simp add: mset_swap)
  qed
qed


lemma rng_frame:
  assumes "rng st = (r, st1)"
  shows "arena st1 = arena st" and "a_begin st1 = a_begin st"
    and "clock st1 = clock st" and "ticks st1 = ticks st"
    and "anchors stride spots st1 = anchors stride spots st"
  using assms by (auto simp: rng_def Let_def anchors_def)

lemma shuffle_indices:
  fixes i :: u32 and stride spots :: u64
  assumes "unat i < unat spots" and "unat spots * unat stride < 2 ^ 64" and "i + 1 \<noteq> 0"
  shows "unat (ucast i * stride) = unat i * unat stride"
    and "unat (pick_index r i * stride) = unat (pick_index r i) * unat stride"
    and "unat (pick_index r i) < unat spots"
proof -
  have le: "unat i * unat stride \<le> unat spots * unat stride"
    using assms(1) by (intro mult_le_mono1) simp
  have "unat (ucast i :: u64) * unat stride = unat i * unat stride"
    by (simp add: unat_ucast_up)
  with le assms(2) have "unat (ucast i :: u64) * unat stride < 2 ^ 64"
    by linarith
  then show "unat (ucast i * stride) = unat i * unat stride"
    using unat_mult_small [of "ucast i" stride] by (simp add: unat_ucast_up)
  have c: "unat (pick_index r i) \<le> unat i"
    using assms(3) by (rule pick_index_le)
  then have "unat (pick_index r i) * unat stride \<le> unat i * unat stride"
    by (rule mult_le_mono1)
  with le assms(2) have "unat (pick_index r i) * unat stride < 2 ^ 64"
    by linarith
  then show "unat (pick_index r i * stride) = unat (pick_index r i) * unat stride"
    by (rule unat_mult_small)
  show "unat (pick_index r i) < unat spots"
    using c assms(1) by simp
qed

lemma shuffle_loop_step:
  assumes "shuffle_loop stride i st = Inr st'" and "i \<noteq> 0"
  obtains r st1 st2 where "rng st = (r, st1)" and "i + 1 \<noteq> 0"
    and "swap_slots (ucast i * stride) (pick_index r i * stride) st1 = Inr st2"
    and "shuffle_loop stride (i - 1) st2 = Inr st'"
proof -
  obtain r st1 where r: "rng st = (r, st1)"
    by (cases "rng st")
  have pos: "0 < i"
    using assms(2) by (simp add: word_greater_zero_iff)
  have run: "(if i + 1 = 0 then Inl DivByZero
       else bind_err (swap_slots (ucast i * stride) (pick_index r i * stride) st1)
              (shuffle_loop stride (i - 1))) = Inr st'"
    using assms(1) pos r by (subst (asm) shuffle_loop.simps) simp
  then have nz: "i + 1 \<noteq> 0"
    by (auto split: if_splits)
  with run obtain st2 where
    "swap_slots (ucast i * stride) (pick_index r i * stride) st1 = Inr st2"
    "shuffle_loop stride (i - 1) st2 = Inr st'"
    by (cases "swap_slots (ucast i * stride) (pick_index r i * stride) st1") simp_all
  with r nz show thesis
    by (rule that)
qed

lemma shuffle_loop_preserves:
  fixes stride spots :: u64
  assumes "shuffle_loop stride i st = Inr st'"
    and "unat i < unat spots"
    and "unat spots * unat stride \<le> length (arena st)"
    and "length (arena st) < 2 ^ 64"
  shows "mset (anchors stride spots st') = mset (anchors stride spots st) \<and>
         length (arena st') = length (arena st) \<and> a_begin st' = a_begin st \<and>
         clock st' = clock st \<and> ticks st' = ticks st \<and>
         (\<forall>k < length (arena st). (\<forall>j < unat spots. k \<noteq> j * unat stride) \<longrightarrow>
            arena st' ! k = arena st ! k)"
  using assms
proof (induction "unat i" arbitrary: i st)
  case 0
  then have "i = 0"
    by (simp add: unat_eq_0)
  with "0.prems"(1) have "st' = st"
    by (subst (asm) shuffle_loop.simps) simp
  then show ?case
    by simp
next
  case (Suc k)
  then have i0: "i \<noteq> 0"
    by auto
  from shuffle_loop_step [OF Suc.prems(1) i0] obtain r st1 st2 where
    r: "rng st = (r, st1)" and nz: "i + 1 \<noteq> 0" and
    sw: "swap_slots (ucast i * stride) (pick_index r i * stride) st1 = Inr st2" and
    rest: "shuffle_loop stride (i - 1) st2 = Inr st'"
    by blast
  note f1 = rng_frame [OF r]
  have b64: "unat spots * unat stride < 2 ^ 64"
    using Suc.prems(3,4) by (rule le_less_trans)
  note ix = shuffle_indices [OF Suc.prems(2) b64 nz]
  have bound1: "unat spots * unat stride \<le> length (arena st1)"
    using Suc.prems(3) by (simp add: f1)
  note f2 = swap_anchors [OF sw ix(1) ix(2) Suc.prems(2) ix(3) bound1]
  have k: "k = unat (i - 1)"
    using Suc.hyps(2) i0 by (simp add: unat_minus_one)
  have "unat (i - 1) < unat spots"
    using Suc.prems(2) i0 by (simp add: unat_minus_one)
  moreover have "unat spots * unat stride \<le> length (arena st2)"
    using bound1 by (simp add: f2)
  moreover have "length (arena st2) < 2 ^ 64"
    using Suc.prems(4) by (simp add: f1 f2)
  ultimately have ih:
    "mset (anchors stride spots st') = mset (anchors stride spots st2) \<and>
         length (arena st') = length (arena st2) \<and> a_begin st' = a_begin st2 \<and>
         clock st' = clock st2 \<and> ticks st' = ticks st2 \<and>
         (\<forall>k < length (arena st2). (\<forall>j < unat spots. k \<noteq> j * unat stride) \<longrightarrow>
            arena st' ! k = arena st2 ! k)"
    using Suc.hyps(1) [OF k rest] by blast
  have len2: "length (arena st2) = length (arena st)"
    by (simp add: f1 f2)
  show ?case
    using ih f2(1,3,5,6,7) by (simp add: f1 len2)
qed

lemma shuffle_loop_total:
  fixes stride spots :: u64
  assumes "0 < unat stride"
    and "unat i < unat spots"
    and "unat spots < 2 ^ 32"
    and "unat spots * unat stride \<le> length (arena st)"
    and "length (arena st) < 2 ^ 64"
  shows "\<exists>st'. shuffle_loop stride i st = Inr st'"
  using assms(2,4,5)
proof (induction "unat i" arbitrary: i st)
  case 0
  then have "i = 0"
    by (simp add: unat_eq_0)
  then show ?case
    by (subst shuffle_loop.simps) simp
next
  case (Suc k)
  then have i0: "i \<noteq> 0"
    by auto
  then have pos: "0 < i"
    by (simp add: word_greater_zero_iff)
  have "Suc (unat i) < 2 ^ 32"
    using Suc.prems(1) assms(3) by simp
  then have nz: "i + 1 \<noteq> 0"
    by (rule succ_u32_nonzero)
  obtain r st1 where r: "rng st = (r, st1)"
    by (cases "rng st")
  note f1 = rng_frame [OF r]
  have b64: "unat spots * unat stride < 2 ^ 64"
    using Suc.prems(2,3) by (rule le_less_trans)
  note ix = shuffle_indices [OF Suc.prems(1) b64 nz]
  have inb: "j * unat stride < length (arena st1)" if "j < unat spots" for j
  proof -
    have "j * unat stride + unat stride \<le> unat spots * unat stride"
      using that mult_le_mono1 [of "Suc j" "unat spots" "unat stride"] by simp
    then show ?thesis
      using assms(1) Suc.prems(2) by (simp add: f1)
  qed
  have "\<exists>st2. swap_slots (ucast i * stride) (pick_index r i * stride) st1 = Inr st2"
    by (rule swap_slots_total) (simp_all add: ix inb Suc.prems(1))
  then obtain st2 where
    sw: "swap_slots (ucast i * stride) (pick_index r i * stride) st1 = Inr st2"
    by blast
  have len2: "length (arena st2) = length (arena st)"
    using swap_slots_result [OF sw] by (simp add: f1)
  have k: "k = unat (i - 1)"
    using Suc.hyps(2) i0 by (simp add: unat_minus_one)
  have "unat (i - 1) < unat spots"
    using Suc.prems(1) i0 by (simp add: unat_minus_one)
  moreover have "unat spots * unat stride \<le> length (arena st2)"
    and "length (arena st2) < 2 ^ 64"
    using Suc.prems(2,3) by (simp_all only: len2)
  ultimately have "\<exists>st'. shuffle_loop stride (i - 1) st2 = Inr st'"
    by (rule Suc.hyps(1) [OF k])
  then obtain st' where "shuffle_loop stride (i - 1) st2 = Inr st'"
    by blast
  then show ?case
    using pos r nz sw by (subst shuffle_loop.simps) simp
qed


lemma shuffle_start:
  fixes spots :: u64
  assumes "0 < unat spots"
  shows "unat (ucast (spots - 1) :: u32) < unat spots"
proof -
  have "spots \<noteq> 0"
    using assms by (simp add: unat_gt_0)
  then have "unat (spots - 1) = unat spots - 1"
    by (rule unat_minus_one)
  moreover have "unat (spots - 1) mod 2 ^ 32 \<le> unat (spots - 1)"
    by (rule mod_less_eq_dividend)
  ultimately show ?thesis
    using assms by (simp add: unat_ucast_down)
qed

lemma ucast_max: "(ucast (- 1 :: u64) :: u32) = - 1"
  by (simp add: word_unat_eq_iff unat_ucast_down unsigned_minus_1_eq_mask mask_eq_exp_minus_1)

lemma shuffle_zero_spots: "shuffle stride 0 st = Inl DivByZero"
  by (simp add: shuffle_def shuffle_loop.simps [of _ "- 1"] ucast_max Let_def rng_def
      word_greater_zero_iff)

text \<open>
  C7. \<open>shuffle\<close> runs its counter from the last anchor index down to 1 and swaps
  anchor \<open>i\<close> with the anchor at \<open>rng() % (i + 1)\<close>, an index that is at most
  \<open>i\<close>. For every stride and spots whose anchors lie in the arena, whenever
  \<open>shuffle\<close> returns, the multiset of the values in the \<open>spots\<close> anchor slots is
  the one held before, and every other slot of the arena is unchanged; and it does
  return for every stride of at least 1 and every spots from 1 to \<open>2 ^ 32 - 1\<close>.
  (For \<open>spots = 0\<close> the source takes a remainder by zero: lemma
  \<open>shuffle_zero_spots\<close>.)
\<close>

theorem shuffle_permutes_anchors:
  assumes "unat spots * unat stride \<le> length (arena st)"
    and "length (arena st) < 2 ^ 61"
  shows "(\<forall>st'. shuffle stride spots st = Inr st' \<longrightarrow>
            mset (anchors stride spots st') = mset (anchors stride spots st) \<and>
            length (arena st') = length (arena st) \<and> a_begin st' = a_begin st \<and>
            (\<forall>k < length (arena st). (\<forall>j < unat spots. k \<noteq> j * unat stride) \<longrightarrow>
               arena st' ! k = arena st ! k))
       \<and> (0 < unat stride \<and> 0 < unat spots \<and> unat spots < 2 ^ 32 \<longrightarrow>
            (\<exists>st'. shuffle stride spots st = Inr st'))
       \<and> (\<forall>r i. i + 1 \<noteq> 0 \<longrightarrow> unat (pick_index r i) \<le> unat i)"
proof (intro conjI allI impI)
  have L64: "length (arena st) < 2 ^ 64"
    using assms(2) by (rule less_trans) simp
  {
    fix st'
    assume run: "shuffle stride spots st = Inr st'"
    have "spots \<noteq> 0"
      using run by (auto simp: shuffle_zero_spots)
    then have "0 < unat spots"
      by (simp add: unat_gt_0)
    then have "unat (ucast (spots - 1) :: u32) < unat spots"
      by (rule shuffle_start)
    from shuffle_loop_preserves [OF run [unfolded shuffle_def] this assms(1) L64]
    show "mset (anchors stride spots st') = mset (anchors stride spots st)"
      and "length (arena st') = length (arena st)" and "a_begin st' = a_begin st"
      by simp_all
    fix k
    assume "k < length (arena st)" and "\<forall>j < unat spots. k \<noteq> j * unat stride"
    with shuffle_loop_preserves [OF run [unfolded shuffle_def]
        \<open>unat (ucast (spots - 1) :: u32) < unat spots\<close> assms(1) L64]
    show "arena st' ! k = arena st ! k"
      by simp
  }
  {
    assume "0 < unat stride \<and> 0 < unat spots \<and> unat spots < 2 ^ 32"
    then have s: "0 < unat stride" and n: "0 < unat spots" and n32: "unat spots < 2 ^ 32"
      by simp_all
    show "\<exists>st'. shuffle stride spots st = Inr st'"
      unfolding shuffle_def
      using s shuffle_start [OF n] n32 assms(1) L64 by (rule shuffle_loop_total)
  }
  fix r :: u64 and i :: u32
  assume "i + 1 \<noteq> 0"
  then show "unat (pick_index r i) \<le> unat i"
    by (rule pick_index_le)
qed

theorem shuffle_permutes_anchors_witness:
  "unat (3 :: u64) * unat (2 :: u64) \<le> length (arena example_chain)
   \<and> length (arena example_chain) < 2 ^ 61
   \<and> shuffle 2 3 example_chain =
       Inr (example_chain\<lparr>arena := [4128, 0, 4112, 0, 4096, 0, 0, 0],
                          rng_seed := 7130919190303094438\<rparr>)
   \<and> mset (anchors 2 3 (example_chain\<lparr>arena := [4128, 0, 4112, 0, 4096, 0, 0, 0],
                          rng_seed := 7130919190303094438\<rparr>)) =
       mset (anchors 2 3 example_chain)"
proof -
  have h1: "unat (3 :: u64) * unat (2 :: u64) \<le> length (arena example_chain)"
    and h2: "length (arena example_chain) < 2 ^ 61"
    by (simp_all add: example_chain_def example_machine_def)
  have run: "shuffle 2 3 example_chain =
       Inr (example_chain\<lparr>arena := [4128, 0, 4112, 0, 4096, 0, 0, 0],
                          rng_seed := 7130919190303094438\<rparr>)"
    by (simp add: shuffle_def shuffle_loop.simps rng_def pick_index_def swap_slots_def
        read_slot_def write_slot_def example_chain_def example_machine_def)
  from shuffle_permutes_anchors [OF h1 h2] run
  have "mset (anchors 2 3 (example_chain\<lparr>arena := [4128, 0, 4112, 0, 4096, 0, 0, 0],
                          rng_seed := 7130919190303094438\<rparr>)) =
       mset (anchors 2 3 example_chain)"
    by blast
  with h1 h2 run show ?thesis
    by (intro conjI)
qed

subsection \<open>Determinism of the trial patterns\<close>

lemma agree_on_subset: "agree_on S st1 st2 \<Longrightarrow> T \<subseteq> S \<Longrightarrow> agree_on T st1 st2"
  by (auto simp: agree_on_def)

lemma rel_bind_err:
  assumes "rel_sum (=) R m1 m2"
    and "\<And>x y. R x y \<Longrightarrow> rel_sum (=) R' (f x) (g y)"
  shows "rel_sum (=) R' (bind_err m1 f) (bind_err m2 g)"
  using assms by (cases m1; cases m2) simp_all

lemma agree_read:
  assumes "agree_on S st1 st2" and "unat i \<in> S"
  shows "read_slot st1 i = read_slot st2 i"
  using assms by (simp add: agree_on_def read_slot_def)

lemma agree_write:
  assumes "agree_on S st1 st2"
  shows "rel_sum (=) (agree_on (insert (unat i) S)) (write_slot i v st1) (write_slot i v st2)"
  using assms by (auto simp: agree_on_def write_slot_def nth_list_update)

lemma agree_slot_addr:
  "agree_on S st1 st2 \<Longrightarrow> slot_addr st1 i = slot_addr st2 i"
  by (simp add: agree_on_def slot_addr_def)

lemma agree_rng:
  assumes "agree_on S st1 st2" and "rng st1 = (r1, t1)" and "rng st2 = (r2, t2)"
  shows "r1 = r2 \<and> agree_on S t1 t2"
  using assms by (auto simp: agree_on_def rng_def Let_def)

lemma agree_swap:
  assumes "agree_on S st1 st2" and "unat p \<in> S" and "unat q \<in> S"
  shows "rel_sum (=) (agree_on S) (swap_slots p q st1) (swap_slots p q st2)"
proof -
  have ins: "insert (unat q) (insert (unat p) S) = S"
    using assms(2,3) by auto
  have rp: "read_slot st1 p = read_slot st2 p" and rq: "read_slot st1 q = read_slot st2 q"
    using assms by (simp_all add: agree_read)
  show ?thesis
  proof (cases "read_slot st2 p")
    case (Inl e)
    then show ?thesis
      by (simp add: swap_slots_def rp)
  next
    case x: (Inr x)
    show ?thesis
    proof (cases "read_slot st2 q")
      case (Inl e)
      then show ?thesis
        by (simp add: swap_slots_def rp rq x)
    next
      case y: (Inr y)
      have "rel_sum (=) (agree_on (insert (unat q) (insert (unat p) S)))
          (bind_err (write_slot p y st1) (write_slot q x))
          (bind_err (write_slot p y st2) (write_slot q x))"
        by (rule rel_bind_err [OF agree_write [OF assms(1)]]) (rule agree_write)
      then show ?thesis
        by (simp add: swap_slots_def rp rq x y ins)
    qed
  qed
qed


lemma anchor_slotsI:
  "j < unat spots \<Longrightarrow> j * unat stride \<in> anchor_slots stride spots"
  by (auto simp: anchor_slots_def)

lemma shuffle_loop_agree:
  fixes stride spots :: u64
  assumes "agree_on S st1 st2"
    and "anchor_slots stride spots \<subseteq> S"
    and "unat i < unat spots"
    and "unat spots * unat stride < 2 ^ 64"
  shows "rel_sum (=) (agree_on S) (shuffle_loop stride i st1) (shuffle_loop stride i st2)"
  using assms(1,3)
proof (induction "unat i" arbitrary: i st1 st2)
  case 0
  then have "i = 0"
    by (simp add: unat_eq_0)
  then show ?case
    using "0.prems"(1) by (simp add: shuffle_loop.simps)
next
  case (Suc k)
  then have i0: "i \<noteq> 0"
    by auto
  then have pos: "0 < i"
    by (simp add: word_greater_zero_iff)
  obtain r1 t1 where r1: "rng st1 = (r1, t1)"
    by (cases "rng st1")
  obtain r2 t2 where r2: "rng st2 = (r2, t2)"
    by (cases "rng st2")
  from agree_rng [OF Suc.prems(1) r1 r2] have r: "r1 = r2" and ag: "agree_on S t1 t2"
    by simp_all
  show ?case
  proof (cases "i + 1 = 0")
    case True
    then show ?thesis
      using pos r1 r2 by (simp add: shuffle_loop.simps [of stride i])
  next
    case False
    note ix = shuffle_indices [OF Suc.prems(2) assms(4) False]
    have p: "unat (ucast i * stride) \<in> S"
      using assms(2) anchor_slotsI [OF Suc.prems(2), of stride] by (auto simp: ix(1))
    have q: "unat (pick_index r2 i * stride) \<in> S"
      using assms(2) anchor_slotsI [OF ix(3), of r2 stride] by (auto simp: ix(2))
    have k: "k = unat (i - 1)"
      using Suc.hyps(2) i0 by (simp add: unat_minus_one)
    have lt: "unat (i - 1) < unat spots"
      using Suc.prems(2) i0 by (simp add: unat_minus_one)
    have "rel_sum (=) (agree_on S)
        (bind_err (swap_slots (ucast i * stride) (pick_index r2 i * stride) t1)
           (shuffle_loop stride (i - 1)))
        (bind_err (swap_slots (ucast i * stride) (pick_index r2 i * stride) t2)
           (shuffle_loop stride (i - 1)))"
      by (rule rel_bind_err [OF agree_swap [OF ag p q]]) (rule Suc.hyps(1) [OF k _ lt])
    then show ?thesis
      using pos r1 r2 r False by (simp add: shuffle_loop.simps [of stride i])
  qed
qed

lemma unat_succ_u64:
  fixes i n :: u64
  assumes "i < n"
  shows "unat (i + 1) = Suc (unat i)"
proof -
  have "unat i < unat n"
    using assms by (simp add: word_less_nat_alt)
  moreover have "unat n < 2 ^ 64"
    using unsigned_less [of n, where 'a = nat] by simp
  ultimately have "unat i + unat (1 :: u64) < 2 ^ 64"
    by simp
  then show ?thesis
    using unat_add_small [of i 1] by simp
qed

lemma half_index:
  fixes i stride spots :: u64
  assumes "unat i < unat spots" and "unat spots * unat stride < 2 ^ 64"
  shows "unat (i * stride) = unat i * unat stride"
    and "unat (i * stride + stride div 2) = unat i * unat stride + unat stride div 2"
    and "unat i * unat stride + unat stride div 2 \<le> unat spots * unat stride"
proof -
  have le: "unat i * unat stride + unat stride \<le> unat spots * unat stride"
    using assms(1) mult_le_mono1 [of "Suc (unat i)" "unat spots" "unat stride"] by simp
  then have "unat i * unat stride < 2 ^ 64"
    using assms(2) by linarith
  then show a: "unat (i * stride) = unat i * unat stride"
    by (rule unat_mult_small)
  have d: "unat (stride div 2) = unat stride div 2"
    by (simp add: unat_div)
  have dl: "unat stride div 2 \<le> unat stride"
    by simp
  show c: "unat i * unat stride + unat stride div 2 \<le> unat spots * unat stride"
    using le dl by linarith
  then have "unat (i * stride) + unat (stride div 2) < 2 ^ 64"
    using assms(2) by (simp add: a d)
  then show "unat (i * stride + stride div 2) = unat i * unat stride + unat stride div 2"
    using unat_add_small [of "i * stride" "stride div 2"] by (simp add: a d)
qed

lemma half_loop_agree:
  fixes stride spots :: u64
  assumes "anchor_slots stride spots \<subseteq> S"
    and "unat spots * unat stride < 2 ^ 64"
    and "agree_on S st1 st2"
  shows "rel_sum (=)
           (agree_on (S \<union> (\<lambda>j. j * unat stride + unat stride div 2) ` {unat i..<unat spots}))
           (half_loop stride spots i st1) (half_loop stride spots i st2)"
  using assms(1,3)
proof (induction "unat spots - unat i" arbitrary: i st1 st2 S)
  case 0
  then have "\<not> i < spots"
    by (simp add: word_less_nat_alt)
  moreover from 0 have "{unat i..<unat spots} = {}"
    by simp
  ultimately show ?case
    using "0.prems"(2) by (simp add: half_loop.simps [of stride spots i])
next
  case (Suc d)
  then have lt: "unat i < unat spots"
    by simp
  then have il: "i < spots"
    by (simp add: word_less_nat_alt)
  note ix = half_index [OF lt assms(2)]
  note i1 = unat_succ_u64 [OF il]
  let ?w = "unat i * unat stride + unat stride div 2"
  have rd: "read_slot st1 (i * stride) = read_slot st2 (i * stride)"
    using Suc.prems(2)
  proof (rule agree_read)
    show "unat (i * stride) \<in> S"
      using Suc.prems(1) anchor_slotsI [OF lt, of stride] by (auto simp: ix(1))
  qed
  have sets: "insert ?w S \<union> (\<lambda>j. j * unat stride + unat stride div 2) ` {unat (i + 1)..<unat spots}
      = S \<union> (\<lambda>j. j * unat stride + unat stride div 2) ` {unat i..<unat spots}"
  proof -
    have "{unat i..<unat spots} = insert (unat i) {Suc (unat i)..<unat spots}"
      using lt by auto
    then show ?thesis
      by (simp add: i1)
  qed
  have step: "rel_sum (=)
           (agree_on (S \<union> (\<lambda>j. j * unat stride + unat stride div 2) ` {unat i..<unat spots}))
           (bind_err (write_slot (i * stride + stride div 2) v st1) (half_loop stride spots (i + 1)))
           (bind_err (write_slot (i * stride + stride div 2) v st2) (half_loop stride spots (i + 1)))"
    for v
  proof (rule rel_bind_err [OF agree_write [OF Suc.prems(2)]])
    fix x y
    assume xy: "agree_on (insert (unat (i * stride + stride div 2)) S) x y"
    have d: "d = unat spots - unat (i + 1)"
      using Suc.hyps(2) by (simp add: i1)
    have sub: "anchor_slots stride spots \<subseteq> insert ?w S"
      using Suc.prems(1) by auto
    have xy': "agree_on (insert ?w S) x y"
      using xy by (simp only: ix(2))
    have "rel_sum (=)
           (agree_on (insert ?w S \<union>
              (\<lambda>j. j * unat stride + unat stride div 2) ` {unat (i + 1)..<unat spots}))
           (half_loop stride spots (i + 1) x) (half_loop stride spots (i + 1) y)"
      using d sub xy' by (rule Suc.hyps(1))
    then show "rel_sum (=)
           (agree_on (S \<union> (\<lambda>j. j * unat stride + unat stride div 2) ` {unat i..<unat spots}))
           (half_loop stride spots (i + 1) x) (half_loop stride spots (i + 1) y)"
      by (simp only: sets)
  qed
  show ?case
  proof (cases "read_slot st2 (i * stride)")
    case (Inl e)
    then show ?thesis
      using il by (simp add: half_loop.simps [of stride spots i] rd)
  next
    case (Inr v)
    then show ?thesis
      using il step [of "v + stride div 2 * slot_bytes"]
      by (simp add: half_loop.simps [of stride spots i] rd)
  qed
qed


lemma write_slot_total:
  assumes "unat i < length (arena st)"
  shows "\<exists>t. write_slot i v st = Inr t \<and> length (arena t) = length (arena st)"
  using assms by (simp add: write_slot_def)

lemma read_slot_total:
  assumes "unat i < length (arena st)"
  shows "\<exists>v. read_slot st i = Inr v"
  using assms by (simp add: read_slot_def)

lemma half_index_in_range:
  fixes i stride spots :: u64
  assumes "unat i < unat spots" and "unat spots * unat stride \<le> L" and "L < 2 ^ 64"
    and "0 < unat stride"
  shows "unat (i * stride) < L" and "unat (i * stride + stride div 2) < L"
proof -
  have b: "unat spots * unat stride < 2 ^ 64"
    using assms(2,3) by (rule le_less_trans)
  note ix = half_index [OF assms(1) b]
  have le: "unat i * unat stride + unat stride \<le> unat spots * unat stride"
    using assms(1) mult_le_mono1 [of "Suc (unat i)" "unat spots" "unat stride"] by simp
  have "unat stride div 2 < unat stride"
    using assms(4) by simp
  with le assms(2) show "unat (i * stride + stride div 2) < L"
    unfolding ix(2) by linarith
  from le assms(2,4) show "unat (i * stride) < L"
    unfolding ix(1) by linarith
qed

lemma half_loop_total:
  fixes stride spots :: u64
  assumes "0 < unat stride"
    and "unat spots * unat stride \<le> length (arena st)"
    and "length (arena st) < 2 ^ 64"
  shows "\<exists>t. half_loop stride spots i st = Inr t \<and> length (arena t) = length (arena st)"
  using assms(2,3)
proof (induction "unat spots - unat i" arbitrary: i st)
  case 0
  then have "\<not> i < spots"
    by (simp add: word_less_nat_alt)
  then show ?case
    by (simp add: half_loop.simps [of stride spots i])
next
  case (Suc d)
  then have lt: "unat i < unat spots"
    by simp
  then have il: "i < spots"
    by (simp add: word_less_nat_alt)
  note rg = half_index_in_range [OF lt Suc.prems(1,2) assms(1)]
  obtain v where v: "read_slot st (i * stride) = Inr v"
    using read_slot_total [OF rg(1)] by blast
  obtain t1 where t1: "write_slot (i * stride + stride div 2) (v + stride div 2 * slot_bytes) st = Inr t1"
    and len1: "length (arena t1) = length (arena st)"
    using write_slot_total [OF rg(2)] by blast
  have d: "d = unat spots - unat (i + 1)"
    using Suc.hyps(2) by (simp add: unat_succ_u64 [OF il])
  have "\<exists>t. half_loop stride spots (i + 1) t1 = Inr t \<and> length (arena t) = length (arena t1)"
    using d Suc.prems by (intro Suc.hyps(1)) (simp_all only: len1)
  then show ?case
    using il v t1 len1 by (simp add: half_loop.simps [of stride spots i])
qed

lemma behind_index_less:
  assumes "spots \<noteq> 0"
  shows "unat (behind_index spots i) < unat spots"
proof -
  have "0 < unat spots"
    using assms by (simp add: unat_gt_0)
  then show ?thesis
    by (simp add: behind_index_def unat_mod)
qed

lemma lookbehind_step_total:
  fixes stride spots :: u64
  assumes "0 < unat stride"
    and "unat spots * unat stride \<le> length (arena st)"
    and "length (arena st) < 2 ^ 64"
    and "unat i < unat spots"
  shows "\<exists>t. lookbehind_step stride spots i st = Inr t \<and> length (arena t) = length (arena st)"
proof -
  have nz: "spots \<noteq> 0"
    using assms(4) by auto
  have ui: "unat (ucast i :: u64) < unat spots"
    using assms(4) by (simp add: unat_ucast_up)
  note ri = half_index_in_range [OF ui assms(2,3,1)]
  note rb = half_index_in_range [OF behind_index_less [OF nz] assms(2,3,1)]
  obtain v where v: "read_slot st (ucast i * stride) = Inr v"
    using read_slot_total [OF ri(1)] by blast
  obtain t1 where t1: "write_slot (behind_index spots i * stride + stride div 2) v st = Inr t1"
    and len1: "length (arena t1) = length (arena st)"
    using write_slot_total [OF rb(2)] by blast
  have "unat (ucast i * stride) < length (arena t1)"
    using ri(1) by (simp add: len1)
  from write_slot_total [OF this] obtain t where
    "write_slot (ucast i * stride)
       (slot_addr t1 (behind_index spots i * stride + stride div 2)) t1 = Inr t"
    and "length (arena t) = length (arena t1)"
    by blast
  then show ?thesis
    using v t1 len1 by (simp add: lookbehind_step_def Let_def)
qed

lemma lookbehind_step_agree:
  fixes stride spots :: u64
  assumes "agree_on S st1 st2"
    and "anchor_slots stride spots \<subseteq> S"
    and "unat spots * unat stride < 2 ^ 64"
    and "unat i < unat spots"
  shows "rel_sum (=)
           (agree_on (insert (unat (behind_index spots i) * unat stride + unat stride div 2) S))
           (lookbehind_step stride spots i st1) (lookbehind_step stride spots i st2)"
proof -
  have nz: "spots \<noteq> 0"
    using assms(4) by auto
  have ui: "unat (ucast i :: u64) < unat spots"
    using assms(4) by (simp add: unat_ucast_up)
  note xi = half_index [OF ui assms(3)]
  note xb = half_index [OF behind_index_less [OF nz] assms(3)]
  let ?b = "behind_index spots i * stride + stride div 2"
  let ?bn = "unat (behind_index spots i) * unat stride + unat stride div 2"
  have inS: "unat (ucast i * stride :: u64) \<in> S"
    using assms(2) anchor_slotsI [OF ui, of stride] by (auto simp: xi(1))
  have rd: "read_slot st1 (ucast i * stride) = read_slot st2 (ucast i * stride)"
    using assms(1) inS by (rule agree_read)
  have step: "rel_sum (=) (agree_on (insert ?bn S))
      (bind_err (write_slot ?b v st1) (\<lambda>t. write_slot (ucast i * stride) (slot_addr t ?b) t))
      (bind_err (write_slot ?b v st2) (\<lambda>t. write_slot (ucast i * stride) (slot_addr t ?b) t))"
    for v
  proof (rule rel_bind_err [OF agree_write [OF assms(1)]])
    fix x y
    assume xy: "agree_on (insert (unat ?b) S) x y"
    have ins: "insert (unat (ucast i * stride :: u64)) (insert (unat ?b) S) = insert ?bn S"
      using inS by (auto simp: xb(2))
    have "rel_sum (=) (agree_on (insert (unat (ucast i * stride :: u64)) (insert (unat ?b) S)))
        (write_slot (ucast i * stride) (slot_addr x ?b) x)
        (write_slot (ucast i * stride) (slot_addr x ?b) y)"
      using xy by (rule agree_write)
    then show "rel_sum (=) (agree_on (insert ?bn S))
        (write_slot (ucast i * stride) (slot_addr x ?b) x)
        (write_slot (ucast i * stride) (slot_addr y ?b) y)"
      by (simp only: ins agree_slot_addr [OF xy])
  qed
  show ?thesis
  proof (cases "read_slot st2 (ucast i * stride)")
    case (Inl e)
    then show ?thesis
      by (simp add: lookbehind_step_def Let_def rd)
  next
    case (Inr v)
    then show ?thesis
      using step [of v] by (simp add: lookbehind_step_def Let_def rd)
  qed
qed


lemma lookbehind_loop_total:
  fixes stride spots :: u64
  assumes "0 < unat stride" and "unat spots < 2 ^ 32"
    and "unat spots * unat stride \<le> length (arena st)"
    and "length (arena st) < 2 ^ 64"
  shows "\<exists>t. lookbehind_loop stride spots i st = Some (Inr t) \<and>
           length (arena t) = length (arena st)"
  using assms(3,4)
proof (induction "unat spots - unat i" arbitrary: i st)
  case 0
  then have "\<not> ucast i < spots"
    by (simp add: word_less_nat_alt unat_ucast_up)
  then show ?case
    by (simp add: lookbehind_loop.simps [of stride spots i])
next
  case (Suc d)
  then have lt: "unat i < unat spots"
    by simp
  then have il: "ucast i < spots"
    by (simp add: word_less_nat_alt unat_ucast_up)
  obtain t1 where t1: "lookbehind_step stride spots i st = Inr t1"
    and len1: "length (arena t1) = length (arena st)"
    using lookbehind_step_total [OF assms(1) Suc.prems lt] by blast
  have "Suc (unat i) < 2 ^ 32"
    using lt assms(2) by simp
  then have i1: "unat (i + 1) = Suc (unat i)"
    by (intro unat_succ_u32 succ_u32_nonzero)
  have d: "d = unat spots - unat (i + 1)"
    using Suc.hyps(2) by (simp add: i1)
  have "\<exists>t. lookbehind_loop stride spots (i + 1) t1 = Some (Inr t) \<and>
           length (arena t) = length (arena t1)"
    using d Suc.prems by (intro Suc.hyps(1)) (simp_all only: len1)
  then show ?case
    using il t1 len1 by (simp add: lookbehind_loop.simps [of stride spots i])
qed

lemma lookbehind_loop_agree:
  fixes stride spots :: u64
  assumes "unat spots * unat stride < 2 ^ 64" and "unat spots < 2 ^ 32"
    and "anchor_slots stride spots \<subseteq> S"
    and "agree_on S st1 st2"
    and "lookbehind_loop stride spots i st1 = Some (Inr t1)"
    and "lookbehind_loop stride spots i st2 = Some (Inr t2)"
  shows "agree_on
           (S \<union> (\<lambda>k. unat (behind_index spots (of_nat k)) * unat stride + unat stride div 2)
                  ` {unat i..<unat spots}) t1 t2"
  using assms(3-6)
proof (induction "unat spots - unat i" arbitrary: i st1 st2 S)
  case 0
  then have "\<not> ucast i < spots"
    by (simp add: word_less_nat_alt unat_ucast_up)
  then have "t1 = st1" and "t2 = st2"
    using "0.prems"(3,4) by (simp_all add: lookbehind_loop.simps [of stride spots i])
  moreover from 0 have "{unat i..<unat spots} = {}"
    by simp
  ultimately show ?case
    using "0.prems"(2) by simp
next
  case (Suc d)
  let ?f = "\<lambda>k. unat (behind_index spots (of_nat k)) * unat stride + unat stride div 2"
  from Suc have lt: "unat i < unat spots"
    by simp
  then have il: "ucast i < spots"
    by (simp add: word_less_nat_alt unat_ucast_up)
  have "Suc (unat i) < 2 ^ 32"
    using lt assms(2) by simp
  then have i1: "unat (i + 1) = Suc (unat i)"
    by (intro unat_succ_u32 succ_u32_nonzero)
  have d: "d = unat spots - unat (i + 1)"
    using Suc.hyps(2) by (simp add: i1)
  from Suc.prems(3) il obtain x where x: "lookbehind_step stride spots i st1 = Inr x"
    and rx: "lookbehind_loop stride spots (i + 1) x = Some (Inr t1)"
    by (cases "lookbehind_step stride spots i st1")
      (simp_all add: lookbehind_loop.simps [of stride spots i])
  from Suc.prems(4) il obtain y where y: "lookbehind_step stride spots i st2 = Inr y"
    and ry: "lookbehind_loop stride spots (i + 1) y = Some (Inr t2)"
    by (cases "lookbehind_step stride spots i st2")
      (simp_all add: lookbehind_loop.simps [of stride spots i])
  have fi: "?f (unat i) = unat (behind_index spots i) * unat stride + unat stride div 2"
    by simp
  have xy: "agree_on (insert (?f (unat i)) S) x y"
    using lookbehind_step_agree [OF Suc.prems(2,1) assms(1) lt] by (simp add: x y)
  have sub: "anchor_slots stride spots \<subseteq> insert (?f (unat i)) S"
    using Suc.prems(1) by auto
  have sets: "insert (?f (unat i)) S \<union> ?f ` {unat (i + 1)..<unat spots} =
      S \<union> ?f ` {unat i..<unat spots}"
  proof -
    have "{unat i..<unat spots} = insert (unat i) {Suc (unat i)..<unat spots}"
      using lt by auto
    then show ?thesis
      by (simp only: i1 image_insert Un_insert_left Un_insert_right)
  qed
  have "agree_on (insert (?f (unat i)) S \<union> ?f ` {unat (i + 1)..<unat spots}) t1 t2"
    using d sub xy rx ry by (rule Suc.hyps(1))
  then show ?case
    by (simp only: sets)
qed


lemma rng_values_seed:
  "rng_seed st1 = rng_seed st2 \<Longrightarrow> rng_values k st1 = rng_values k st2"
proof (induction k arbitrary: st1 st2)
  case 0
  show ?case by simp
next
  case (Suc k)
  have "rng_seed (snd (rng st1)) = rng_seed (snd (rng st2))" and "fst (rng st1) = fst (rng st2)"
    using Suc.prems by (simp_all add: rng_def Let_def)
  then show ?case
    using Suc.IH [of "snd (rng st1)" "snd (rng st2)"] by (simp add: case_prod_unfold Let_def)
qed

lemma chains_agree:
  fixes stride spots :: u64
  assumes "a_begin st1 = a_begin st2" and "length (arena st1) = length (arena st2)"
    and "rng_seed st1 = rng_seed st2"
    and "0 < unat stride" and "0 < unat spots"
    and "unat spots * unat stride \<le> length (arena st1)" and "length (arena st1) < 2 ^ 61"
  shows "\<exists>c1 c2. create_forward_chain stride spots st1 = Inr c1 \<and>
           create_forward_chain stride spots st2 = Inr c2 \<and>
           length (arena c1) = length (arena st1) \<and> length (arena c2) = length (arena st1) \<and>
           agree_on (anchor_slots stride spots) c1 c2"
proof -
  have b2: "unat spots * unat stride \<le> length (arena st2)" and l2: "length (arena st2) < 2 ^ 61"
    using assms(2,6,7) by simp_all
  obtain c1 where c1: "create_forward_chain stride spots st1 = Inr c1"
    and f1: "same_frame st1 c1"
    and a1: "\<forall>j < unat spots. arena c1 ! (j * unat stride) =
              slot_addr st1 (of_nat (((j + 1) mod unat spots) * unat stride))"
    using create_forward_chain_spec [OF assms(4,6,7,5)] by blast
  obtain c2 where c2: "create_forward_chain stride spots st2 = Inr c2"
    and f2: "same_frame st2 c2"
    and a2: "\<forall>j < unat spots. arena c2 ! (j * unat stride) =
              slot_addr st2 (of_nat (((j + 1) mod unat spots) * unat stride))"
    using create_forward_chain_spec [OF assms(4) b2 l2 assms(5)] by blast
  have sl: "slot_addr st1 x = slot_addr st2 x" for x
    using assms(1) by (simp add: slot_addr_def)
  have "agree_on (anchor_slots stride spots) c1 c2"
    using f1 f2 assms(1,2,3) a1 a2
    by (auto simp: agree_on_def same_frame_def anchor_slots_def sl)
  moreover have "length (arena c1) = length (arena st1)" "length (arena c2) = length (arena st1)"
    using f1 f2 assms(2) by (simp_all add: same_frame_def)
  ultimately show ?thesis
    using c1 c2 by blast
qed

lemma shuffled_pattern_agree:
  fixes stride spots :: u64
  assumes "a_begin st1 = a_begin st2" and "length (arena st1) = length (arena st2)"
    and "rng_seed st1 = rng_seed st2"
    and "0 < unat stride" and "0 < unat spots" and "unat spots < 2 ^ 32"
    and "unat spots * unat stride \<le> length (arena st1)" and "length (arena st1) < 2 ^ 61"
  shows "\<exists>t1 t2. shuffled_pattern stride spots st1 = Inr t1 \<and>
           shuffled_pattern stride spots st2 = Inr t2 \<and>
           agree_on (anchor_slots stride spots \<union> half_slots stride spots) t1 t2"
proof -
  let ?A = "anchor_slots stride spots" and ?L = "length (arena st1)"
  have L64: "?L < 2 ^ 64"
    using assms(8) by (rule less_trans) simp
  have b64: "unat spots * unat stride < 2 ^ 64"
    using assms(7) L64 by (rule le_less_trans)
  obtain c1 c2 where c1: "create_forward_chain stride spots st1 = Inr c1"
    and c2: "create_forward_chain stride spots st2 = Inr c2"
    and lc1: "length (arena c1) = ?L" and lc2: "length (arena c2) = ?L"
    and ac: "agree_on ?A c1 c2"
    using chains_agree [OF assms(1,2,3,4,5,7,8)] by blast
  note start = shuffle_start [OF assms(5)]
  have bc1: "unat spots * unat stride \<le> length (arena c1)" and l64c1: "length (arena c1) < 2 ^ 64"
    and bc2: "unat spots * unat stride \<le> length (arena c2)" and l64c2: "length (arena c2) < 2 ^ 64"
    using assms(7) L64 by (simp_all only: lc1 lc2)
  obtain d1 where d1: "shuffle stride spots c1 = Inr d1"
    using shuffle_loop_total [OF assms(4) start assms(6) bc1 l64c1] by (auto simp: shuffle_def)
  obtain d2 where d2: "shuffle stride spots c2 = Inr d2"
    using shuffle_loop_total [OF assms(4) start assms(6) bc2 l64c2] by (auto simp: shuffle_def)
  have ad: "agree_on ?A d1 d2"
    using shuffle_loop_agree [OF ac subset_refl start b64] d1 d2 by (simp add: shuffle_def)
  have ld1: "length (arena d1) = ?L"
    using shuffle_loop_preserves [OF d1 [unfolded shuffle_def] start bc1 l64c1] by (simp add: lc1)
  have ld2: "length (arena d2) = ?L"
    using shuffle_loop_preserves [OF d2 [unfolded shuffle_def] start bc2 l64c2] by (simp add: lc2)
  have bd1: "unat spots * unat stride \<le> length (arena d1)" and l64d1: "length (arena d1) < 2 ^ 64"
    and bd2: "unat spots * unat stride \<le> length (arena d2)" and l64d2: "length (arena d2) < 2 ^ 64"
    using assms(7) L64 by (simp_all only: ld1 ld2)
  obtain t1 where t1: "half_loop stride spots 0 d1 = Inr t1"
    using half_loop_total [OF assms(4) bd1 l64d1] by blast
  obtain t2 where t2: "half_loop stride spots 0 d2 = Inr t2"
    using half_loop_total [OF assms(4) bd2 l64d2] by blast
  have "{unat (0 :: u64)..<unat spots} = {..<unat spots}"
    by auto
  then have "agree_on (?A \<union> half_slots stride spots) t1 t2"
    using half_loop_agree [OF subset_refl b64 ad, of 0] t1 t2 by (simp add: half_slots_def)
  moreover have "shuffled_pattern stride spots st1 = Inr t1"
    by (simp add: shuffled_pattern_def c1 d1 t1)
  moreover have "shuffled_pattern stride spots st2 = Inr t2"
    by (simp add: shuffled_pattern_def c2 d2 t2)
  ultimately show ?thesis
    by blast
qed

lemma lookbehind_pattern_agree:
  fixes stride spots :: u64
  assumes "a_begin st1 = a_begin st2" and "length (arena st1) = length (arena st2)"
    and "rng_seed st1 = rng_seed st2"
    and "0 < unat stride" and "0 < unat spots" and "unat spots < 2 ^ 32"
    and "unat spots * unat stride \<le> length (arena st1)" and "length (arena st1) < 2 ^ 61"
  shows "\<exists>t1 t2. lookbehind_pattern stride spots st1 = Some (Inr t1) \<and>
           lookbehind_pattern stride spots st2 = Some (Inr t2) \<and>
           agree_on (anchor_slots stride spots \<union> behind_slots stride spots) t1 t2"
proof -
  let ?A = "anchor_slots stride spots" and ?L = "length (arena st1)"
  have L64: "?L < 2 ^ 64"
    using assms(8) by (rule less_trans) simp
  have b64: "unat spots * unat stride < 2 ^ 64"
    using assms(7) L64 by (rule le_less_trans)
  obtain c1 c2 where c1: "create_forward_chain stride spots st1 = Inr c1"
    and c2: "create_forward_chain stride spots st2 = Inr c2"
    and lc1: "length (arena c1) = ?L" and lc2: "length (arena c2) = ?L"
    and ac: "agree_on ?A c1 c2"
    using chains_agree [OF assms(1,2,3,4,5,7,8)] by blast
  have bc1: "unat spots * unat stride \<le> length (arena c1)" and l64c1: "length (arena c1) < 2 ^ 64"
    and bc2: "unat spots * unat stride \<le> length (arena c2)" and l64c2: "length (arena c2) < 2 ^ 64"
    using assms(7) L64 by (simp_all only: lc1 lc2)
  obtain t1 where t1: "lookbehind_loop stride spots 0 c1 = Some (Inr t1)"
    using lookbehind_loop_total [OF assms(4,6) bc1 l64c1] by blast
  obtain t2 where t2: "lookbehind_loop stride spots 0 c2 = Some (Inr t2)"
    using lookbehind_loop_total [OF assms(4,6) bc2 l64c2] by blast
  have "{unat (0 :: u32)..<unat spots} = {..<unat spots}"
    by auto
  then have "agree_on (?A \<union> behind_slots stride spots) t1 t2"
    using lookbehind_loop_agree [OF b64 assms(6) subset_refl ac t1 t2]
    by (simp add: behind_slots_def)
  moreover have "lookbehind_pattern stride spots st1 = Some (Inr t1)"
    by (simp add: lookbehind_pattern_def c1 t1)
  moreover have "lookbehind_pattern stride spots st2 = Some (Inr t2)"
    by (simp add: lookbehind_pattern_def c2 t2)
  ultimately show ?thesis
    by blast
qed

text \<open>
  C8 (as amended). \<open>measure\<close> sets \<open>rng_seed = spots + i\<close> before it calls the
  method for \<open>spots\<close> in iteration \<open>i\<close>, and \<open>rng\<close> is a function of
  \<open>rng_seed\<close> alone. Hence, for two states of the machine whose arena has the same
  base address and size, whatever their contents and generator states, and for every
  stride of at least 1 and spots from 1 to \<open>2 ^ 32 - 1\<close> within the arena: after
  reseeding for the same \<open>(spots, i)\<close> the generator returns the same values, both
  builds of the shuffled pattern return and leave the same values in every slot the
  pattern writes, and so do both builds of the lookbehind pattern.
\<close>

theorem trial_pattern_deterministic:
  fixes stride spots :: u64
  assumes "a_begin st1 = a_begin st2" and "length (arena st1) = length (arena st2)"
    and "0 < unat stride" and "0 < unat spots" and "unat spots < 2 ^ 32"
    and "unat spots * unat stride \<le> length (arena st1)" and "length (arena st1) < 2 ^ 61"
  shows "measure_spots method stride i (spots # rest) res st1 =
           bind_out (method stride spots (trial_state spots i st1)) (\<lambda>(d, st).
             measure_spots method stride i rest (res(spots := res spots @ [to_seconds d])) st)
       \<and> rng_seed (trial_state spots i st1) = spots + of_nat i
       \<and> rng_values k (trial_state spots i st1) = rng_values k (trial_state spots i st2)
       \<and> (\<exists>t1 t2. shuffled_pattern stride spots (trial_state spots i st1) = Inr t1 \<and>
             shuffled_pattern stride spots (trial_state spots i st2) = Inr t2 \<and>
             agree_on (anchor_slots stride spots \<union> half_slots stride spots) t1 t2)
       \<and> (\<exists>t1 t2. lookbehind_pattern stride spots (trial_state spots i st1) = Some (Inr t1) \<and>
             lookbehind_pattern stride spots (trial_state spots i st2) = Some (Inr t2) \<and>
             agree_on (anchor_slots stride spots \<union> behind_slots stride spots) t1 t2)"
proof -
  let ?u1 = "trial_state spots i st1" and ?u2 = "trial_state spots i st2"
  have h: "a_begin ?u1 = a_begin ?u2" "length (arena ?u1) = length (arena ?u2)"
    "rng_seed ?u1 = rng_seed ?u2"
    "unat spots * unat stride \<le> length (arena ?u1)" "length (arena ?u1) < 2 ^ 61"
    using assms by (simp_all add: trial_state_def)
  have "rng_values k ?u1 = rng_values k ?u2"
    using h(3) by (rule rng_values_seed)
  moreover note shuffled_pattern_agree [OF h(1,2,3) assms(3,4,5) h(4,5)]
  moreover note lookbehind_pattern_agree [OF h(1,2,3) assms(3,4,5) h(4,5)]
  moreover have "rng_seed ?u1 = spots + of_nat i"
    by (simp add: trial_state_def)
  ultimately show ?thesis
    by simp
qed

lemma example_shuffled_runs:
  "shuffled_pattern 2 3 (trial_state 3 1 example_machine) =
     Inr (example_machine\<lparr>arena := [4128, 4136, 4112, 4120, 4096, 4104, 0, 0],
                          rng_seed := 7314191194458398410\<rparr>)"
  "shuffled_pattern 2 3 (trial_state 3 1 example_other) =
     Inr (example_other\<lparr>arena := [4128, 4136, 4112, 4120, 4096, 4104, 7, 8],
                          rng_seed := 7314191194458398410\<rparr>)"
  by (simp_all add: shuffled_pattern_def create_forward_chain_def forward_loop.simps
      shuffle_def shuffle_loop.simps half_loop.simps rng_def pick_index_def swap_slots_def
      read_slot_def write_slot_def slot_addr_def slot_bytes_def trial_state_def
      example_machine_def example_other_def)

lemma example_lookbehind_runs:
  "lookbehind_pattern 2 3 (trial_state 3 1 example_machine) =
     Some (Inr (example_machine\<lparr>arena := [4104, 4112, 4120, 4128, 4136, 4096, 0, 0],
                          rng_seed := 4\<rparr>))"
  "lookbehind_pattern 2 3 (trial_state 3 1 example_other) =
     Some (Inr (example_other\<lparr>arena := [4104, 4112, 4120, 4128, 4136, 4096, 7, 8],
                          rng_seed := 4\<rparr>))"
  by (simp_all add: lookbehind_pattern_def create_forward_chain_def forward_loop.simps
      lookbehind_loop.simps lookbehind_step_def behind_index_def lookbehind_offset_def
      read_slot_def write_slot_def slot_addr_def slot_bytes_def trial_state_def
      example_machine_def example_other_def)


theorem trial_pattern_deterministic_witness:
  "a_begin example_machine = a_begin example_other
   \<and> length (arena example_machine) = length (arena example_other)
   \<and> 0 < unat (2 :: u64) \<and> 0 < unat (3 :: u64) \<and> unat (3 :: u64) < 2 ^ 32
   \<and> unat (3 :: u64) * unat (2 :: u64) \<le> length (arena example_machine)
   \<and> length (arena example_machine) < 2 ^ 61
   \<and> arena example_machine \<noteq> arena example_other
   \<and> rng_seed example_machine \<noteq> rng_seed example_other
   \<and> agree_on (anchor_slots 2 3 \<union> half_slots 2 3)
         (example_machine\<lparr>arena := [4128, 4136, 4112, 4120, 4096, 4104, 0, 0],
                          rng_seed := 7314191194458398410\<rparr>)
         (example_other\<lparr>arena := [4128, 4136, 4112, 4120, 4096, 4104, 7, 8],
                          rng_seed := 7314191194458398410\<rparr>)
   \<and> agree_on (anchor_slots 2 3 \<union> behind_slots 2 3)
         (example_machine\<lparr>arena := [4104, 4112, 4120, 4128, 4136, 4096, 0, 0],
                          rng_seed := 4\<rparr>)
         (example_other\<lparr>arena := [4104, 4112, 4120, 4128, 4136, 4096, 7, 8],
                          rng_seed := 4\<rparr>)"
proof -
  have h1: "a_begin example_machine = a_begin example_other"
    and h2: "length (arena example_machine) = length (arena example_other)"
    and h3: "0 < unat (2 :: u64)" and h4: "0 < unat (3 :: u64)"
    and h5: "unat (3 :: u64) < 2 ^ 32"
    and h6: "unat (3 :: u64) * unat (2 :: u64) \<le> length (arena example_machine)"
    and h7: "length (arena example_machine) < 2 ^ 61"
    and d1: "arena example_machine \<noteq> arena example_other"
    and d2: "rng_seed example_machine \<noteq> rng_seed example_other"
    by (simp_all add: example_machine_def example_other_def)
  note t = trial_pattern_deterministic [OF h1 h2 h3 h4 h5 h6 h7, of _ 1 _ _ 0]
  from t have "\<exists>t1 t2. shuffled_pattern 2 3 (trial_state 3 1 example_machine) = Inr t1 \<and>
             shuffled_pattern 2 3 (trial_state 3 1 example_other) = Inr t2 \<and>
             agree_on (anchor_slots 2 3 \<union> half_slots 2 3) t1 t2"
    by blast
  then have a: "agree_on (anchor_slots 2 3 \<union> half_slots 2 3)
         (example_machine\<lparr>arena := [4128, 4136, 4112, 4120, 4096, 4104, 0, 0],
                          rng_seed := 7314191194458398410\<rparr>)
         (example_other\<lparr>arena := [4128, 4136, 4112, 4120, 4096, 4104, 7, 8],
                          rng_seed := 7314191194458398410\<rparr>)"
    using example_shuffled_runs by simp
  from t have "\<exists>t1 t2. lookbehind_pattern 2 3 (trial_state 3 1 example_machine) = Some (Inr t1) \<and>
             lookbehind_pattern 2 3 (trial_state 3 1 example_other) = Some (Inr t2) \<and>
             agree_on (anchor_slots 2 3 \<union> behind_slots 2 3) t1 t2"
    by blast
  then have b: "agree_on (anchor_slots 2 3 \<union> behind_slots 2 3)
         (example_machine\<lparr>arena := [4104, 4112, 4120, 4128, 4136, 4096, 0, 0],
                          rng_seed := 4\<rparr>)
         (example_other\<lparr>arena := [4104, 4112, 4120, 4128, 4136, 4096, 7, 8],
                          rng_seed := 4\<rparr>)"
    using example_lookbehind_runs by simp
  from h1 h2 h3 h4 h5 h6 h7 d1 d2 a b show ?thesis
    by (intro conjI)
qed


text \<open>
  C8 as stated does not hold across arenas at different addresses: the pattern consists
  of slot addresses. The same build, for the same \<open>(stride, spots, i)\<close>, on an arena at
  4096 and on one at 8192:
\<close>

theorem pattern_depends_on_base_counterexample:
  "shuffled_pattern 2 3 (trial_state 3 1 example_machine) =
     Inr (example_machine\<lparr>arena := [4128, 4136, 4112, 4120, 4096, 4104, 0, 0],
                          rng_seed := 7314191194458398410\<rparr>)
   \<and> shuffled_pattern 2 3 (trial_state 3 1 example_moved) =
     Inr (example_moved\<lparr>arena := [8224, 8232, 8208, 8216, 8192, 8200, 0, 0],
                          rng_seed := 7314191194458398410\<rparr>)
   \<and> [4128, 4136, 4112, 4120, 4096, 4104, 0, 0] \<noteq>
       [8224, 8232, 8208, 8216, 8192, 8200, 0, 0 :: u64]"
  by (simp add: shuffled_pattern_def create_forward_chain_def forward_loop.simps
      shuffle_def shuffle_loop.simps half_loop.simps rng_def pick_index_def swap_slots_def
      read_slot_def write_slot_def slot_addr_def slot_bytes_def trial_state_def
      example_machine_def example_moved_def)

subsection \<open>Line-size discovery\<close>

lemma stride_loop_exit:
  "max_stride < stride \<Longrightarrow> stride_loop method stride results st = sweep method [] results st"
  by (subst stride_loop.simps) (simp add: not_le [symmetric])

lemma stride_loop_step:
  assumes "stride \<le> max_stride" and "stride \<noteq> 0"
    and "\<And>rs s. stride_loop method (stride * 2) rs s = sweep method rest rs s"
  shows "stride_loop method stride results st = sweep method (stride # rest) results st"
  by (subst stride_loop.simps) (simp add: assms cong: sum.case_cong)

lemma stride_sweep:
  "stride_loop method min_stride [] st = sweep method [2, 4, 8, 16, 32, 64, 128] [] st"
proof -
  have s256: "stride_loop method (128 * 2) rs s = sweep method [] rs s" for rs s
    by (rule stride_loop_exit) (simp add: max_stride_def)
  have s128: "stride_loop method (64 * 2) rs s = sweep method [128] rs s" for rs s
    using stride_loop_step [where stride = 128 and rest = "[]", OF _ _ s256] by (simp add: max_stride_def)
  have s64: "stride_loop method (32 * 2) rs s = sweep method [64, 128] rs s" for rs s
    using stride_loop_step [where stride = 64 and rest = "[128]", OF _ _ s128] by (simp add: max_stride_def)
  have s32: "stride_loop method (16 * 2) rs s = sweep method [32, 64, 128] rs s" for rs s
    using stride_loop_step [where stride = 32 and rest = "[64, 128]", OF _ _ s64] by (simp add: max_stride_def)
  have s16: "stride_loop method (8 * 2) rs s = sweep method [16, 32, 64, 128] rs s" for rs s
    using stride_loop_step [where stride = 16 and rest = "[32, 64, 128]", OF _ _ s32] by (simp add: max_stride_def)
  have s8: "stride_loop method (4 * 2) rs s = sweep method [8, 16, 32, 64, 128] rs s" for rs s
    using stride_loop_step [where stride = 8 and rest = "[16, 32, 64, 128]", OF _ _ s16] by (simp add: max_stride_def)
  have s4: "stride_loop method (2 * 2) rs s = sweep method [4, 8, 16, 32, 64, 128] rs s" for rs s
    using stride_loop_step [where stride = 4 and rest = "[8, 16, 32, 64, 128]", OF _ _ s8] by (simp add: max_stride_def)
  show ?thesis
    using stride_loop_step [where stride = 2 and rest = "[4, 8, 16, 32, 64, 128]", OF _ _ s4]
    by (simp add: max_stride_def min_stride_def)
qed

lemma insort_d_mset: "mset (insort_d x xs) = add_mset x (mset xs)"
  by (induction xs) simp_all

lemma sort_d_mset: "mset (sort_d xs) = mset xs"
  by (induction xs) (simp_all add: sort_d_def insort_d_mset)

lemma sort_d_length: "length (sort_d xs) = length xs"
  using sort_d_mset [of xs] by (metis size_mset)

lemma insort_d_set: "set (insort_d x xs) = insert x (set xs)"
  using insort_d_mset [of x xs] by (metis set_mset_add_mset_insert set_mset_mset)

lemma insort_d_sorted:
  assumes "sorted_wrt dle xs" and "x \<noteq> NaN" and "NaN \<notin> set xs"
  shows "sorted_wrt dle (insort_d x xs)"
  using assms
proof (induction xs)
  case Nil
  show ?case by simp
next
  case (Cons y ys)
  show ?case
  proof (cases "dle x y")
    case True
    have "dle x z" if "z \<in> set ys" for z
      using Cons.prems(1) that True by (auto intro: dle_trans)
    with True Cons.prems(1) show ?thesis
      by auto
  next
    case False
    have "y \<noteq> NaN"
      using Cons.prems(3) by auto
    with False Cons.prems(2) have "dle y x"
      by (intro not_dle_dle)
    moreover have "sorted_wrt dle (insort_d x ys)"
      using Cons by simp
    ultimately show ?thesis
      using False Cons.prems(1) by (auto simp: insort_d_set)
  qed
qed

lemma sort_d_sorted:
  assumes "NaN \<notin> set xs"
  shows "sorted_wrt dle (sort_d xs)"
  using assms
proof (induction xs)
  case Nil
  show ?case by (simp add: sort_d_def)
next
  case (Cons x xs)
  have "NaN \<notin> set (sort_d xs)"
    using Cons.prems sort_d_mset [of xs] by (metis list.set_intros(2) set_mset_mset)
  moreover have "sorted_wrt dle (sort_d xs)" and "x \<noteq> NaN"
    using Cons by auto
  ultimately have "sorted_wrt dle (insort_d x (sort_d xs))"
    by (intro insort_d_sorted)
  then show ?case
    by (simp add: sort_d_def)
qed

lemma median_sorted_middle:
  assumes "container \<noteq> []" and "sortable container"
  shows "median container = Inr (sort_d container ! (length container div 2))"
  using assms by (simp add: median_def)

lemma median_examples:
  "median [lit 5, lit 1, lit 3] = Inr (lit 3)"
  "median [lit 4, lit 2, lit 6, lit 1] = Inr (lit 4)"
  "median [] = Inl EmptyVector"
  "median [lit 1, NaN] = Inl Unordered"
  by (simp_all add: median_def sortable_def sort_d_def)

lemma unat_two_power:
  assumes "i < 64"
  shows "unat ((2 :: u64) ^ i) = 2 ^ i"
proof -
  have "(2 :: nat) ^ i < 2 ^ 64"
    using assms by (intro power_strict_increasing) simp_all
  then have "unat (of_nat (2 ^ i) :: u64) = 2 ^ i"
    by (rule unat_of_nat_small)
  then show ?thesis
    by simp
qed

lemma half_stride:
  assumes "i < 63"
  shows "push_bit i min_stride div 2 = (2 :: u64) ^ i"
proof -
  have p: "push_bit i min_stride = (2 :: u64) ^ Suc i"
    by (simp add: min_stride_def push_bit_eq_mult)
  have "unat ((2 :: u64) ^ Suc i) = 2 ^ Suc i" and "unat ((2 :: u64) ^ i) = 2 ^ i"
    using assms by (simp_all only: unat_two_power)
  then have "unat ((2 :: u64) ^ Suc i div 2) = unat ((2 :: u64) ^ i)"
    by (simp add: unat_div)
  then show ?thesis
    by (simp only: p word_unat_eq_iff)
qed

lemma example_line: "cache_line_stride_of [lit 10, lit 10, lit 10, lit 40, lit 40] = 8"
  by (simp add: cache_line_stride_of_def speedup_loop.simps dge_def min_stride_def)

lemma example_dec:
  "cache_line_stride_of [lit 64, lit 32, lit 16, lit 8, lit 4, lit 2, lit 1] = 1"
  by (simp add: cache_line_stride_of_def speedup_loop.simps dge_def min_stride_def)

lemma speedup_loop_exit:
  "\<not> i < length results \<Longrightarrow> speedup_loop results i cls ms = cls"
  by (subst speedup_loop.simps) simp

lemma speedup_loop_step:
  assumes "i < length results"
  shows "speedup_loop results i cls m =
           (if dge (speedup_at results i) m
            then speedup_loop results (i + 1) (push_bit i min_stride div 2) (speedup_at results i)
            else speedup_loop results (i + 1) cls m)"
  using assms by (subst speedup_loop.simps) (simp add: speedup_at_def Let_def)

lemma speedup_loop_char:
  assumes "k \<le> length results"
  shows "if \<forall>i \<in> {k..<length results}. \<not> dge (speedup_at results i) m
         then speedup_loop results k cls m = cls
         else \<exists>i \<in> {k..<length results}.
                speedup_loop results k cls m = push_bit i min_stride div 2 \<and>
                dge (speedup_at results i) m \<and>
                (\<forall>j \<in> {k..<i}. \<not> dlt (speedup_at results i) (speedup_at results j)) \<and>
                (\<forall>j \<in> {i<..<length results}.
                   \<not> dge (speedup_at results j) (speedup_at results i))"
  using assms
proof (induction "length results - k" arbitrary: k cls m)
  case 0
  then have "\<not> k < length results" and "{k..<length results} = {}"
    by simp_all
  then show ?case
    by (simp add: speedup_loop_exit)
next
  case (Suc d)
  let ?n = "length results" and ?q = "speedup_at results"
  from Suc have kn: "k < ?n"
    by simp
  note st = speedup_loop_step [OF kn]
  have d: "d = ?n - (k + 1)" and k1n: "k + 1 \<le> ?n"
    using Suc.hyps(2) kn by simp_all
  have split: "{k..<?n} = insert k {k + 1..<?n}"
    using kn by auto
  show ?case
  proof (cases "dge (?q k) m")
    case True
    note ih = Suc.hyps(1) [OF d k1n, of "?q k" "push_bit k min_stride div 2"]
    have run: "speedup_loop results k cls m =
        speedup_loop results (k + 1) (push_bit k min_stride div 2) (?q k)"
      using True by (simp add: st)
    have ne: "\<not> (\<forall>i \<in> {k..<?n}. \<not> dge (?q i) m)"
      using True kn by auto
    show ?thesis
    proof (cases "\<forall>i \<in> {k + 1..<?n}. \<not> dge (?q i) (?q k)")
      case all: True
      with ih have "speedup_loop results (k + 1) (push_bit k min_stride div 2) (?q k) =
          push_bit k min_stride div 2"
        by simp
      moreover have "\<forall>j \<in> {k<..<?n}. \<not> dge (?q j) (?q k)"
        using all by auto
      ultimately have "speedup_loop results k cls m = push_bit k min_stride div 2 \<and>
          dge (?q k) m \<and> (\<forall>j \<in> {k..<k}. \<not> dlt (?q k) (?q j)) \<and>
          (\<forall>j \<in> {k<..<?n}. \<not> dge (?q j) (?q k))"
        using True run by simp
      then show ?thesis
        using ne kn by (simp only: if_False) (rule bexI [of _ k], simp_all)
    next
      case False
      with ih obtain i where i: "i \<in> {k + 1..<?n}"
        and r: "speedup_loop results (k + 1) (push_bit k min_stride div 2) (?q k) =
          push_bit i min_stride div 2"
        and ge: "dge (?q i) (?q k)"
        and before: "\<forall>j \<in> {k + 1..<i}. \<not> dlt (?q i) (?q j)"
        and after: "\<forall>j \<in> {i<..<?n}. \<not> dge (?q j) (?q i)"
        by (auto simp only: if_False)
      have "\<not> dlt (?q i) (?q k)"
        using ge by (auto simp: dge_def dlt_iff)
      then have "\<forall>j \<in> {k..<i}. \<not> dlt (?q i) (?q j)"
        using before by (metis atLeastLessThan_iff Suc_eq_plus1 Suc_leI le_neq_implies_less)
      moreover have "dge (?q i) m"
        using ge True by (rule dge_trans)
      moreover have "i \<in> {k..<?n}"
        using i by simp
      moreover have "speedup_loop results k cls m = push_bit i min_stride div 2"
        using run r by simp
      ultimately have "\<exists>i \<in> {k..<?n}. speedup_loop results k cls m = push_bit i min_stride div 2 \<and>
          dge (?q i) m \<and> (\<forall>j \<in> {k..<i}. \<not> dlt (?q i) (?q j)) \<and>
          (\<forall>j \<in> {i<..<?n}. \<not> dge (?q j) (?q i))"
        using after by blast
      then show ?thesis
        using ne by (simp only: if_False)
    qed
  next
    case False
    note ih = Suc.hyps(1) [OF d k1n, of m cls]
    have run: "speedup_loop results k cls m = speedup_loop results (k + 1) cls m"
      using False by (simp add: st)
    show ?thesis
    proof (cases "\<forall>i \<in> {k + 1..<?n}. \<not> dge (?q i) m")
      case all: True
      with ih have "speedup_loop results (k + 1) cls m = cls"
        by simp
      moreover have "\<forall>i \<in> {k..<?n}. \<not> dge (?q i) m"
        using all False by (simp add: split)
      ultimately show ?thesis
        using run by simp
    next
      case nall: False
      with ih obtain i where i: "i \<in> {k + 1..<?n}"
        and r: "speedup_loop results (k + 1) cls m = push_bit i min_stride div 2"
        and ge: "dge (?q i) m"
        and before: "\<forall>j \<in> {k + 1..<i}. \<not> dlt (?q i) (?q j)"
        and after: "\<forall>j \<in> {i<..<?n}. \<not> dge (?q j) (?q i)"
        by (auto simp only: if_False)
      have "\<not> dlt (?q i) (?q k)"
      proof
        assume lt: "dlt (?q i) (?q k)"
        then have "dle (?q i) (?q k)"
          by (simp add: dlt_iff)
        moreover have "dle m (?q i)"
          using ge by (simp add: dge_def)
        ultimately have "dle m (?q k)"
          by (rule dle_trans [rotated])
        with False show False
          by (simp add: dge_def)
      qed
      then have "\<forall>j \<in> {k..<i}. \<not> dlt (?q i) (?q j)"
        using before by (metis atLeastLessThan_iff Suc_eq_plus1 Suc_leI le_neq_implies_less)
      moreover have "i \<in> {k..<?n}"
        using i by simp
      moreover have "speedup_loop results k cls m = push_bit i min_stride div 2"
        using run r by simp
      ultimately have "\<exists>i \<in> {k..<?n}. speedup_loop results k cls m = push_bit i min_stride div 2 \<and>
          dge (?q i) m \<and> (\<forall>j \<in> {k..<i}. \<not> dlt (?q i) (?q j)) \<and>
          (\<forall>j \<in> {i<..<?n}. \<not> dge (?q j) (?q i))"
        using ge after by blast
      moreover have "\<not> (\<forall>i \<in> {k..<?n}. \<not> dge (?q i) m)"
        using nall by (auto simp: split)
      ultimately show ?thesis
        by (simp only: if_False)
    qed
  qed
qed

lemma cache_line_stride_char:
  "if \<forall>i \<in> {1..<length results}. \<not> dge (speedup_at results i) (lit 1)
   then cache_line_stride_of results = 1
   else \<exists>i \<in> {1..<length results}.
          cache_line_stride_of results = push_bit i min_stride div 2 \<and>
          dge (speedup_at results i) (lit 1) \<and>
          (\<forall>j \<in> {1..<i}. \<not> dlt (speedup_at results i) (speedup_at results j)) \<and>
          (\<forall>j \<in> {i<..<length results}. \<not> dge (speedup_at results j) (speedup_at results i))"
proof (cases "results = []")
  case True
  then show ?thesis
    by (simp add: cache_line_stride_of_def speedup_loop_exit)
next
  case False
  then have n: "1 \<le> length results"
    by (cases results) simp_all
  have "cache_line_stride_of results = speedup_loop results 1 1 (lit 1)"
    by (simp add: cache_line_stride_of_def)
  then show ?thesis
    using speedup_loop_char [OF n, of "lit 1" 1] by (simp only:)
qed

text \<open>
  C4 (as amended). \<open>find_cache_line_size\<close> measures at the strides 2, 4, 8, ...,
  128, in this order, and keeps for each the median of the trial durations: the
  element at position \<open>size / 2\<close> of the sorted trials (a permutation of the trials
  in ascending order, for trials that \<open><\<close> orders). The speedup at a position is the
  median divided by the previous one, a double. From the medians it returns half of
  the stride \<open>min_stride << i\<close> of the last position \<open>i\<close> whose speedup is at least
  1, the value at which the running maximum starts, and not below the speedup of any
  other position, all comparisons being those of doubles; when no speedup is at least
  1 it returns 1. Half of the stride at position \<open>i\<close> is \<open>2 ^ i\<close>. For the
  medians 10, 10, 10, 40, 40 the result is 8.
\<close>

theorem line_size_rule:
  "find_cache_line_size_by method st =
     bind_out (sweep method [2, 4, 8, 16, 32, 64, 128] [] st) (\<lambda>(results, st1).
       Some (Inr (cache_line_stride_of results, st1)))
   \<and> (container \<noteq> [] \<and> sortable container \<longrightarrow>
        median container = Inr (sort_d container ! (length container div 2))
        \<and> mset (sort_d container) = mset container
        \<and> sorted_wrt dle (sort_d container))
   \<and> (if \<forall>i \<in> {1..<length results}. \<not> dge (speedup_at results i) (lit 1)
       then cache_line_stride_of results = 1
       else \<exists>i \<in> {1..<length results}.
              cache_line_stride_of results = push_bit i min_stride div 2 \<and>
              dge (speedup_at results i) (lit 1) \<and>
              (\<forall>j \<in> {1..<i}. \<not> dlt (speedup_at results i) (speedup_at results j)) \<and>
              (\<forall>j \<in> {i<..<length results}.
                 \<not> dge (speedup_at results j) (speedup_at results i)))
   \<and> (k < 63 \<longrightarrow> push_bit k min_stride div 2 = (2 :: u64) ^ k)
   \<and> cache_line_stride_of [lit 10, lit 10, lit 10, lit 40, lit 40] = 8"
proof (intro conjI impI)
  show "find_cache_line_size_by method st =
     bind_out (sweep method [2, 4, 8, 16, 32, 64, 128] [] st) (\<lambda>(results, st1).
       Some (Inr (cache_line_stride_of results, st1)))"
    by (simp only: find_cache_line_size_by_def stride_sweep)
  show "median container = Inr (sort_d container ! (length container div 2))"
    if "container \<noteq> [] \<and> sortable container"
    using that by (simp add: median_sorted_middle)
  show "mset (sort_d container) = mset container"
    by (rule sort_d_mset)
  show "sorted_wrt dle (sort_d container)"
    if "container \<noteq> [] \<and> sortable container"
    using that by (intro sort_d_sorted) (simp add: sortable_def)
  show "if \<forall>i \<in> {1..<length results}. \<not> dge (speedup_at results i) (lit 1)
       then cache_line_stride_of results = 1
       else \<exists>i \<in> {1..<length results}.
              cache_line_stride_of results = push_bit i min_stride div 2 \<and>
              dge (speedup_at results i) (lit 1) \<and>
              (\<forall>j \<in> {1..<i}. \<not> dlt (speedup_at results i) (speedup_at results j)) \<and>
              (\<forall>j \<in> {i<..<length results}.
                 \<not> dge (speedup_at results j) (speedup_at results i))"
    by (rule cache_line_stride_char)
  show "push_bit k min_stride div 2 = (2 :: u64) ^ k" if "k < 63"
    using that by (rule half_stride)
  show "cache_line_stride_of [lit 10, lit 10, lit 10, lit 40, lit 40] = 8"
    by (rule example_line)
qed

theorem line_size_rule_witness:
  "[lit 5, lit 1, lit 3] \<noteq> [] \<and> sortable [lit 5, lit 1, lit 3]
   \<and> median [lit 5, lit 1, lit 3] = Inr (lit 3)
   \<and> sort_d [lit 5, lit 1, lit 3] = [lit 1, lit 3, lit 5]
   \<and> list_all (\<lambda>i. \<not> dge (speedup_at [lit 64, lit 32, lit 16, lit 8, lit 4, lit 2, lit 1] i)
                            (lit 1)) [1, 2, 3, 4, 5, 6]
   \<and> cache_line_stride_of [lit 64, lit 32, lit 16, lit 8, lit 4, lit 2, lit 1] = 1
   \<and> (3 :: nat) < 63 \<and> push_bit 3 min_stride div 2 = (8 :: u64)"
proof -
  let ?rs = "[lit 64, lit 32, lit 16, lit 8, lit 4, lit 2, lit 1]"
  note t = line_size_rule [of measure_lookbehind example_machine "[lit 5, lit 1, lit 3]" ?rs 3]
  have ne: "[lit 5, lit 1, lit 3] \<noteq> [] \<and> sortable [lit 5, lit 1, lit 3]"
    by (simp add: sortable_def)
  have s: "sort_d [lit 5, lit 1, lit 3] = [lit 1, lit 3, lit 5]"
    by (simp add: sort_d_def)
  have m: "median [lit 5, lit 1, lit 3] = Inr (lit 3)"
    using t [THEN conjunct2, THEN conjunct1, THEN mp, OF ne] unfolding s by simp
  have all: "\<forall>i \<in> {1..<length ?rs}. \<not> dge (speedup_at ?rs i) (lit 1)"
    by (simp add: speedup_at_def atLeastLessThan_upt upt_rec dge_def)
  have r: "cache_line_stride_of ?rs = 1"
    using t [THEN conjunct2, THEN conjunct2, THEN conjunct1] all
    by (simp only: if_True)
  have k: "(3 :: nat) < 63"
    by simp
  have p: "push_bit 3 min_stride div 2 = (8 :: u64)"
    using t [THEN conjunct2, THEN conjunct2, THEN conjunct2, THEN conjunct1, THEN mp, OF k]
    by simp
  have "list_all (\<lambda>i. \<not> dge (speedup_at ?rs i) (lit 1)) [1, 2, 3, 4, 5, 6]"
    by (simp add: speedup_at_def dge_def)
  with ne s m r p show ?thesis
    by simp
qed

text \<open>
  C4 as stated fails where no speedup reaches 1: for medians that halve at every
  stride the largest speedup is 0.5, at every position, and the result 1 is not half of
  any stride that has a speedup.
\<close>

theorem max_speedup_floor_counterexample:
  "cache_line_stride_of [lit 64, lit 32, lit 16, lit 8, lit 4, lit 2, lit 1] = 1
   \<and> \<not> half_of_max_speedup_stride [lit 64, lit 32, lit 16, lit 8, lit 4, lit 2, lit 1]
         (cache_line_stride_of [lit 64, lit 32, lit 16, lit 8, lit 4, lit 2, lit 1])"
  unfolding example_dec
  by (simp add: half_of_max_speedup_stride_def speedup_at_def min_stride_def upt_rec)

text \<open>
  A tie of rounded speedups goes to the later stride: 4 / 3 is rounded to a double,
  and that double divided by 1 is the same double, so the position of the second
  one wins.
\<close>

lemma four_thirds: "ddiv (lit 4) (lit 3) = Finite False (6004799503160661 / 2 ^ 52)"
proof -
  have "rnd False (4 / 3) = Finite False (of_int 6004799503160661 / 2 ^ 52)"
    by (rule rnd_unit) (simp_all add: round_even_def)
  then show ?thesis
    by simp
qed

lemma quotient_tie_example:
  "cache_line_stride_of
     [lit 3, lit 4, lit 1, ddiv (lit 4) (lit 3), lit 1, lit 0.5, lit 0.25] = 8"
proof -
  let ?q = "Finite False (6004799503160661 / 2 ^ 52)"
  let ?rs = "[lit 3, lit 4, lit 1, ?q, lit 1, lit 0.5, lit 0.25]"
  have quarter: "lit 0.25 = Finite False (1 / 4)"
    using rnd_dyadic [of 1 2 False] by (simp add: lit_def round_real_def)
  have dq: "is_double ?q"
    using ddiv_is_double [OF lit_is_double lit_is_double, of 4 3] unfolding four_thirds .
  have s1: "speedup_at ?rs 1 = ?q"
    using four_thirds by (simp add: speedup_at_def)
  have s2: "speedup_at ?rs 2 = Finite False (1 / 4)"
    using rnd_dyadic [of 1 2 False] by (simp add: speedup_at_def)
  have s3: "speedup_at ?rs 3 = ?q"
    using ddiv_one [OF dq] by (simp add: speedup_at_def)
  obtain c where s4: "speedup_at ?rs 4 = Finite False c" and c: "c \<le> 1"
    using rnd_at_most_one [of "1 / (6004799503160661 / 2 ^ 52)"]
    by (auto simp: speedup_at_def)
  have s5: "speedup_at ?rs 5 = Finite False (1 / 2)"
    by (simp add: speedup_at_def)
  have s6: "speedup_at ?rs 6 = Finite False (1 / 2)"
    unfolding quarter by (simp add: speedup_at_def)
  have "speedup_loop ?rs 7 8 ?q = 8"
    by (rule speedup_loop_exit) simp
  then have "speedup_loop ?rs 6 8 ?q = 8"
    using s6 by (subst speedup_loop_step) (simp_all add: dge_def)
  then have "speedup_loop ?rs 5 8 ?q = 8"
    using s5 by (subst speedup_loop_step) (simp_all add: dge_def)
  then have "speedup_loop ?rs 4 8 ?q = 8"
    using s4 c by (subst speedup_loop_step) (simp_all add: dge_def)
  then have "speedup_loop ?rs 3 2 ?q = 8"
    using s3 by (subst speedup_loop_step) (simp_all add: dge_def min_stride_def)
  then have "speedup_loop ?rs 2 2 ?q = 8"
    using s2 by (subst speedup_loop_step) (simp_all add: dge_def)
  moreover have "push_bit 1 (2 :: u64) div 2 = 2"
    by simp
  ultimately have "speedup_loop ?rs 1 1 (lit 1.0) = 8"
    using s1 by (subst speedup_loop_step) (simp_all add: dge_def min_stride_def del: One_nat_def)
  then show ?thesis
    unfolding four_thirds cache_line_stride_of_def .
qed


subsection \<open>Jump detection\<close>

lemma totals_spec:
  assumes "totals measured search_spots = Inr ts"
  shows "length ts = length search_spots \<and>
         (\<forall>i < length search_spots. sum_c (measured (search_spots ! i)) = Inr (ts ! i))"
  using assms
proof (induction search_spots arbitrary: ts)
  case Nil
  then show ?case by simp
next
  case (Cons spots rest)
  from Cons.prems obtain t where t: "sum_c (measured spots) = Inr t"
    by (cases "sum_c (measured spots)") simp_all
  with Cons.prems obtain ts' where ts': "totals measured rest = Inr ts'" and ts: "ts = t # ts'"
    by (cases "totals measured rest") auto
  from Cons.IH [OF ts'] show ?case
    by (auto simp: ts t nth_Cons split: nat.splits)
qed

lemma smooth_loop_spec:
  assumes "m < length xs"
  shows "length (smooth_loop m xs) = length xs \<and>
         (\<forall>j. m \<le> j \<and> j < length xs \<longrightarrow> smooth_loop m xs ! j = xs ! j) \<and>
         (\<forall>j < m. smooth_loop m xs ! j = blend (xs ! j) (smooth_loop m xs ! (j + 1)))"
  using assms
proof (induction m arbitrary: xs)
  case 0
  then show ?case by simp
next
  case (Suc k)
  let ?xs' = "xs[k := blend (xs ! k) (xs ! Suc k)]"
  let ?r = "smooth_loop k ?xs'"
  have k: "k < length ?xs'"
    using Suc.prems by simp
  from Suc.IH [OF k] have
    len: "length ?r = length xs" and
    hi: "\<forall>j. k \<le> j \<and> j < length xs \<longrightarrow> ?r ! j = ?xs' ! j" and
    lo: "\<forall>j < k. ?r ! j = blend (?xs' ! j) (?r ! (j + 1))"
    by simp_all
  have r: "smooth_loop (Suc k) xs = ?r"
    by simp
  have "?r ! j = xs ! j" if "Suc k \<le> j" "j < length xs" for j
    using hi that by simp
  moreover have "?r ! j = blend (xs ! j) (?r ! (j + 1))" if "j < Suc k" for j
  proof (cases "j = k")
    case True
    have "?r ! k = blend (xs ! k) (xs ! Suc k)"
      using hi Suc.prems by simp
    moreover have "?r ! Suc k = xs ! Suc k"
      using hi Suc.prems by simp
    ultimately show ?thesis
      using True by simp
  next
    case False
    then have "j < k"
      using that by simp
    then show ?thesis
      using lo by simp
  qed
  ultimately show ?case
    unfolding r using len by blast
qed

lemma scan_loop_exit:
  "\<not> i < length search_spots - 1 \<Longrightarrow> scan_loop measured search_spots sm i = Inr 0"
  by (subst scan_loop.simps) simp

lemma scan_loop_step:
  assumes "i < length search_spots - 1"
    and "\<forall>j < length search_spots. sum_c (measured (search_spots ! j)) = Inr (ts ! j)"
  shows "scan_loop measured search_spots sm i =
           (if crosses ts sm i then Inr (search_spots ! i)
            else scan_loop measured search_spots sm (i + 1))"
proof -
  have "sum_c (measured (search_spots ! i)) = Inr (ts ! i)"
    and "sum_c (measured (search_spots ! (i + 1))) = Inr (ts ! (i + 1))"
    using assms by simp_all
  then show ?thesis
    using assms(1) by (subst scan_loop.simps) (simp add: crosses_def)
qed

lemma scan_none:
  assumes "\<forall>j < length search_spots. sum_c (measured (search_spots ! j)) = Inr (ts ! j)"
    and "\<forall>j. i \<le> j \<and> j < length search_spots - 1 \<longrightarrow> \<not> crosses ts sm j"
  shows "scan_loop measured search_spots sm i = Inr 0"
  using assms(2)
proof (induction "length search_spots - 1 - i" arbitrary: i)
  case 0
  then show ?case
    by (simp add: scan_loop_exit)
next
  case (Suc d)
  then have i: "i < length search_spots - 1"
    by simp
  have "scan_loop measured search_spots sm (i + 1) = Inr 0"
    using Suc.hyps(2) Suc.prems by (intro Suc.hyps(1)) auto
  moreover have "\<not> crosses ts sm i"
    using Suc.prems i by simp
  ultimately show ?case
    by (simp add: scan_loop_step [OF i assms(1)])
qed

lemma scan_first:
  assumes "\<forall>j < length search_spots. sum_c (measured (search_spots ! j)) = Inr (ts ! j)"
    and "i \<le> k" and "k < length search_spots - 1" and "crosses ts sm k"
    and "\<forall>j. i \<le> j \<and> j < k \<longrightarrow> \<not> crosses ts sm j"
  shows "scan_loop measured search_spots sm i = Inr (search_spots ! k)"
  using assms(2,5)
proof (induction "k - i" arbitrary: i)
  case 0
  then have "i = k"
    by simp
  then show ?case
    using assms(3,4) by (simp add: scan_loop_step [OF _ assms(1)])
next
  case (Suc d)
  then have ik: "i < k"
    by simp
  then have i: "i < length search_spots - 1"
    using assms(3) by simp
  have "scan_loop measured search_spots sm (i + 1) = Inr (search_spots ! k)"
    using Suc.hyps(2) Suc.prems ik by (intro Suc.hyps(1)) auto
  moreover have "\<not> crosses ts sm i"
    using Suc.prems ik by simp
  ultimately show ?case
    by (simp add: scan_loop_step [OF i assms(1)])
qed

lemma jump_of_scan:
  assumes "totals measured search_spots = Inr ts" and "search_spots \<noteq> []"
  shows "jump_of measured search_spots =
           scan_loop measured search_spots (smooth_loop (length ts - 1) ts) 0"
proof -
  have "length ts = length search_spots"
    using totals_spec [OF assms(1)] by simp
  then have "ts \<noteq> []"
    using assms(2) by auto
  then show ?thesis
    by (simp add: jump_of_def assms(1))
qed

lemma jump_of_empty: "jump_of measured [] = Inl OutOfBounds"
  by (simp add: jump_of_def)

lemma smooth_suffix_spec:
  assumes "ts \<noteq> []"
  shows "length (smooth_loop (length ts - 1) ts) = length ts"
    and "smooth_loop (length ts - 1) ts ! (length ts - 1) = ts ! (length ts - 1)"
    and "\<forall>i < length ts - 1. smooth_loop (length ts - 1) ts ! i =
           blend (ts ! i) (smooth_loop (length ts - 1) ts ! (i + 1))"
proof -
  have m: "length ts - 1 < length ts"
    using assms by (cases ts) simp_all
  note sp = smooth_loop_spec [OF m]
  show "length (smooth_loop (length ts - 1) ts) = length ts"
    using sp by simp
  show "smooth_loop (length ts - 1) ts ! (length ts - 1) = ts ! (length ts - 1)"
    using sp m by simp
  show "\<forall>i < length ts - 1. smooth_loop (length ts - 1) ts ! i =
           blend (ts ! i) (smooth_loop (length ts - 1) ts ! (i + 1))"
    using sp by simp
qed

text \<open>
  Where every total from position \<open>k\<close> on is a double at or above a level whose half
  is exact, so is every smoothed value from there on.
\<close>

lemma smooth_above:
  assumes "ts \<noteq> []" and "halvable l"
    and "\<forall>i. k \<le> i \<and> i < length ts \<longrightarrow> is_double (ts ! i) \<and> dle l (ts ! i)"
    and "k \<le> i" and "i < length ts"
  shows "is_double (smooth_loop (length ts - 1) ts ! i) \<and>
         dle l (smooth_loop (length ts - 1) ts ! i)"
  using assms(4,5)
proof (induction "length ts - 1 - i" arbitrary: i)
  case 0
  then have "i = length ts - 1"
    by simp
  then show ?case
    using smooth_suffix_spec(2) [OF assms(1)] assms(3) "0.prems" by simp
next
  case (Suc d)
  let ?sm = "smooth_loop (length ts - 1) ts"
  from Suc have i: "i < length ts - 1"
    by simp
  have next_one: "is_double (?sm ! (i + 1)) \<and> dle l (?sm ! (i + 1))"
    using Suc.hyps(2) Suc.prems i by (intro Suc.hyps(1)) simp_all
  have this_one: "is_double (ts ! i) \<and> dle l (ts ! i)"
    using assms(3) Suc.prems by simp
  have "?sm ! i = blend (ts ! i) (?sm ! (i + 1))"
    using smooth_suffix_spec(3) [OF assms(1)] i by simp
  then show ?case
    using next_one this_one assms(2) by (simp add: blend_is_double blend_above)
qed

lemma smooth_const:
  assumes "ts \<noteq> []" and "halvable b" and "\<forall>i. k \<le> i \<and> i < length ts \<longrightarrow> ts ! i = b"
    and "k \<le> i" and "i < length ts"
  shows "smooth_loop (length ts - 1) ts ! i = b"
  using assms(4,5)
proof (induction "length ts - 1 - i" arbitrary: i)
  case 0
  then have "i = length ts - 1"
    by simp
  then show ?case
    using smooth_suffix_spec(2) [OF assms(1)] assms(3) "0.prems" by simp
next
  case (Suc d)
  let ?sm = "smooth_loop (length ts - 1) ts"
  from Suc have i: "i < length ts - 1"
    by simp
  have "?sm ! (i + 1) = b"
    using Suc.hyps(2) Suc.prems i by (intro Suc.hyps(1)) simp_all
  moreover have "ts ! i = b"
    using assms(3) Suc.prems by simp
  moreover have "?sm ! i = blend (ts ! i) (?sm ! (i + 1))"
    using smooth_suffix_spec(3) [OF assms(1)] i by simp
  ultimately show ?case
    using blend_same [OF assms(2)] by simp
qed

lemma jump_of_cases:
  assumes "totals measured search_spots = Inr ts" and "search_spots \<noteq> []"
  shows "(\<exists>i < length ts - 1.
            crosses ts (smooth_loop (length ts - 1) ts) i \<and>
            (\<forall>j < i. \<not> crosses ts (smooth_loop (length ts - 1) ts) j) \<and>
            jump_of measured search_spots = Inr (search_spots ! i))
         \<or> ((\<forall>i < length ts - 1. \<not> crosses ts (smooth_loop (length ts - 1) ts) i) \<and>
             jump_of measured search_spots = Inr 0)"
proof -
  let ?sm = "smooth_loop (length ts - 1) ts"
  note tsp = totals_spec [OF assms(1)]
  then have len: "length ts = length search_spots"
    and sums: "\<forall>j < length search_spots. sum_c (measured (search_spots ! j)) = Inr (ts ! j)"
    by simp_all
  note js = jump_of_scan [OF assms]
  show ?thesis
  proof (cases "\<exists>i < length ts - 1. crosses ts ?sm i")
    case False
    then have "\<forall>j. 0 \<le> j \<and> j < length search_spots - 1 \<longrightarrow> \<not> crosses ts ?sm j"
      by (simp add: len)
    from scan_none [OF sums this] False show ?thesis
      by (simp add: js)
  next
    case True
    define k where "k = (LEAST i. i < length ts - 1 \<and> crosses ts ?sm i)"
    from True have "k < length ts - 1 \<and> crosses ts ?sm k"
      unfolding k_def by - (rule LeastI_ex, blast)
    then have k: "k < length search_spots - 1" and ck: "crosses ts ?sm k"
      by (simp_all add: len)
    have least: "\<forall>j. 0 \<le> j \<and> j < k \<longrightarrow> \<not> crosses ts ?sm j"
    proof (intro allI impI)
      fix j assume j: "0 \<le> j \<and> j < k"
      show "\<not> crosses ts ?sm j"
      proof
        assume "crosses ts ?sm j"
        then have "j < length ts - 1 \<and> crosses ts ?sm j"
          using j k len by simp
        then have "k \<le> j"
          unfolding k_def by (rule Least_le)
        then show False
          using j by simp
      qed
    qed
    from scan_first [OF sums le0 k ck least] have "jump_of measured search_spots = Inr (search_spots ! k)"
      by (simp add: js)
    then show ?thesis
      using k ck least len by auto
  qed
qed

lemma flat_no_crossing:
  assumes "halvable b" and "ts ! i = b" and "ts ! (i + 1) = b"
  shows "\<not> crosses ts sm i"
proof -
  have "ddiv (ts ! (i + 1)) (ts ! i) = Finite False 1"
    using assms by (simp add: ddiv_same)
  with one_below_1045 [of 1] show ?thesis
    by (simp add: crosses_def)
qed

lemma jump_step_curve:
  assumes "totals measured search_spots = Inr ts"
    and "halvable b" and "halvable l" and "dge (ddiv l b) (lit 1.12)"
    and "0 < k" and "k < length ts"
    and "\<forall>i < k. ts ! i = b"
    and "\<forall>i. k \<le> i \<and> i < length ts \<longrightarrow> is_double (ts ! i) \<and> dle l (ts ! i)"
  shows "jump_of measured search_spots = Inr (search_spots ! (k - 1))"
proof -
  let ?sm = "smooth_loop (length ts - 1) ts"
  note tsp = totals_spec [OF assms(1)]
  then have len: "length ts = length search_spots"
    and sums: "\<forall>j < length search_spots. sum_c (measured (search_spots ! j)) = Inr (ts ! j)"
    by simp_all
  have ne: "ts \<noteq> []" and ne': "search_spots \<noteq> []"
    using assms(6) len by auto
  have k1: "k - 1 < length search_spots - 1"
    using assms(5,6) len by simp
  have tk1: "ts ! (k - 1) = b"
    using assms(5,7) by simp
  have tk: "is_double (ts ! k) \<and> dle l (ts ! k)"
    using assms(6,8) by simp
  have sk: "is_double (?sm ! k) \<and> dle l (?sm ! k)"
    using smooth_above [OF ne assms(3,8) le_refl assms(6)] .
  have "dge (ddiv (ts ! k) b) (ddiv l b)" and "dge (ddiv (?sm ! k) b) (ddiv l b)"
    using tk sk assms(2,3) by (simp_all add: dge_def ddiv_above)
  then have a: "dge (ddiv (ts ! k) b) (lit 1.12)" and b: "dge (ddiv (?sm ! k) b) (lit 1.12)"
    using assms(4) by (auto intro: dge_trans)
  from a lit_112_ge_1045 have "dge (ddiv (ts ! k) b) (lit 1.045)"
    by (rule dge_trans)
  with b have cross: "crosses ts ?sm (k - 1)"
    using assms(5) tk1 by (simp add: crosses_def)
  have none: "\<forall>j. 0 \<le> j \<and> j < k - 1 \<longrightarrow> \<not> crosses ts ?sm j"
  proof (intro allI impI)
    fix j assume "0 \<le> j \<and> j < k - 1"
    then have "ts ! j = b" and "ts ! (j + 1) = b"
      using assms(7) by simp_all
    with assms(2) show "\<not> crosses ts ?sm j"
      by (intro flat_no_crossing)
  qed
  from scan_first [OF sums le0 k1 cross none] show ?thesis
    by (simp add: jump_of_scan [OF assms(1) ne'])
qed

lemma jump_spike_curve:
  assumes "totals measured search_spots = Inr ts"
    and "halvable b" and "is_double h" and "dle b h"
    and "p + 1 < length ts" and "ts ! p = h"
    and "\<forall>i < length ts. i \<noteq> p \<longrightarrow> ts ! i = b"
  shows "jump_of measured search_spots =
           Inr (if 0 < p \<and> dge (ddiv h b) (lit 1.045) \<and> dge (ddiv (blend h b) b) (lit 1.12)
                then search_spots ! (p - 1) else 0)"
proof -
  let ?sm = "smooth_loop (length ts - 1) ts"
  let ?test = "dge (ddiv h b) (lit 1.045) \<and> dge (ddiv (blend h b) b) (lit 1.12)"
  note tsp = totals_spec [OF assms(1)]
  then have len: "length ts = length search_spots"
    and sums: "\<forall>j < length search_spots. sum_c (measured (search_spots ! j)) = Inr (ts ! j)"
    by simp_all
  have ne: "ts \<noteq> []" and ne': "search_spots \<noteq> []"
    using assms(5) len by auto
  have after: "\<forall>i. p + 1 \<le> i \<and> i < length ts \<longrightarrow> ts ! i = b"
    using assms(7) by simp
  have smp1: "?sm ! (p + 1) = b"
    using smooth_const [OF ne assms(2) after le_refl assms(5)] .
  have "?sm ! p = blend (ts ! p) (?sm ! (p + 1))"
    using smooth_suffix_spec(3) [OF ne] assms(5) by simp
  then have smp: "?sm ! p = blend h b"
    using smp1 assms(6) by simp
  have other: "\<not> crosses ts ?sm j" if "j < length ts - 1" and "j + 1 \<noteq> p" for j
  proof (cases "j = p")
    case True
    have "ts ! (j + 1) = b"
      using that True assms(7) by simp
    then have "ddiv (ts ! (j + 1)) (ts ! j) = ddiv b h"
      using True assms(6) by simp
    with ddiv_below [OF assms(2,3,4)] show ?thesis
      by (simp add: crosses_def)
  next
    case False
    then have "ts ! j = b" and "ts ! (j + 1) = b"
      using that assms(7) by simp_all
    with assms(2) show ?thesis
      by (intro flat_no_crossing)
  qed
  have at: "crosses ts ?sm (p - 1) \<longleftrightarrow> ?test" if "0 < p"
  proof -
    have "ts ! (p - 1) = b"
      using that assms(5,7) by simp
    then show ?thesis
      using that smp assms(6) by (simp add: crosses_def)
  qed
  show ?thesis
  proof (cases "0 < p \<and> ?test")
    case True
    then have cross: "crosses ts ?sm (p - 1)"
      using at by simp
    have k1: "p - 1 < length search_spots - 1"
      using assms(5) len by simp
    have none: "\<forall>j. 0 \<le> j \<and> j < p - 1 \<longrightarrow> \<not> crosses ts ?sm j"
      using other assms(5) by simp
    from scan_first [OF sums le0 k1 cross none] True show ?thesis
      by (simp add: jump_of_scan [OF assms(1) ne'])
  next
    case False
    have none: "\<forall>j. 0 \<le> j \<and> j < length search_spots - 1 \<longrightarrow> \<not> crosses ts ?sm j"
    proof (intro allI impI)
      fix j assume j: "0 \<le> j \<and> j < length search_spots - 1"
      show "\<not> crosses ts ?sm j"
      proof (cases "j + 1 = p")
        case True
        then have "0 < p" and "j = p - 1"
          by simp_all
        with False at show ?thesis
          by simp
      next
        case False
        with j len show ?thesis
          by (intro other) simp_all
      qed
    qed
    from scan_none [OF sums none] False show ?thesis
      by (auto simp: jump_of_scan [OF assms(1) ne'])
  qed
qed

text \<open>
  C1 (as amended). \<open>find_jump\<close> measures, then works on the totals per spots
  value. For a non-empty spots sequence whose totals are defined: the smoothed suffix
  ends in the last total and satisfies
  \<open>smoothed[i] = total[i] * 0.5 + smoothed[i + 1] * (1 - 0.5)\<close> below it, in double
  arithmetic, and the result is the spots value at the first position whose test
  succeeds, or 0 when none does. The test at \<open>i\<close> says that the double quotient of
  the next total by the total at \<open>i\<close> is at least the double 1.045 and the double
  quotient of the smoothed value one position ahead by the total at \<open>i\<close> at least the
  double 1.12. For a curve that is flat at a level \<open>b\<close> for its first \<open>k\<close> values
  and from then on at or above a level \<open>l\<close> whose double quotient by \<open>b\<close> is at
  least 1.12, the result is the spots value just before the step. For a curve at a
  level \<open>b\<close> except for one spike \<open>h\<close> above it, not at the last position, the
  result is the spots value before the spike when the spike is not at the first
  position and the double quotients of \<open>h\<close> and of \<open>h * 0.5 + b * 0.5\<close> by \<open>b\<close>
  are at least 1.045 and 1.12, and 0 otherwise. The levels are positive doubles whose
  half is a double.
\<close>

theorem find_jump_rule:
  "find_jump_by method stride search_spots st =
     bind_out (measure_c stride search_spots method st) (\<lambda>(measured, st1).
       Some (bind_err (jump_of measured search_spots) (\<lambda>spots. Inr (spots, st1))))
   \<and> (totals measured search_spots = Inr ts \<and> search_spots \<noteq> [] \<longrightarrow>
        length ts = length search_spots
        \<and> (\<forall>i < length search_spots. sum_c (measured (search_spots ! i)) = Inr (ts ! i))
        \<and> length (smooth_loop (length ts - 1) ts) = length ts
        \<and> smooth_loop (length ts - 1) ts ! (length ts - 1) = ts ! (length ts - 1)
        \<and> (\<forall>i < length ts - 1. smooth_loop (length ts - 1) ts ! i =
              blend (ts ! i) (smooth_loop (length ts - 1) ts ! (i + 1)))
        \<and> ((\<exists>i < length ts - 1.
               crosses ts (smooth_loop (length ts - 1) ts) i \<and>
               (\<forall>j < i. \<not> crosses ts (smooth_loop (length ts - 1) ts) j) \<and>
               jump_of measured search_spots = Inr (search_spots ! i))
            \<or> ((\<forall>i < length ts - 1. \<not> crosses ts (smooth_loop (length ts - 1) ts) i) \<and>
                jump_of measured search_spots = Inr 0)))
   \<and> blend x y = dadd (dmul x (lit 0.5)) (dmul y (dsub (lit 1) (lit 0.5)))
   \<and> crosses us sm i =
        (dge (ddiv (us ! (i + 1)) (us ! i)) (lit 1.045) \<and>
         dge (ddiv (sm ! (i + 1)) (us ! i)) (lit 1.12))
   \<and> (totals measured search_spots = Inr ts \<and> halvable b \<and> halvable l \<and>
        dge (ddiv l b) (lit 1.12) \<and> 0 < k \<and> k < length ts \<and>
        (\<forall>i < k. ts ! i = b) \<and>
        (\<forall>i. k \<le> i \<and> i < length ts \<longrightarrow> is_double (ts ! i) \<and> dle l (ts ! i)) \<longrightarrow>
        jump_of measured search_spots = Inr (search_spots ! (k - 1)))
   \<and> (totals measured search_spots = Inr ts \<and> halvable b \<and> is_double h \<and> dle b h \<and>
        p + 1 < length ts \<and> ts ! p = h \<and> (\<forall>i < length ts. i \<noteq> p \<longrightarrow> ts ! i = b) \<longrightarrow>
        jump_of measured search_spots =
          Inr (if 0 < p \<and> dge (ddiv h b) (lit 1.045) \<and> dge (ddiv (blend h b) b) (lit 1.12)
               then search_spots ! (p - 1) else 0))"
proof (intro conjI impI)
  show "find_jump_by method stride search_spots st =
     bind_out (measure_c stride search_spots method st) (\<lambda>(measured, st1).
       Some (bind_err (jump_of measured search_spots) (\<lambda>spots. Inr (spots, st1))))"
    by (simp add: find_jump_by_def)
next
  assume a: "totals measured search_spots = Inr ts \<and> search_spots \<noteq> []"
  then have t: "totals measured search_spots = Inr ts" and ne: "search_spots \<noteq> []"
    by simp_all
  note tsp = totals_spec [OF t]
  then have tne: "ts \<noteq> []"
    using ne by auto
  show "length ts = length search_spots"
    using tsp by simp
  show "\<forall>i < length search_spots. sum_c (measured (search_spots ! i)) = Inr (ts ! i)"
    using tsp by simp
  show "length (smooth_loop (length ts - 1) ts) = length ts"
    using tne by (rule smooth_suffix_spec(1))
  show "smooth_loop (length ts - 1) ts ! (length ts - 1) = ts ! (length ts - 1)"
    using tne by (rule smooth_suffix_spec(2))
  show "\<forall>i < length ts - 1. smooth_loop (length ts - 1) ts ! i =
              blend (ts ! i) (smooth_loop (length ts - 1) ts ! (i + 1))"
    using tne by (rule smooth_suffix_spec(3))
  show "(\<exists>i < length ts - 1.
               crosses ts (smooth_loop (length ts - 1) ts) i \<and>
               (\<forall>j < i. \<not> crosses ts (smooth_loop (length ts - 1) ts) j) \<and>
               jump_of measured search_spots = Inr (search_spots ! i))
            \<or> ((\<forall>i < length ts - 1. \<not> crosses ts (smooth_loop (length ts - 1) ts) i) \<and>
                jump_of measured search_spots = Inr 0)"
    using t ne by (rule jump_of_cases)
next
  show "blend x y = dadd (dmul x (lit 0.5)) (dmul y (dsub (lit 1) (lit 0.5)))"
    by (simp only: blend_def alpha_def)
next
  show "crosses us sm i =
        (dge (ddiv (us ! (i + 1)) (us ! i)) (lit 1.045) \<and>
         dge (ddiv (sm ! (i + 1)) (us ! i)) (lit 1.12))"
    by (simp only: crosses_def)
next
  assume "totals measured search_spots = Inr ts \<and> halvable b \<and> halvable l \<and>
        dge (ddiv l b) (lit 1.12) \<and> 0 < k \<and> k < length ts \<and>
        (\<forall>i < k. ts ! i = b) \<and>
        (\<forall>i. k \<le> i \<and> i < length ts \<longrightarrow> is_double (ts ! i) \<and> dle l (ts ! i))"
  then show "jump_of measured search_spots = Inr (search_spots ! (k - 1))"
    by (intro jump_step_curve [of measured search_spots ts b l k]) simp_all
next
  assume "totals measured search_spots = Inr ts \<and> halvable b \<and> is_double h \<and> dle b h \<and>
        p + 1 < length ts \<and> ts ! p = h \<and> (\<forall>i < length ts. i \<noteq> p \<longrightarrow> ts ! i = b)"
  then show "jump_of measured search_spots =
          Inr (if 0 < p \<and> dge (ddiv h b) (lit 1.045) \<and> dge (ddiv (blend h b) b) (lit 1.12)
               then search_spots ! (p - 1) else 0)"
    by (intro jump_spike_curve [of measured search_spots ts b h p]) simp_all
qed

lemma curve_totals:
  "totals (curve_results [c1, c2, c3, c4, c5]) [1, 2, 3, 4, 5] = Inr [c1, c2, c3, c4, c5]"
  by (simp add: curve_results_def sum_c_def)

lemma nth_five:
  assumes "i < 5" and "P (0 :: nat)" and "P 1" and "P 2" and "P 3" and "P 4"
  shows "P i"
proof -
  from assms(1) have "i = 0 \<or> i = 1 \<or> i = 2 \<or> i = 3 \<or> i = 4"
    by auto
  with assms(2-) show ?thesis
    by auto
qed

lemma halvable_one: "halvable (Finite False 1)"
  using halvable_dyadic [of 1 0] by simp

lemma double_three: "is_double (Finite False 3)"
  using lit_is_double [of 3] by simp

text \<open>A spike of three times the baseline: both quotients pass, the smoothed one is 2.\<close>

lemma spike_three:
  "dge (ddiv (Finite False 3) (Finite False 1)) (lit 1.045)"
  "blend (Finite False 3) (Finite False 1) = Finite False 2"
  "dge (ddiv (Finite False 2) (Finite False 1)) (lit 1.12)"
proof -
  show "dge (ddiv (Finite False 3) (Finite False 1)) (lit 1.045)"
    using lit_1045 by (auto simp: dge_def)
  have "rnd False (3 / 2) = Finite False (3 / 2)"
    using rnd_dyadic [of 3 1 False] by simp
  then show "blend (Finite False 3) (Finite False 1) = Finite False 2"
    by (simp add: blend_finite round_real_def)
  show "dge (ddiv (Finite False 2) (Finite False 1)) (lit 1.12)"
    using lit_112 by (auto simp: dge_def)
qed

lemma spike_example:
  "jump_of (curve_results [Finite False 1, Finite False 1, Finite False 3, Finite False 1,
                           Finite False 1]) [1, 2, 3, 4, 5] = Inr 2"
proof -
  let ?ts = "[Finite False 1, Finite False 1, Finite False 3, Finite False 1, Finite False 1]"
  have others: "\<forall>i < length ?ts. i \<noteq> 2 \<longrightarrow> ?ts ! i = Finite False 1"
  proof (intro allI impI)
    fix i :: nat
    assume "i < length ?ts" and "i \<noteq> 2"
    then have "i = 0 \<or> i = 1 \<or> i = 3 \<or> i = 4"
      by auto
    then show "?ts ! i = Finite False 1"
      by auto
  qed
  have "jump_of (curve_results ?ts) [1, 2, 3, 4, 5] =
      Inr (if 0 < (2 :: nat) \<and> dge (ddiv (Finite False 3) (Finite False 1)) (lit 1.045) \<and>
              dge (ddiv (blend (Finite False 3) (Finite False 1)) (Finite False 1)) (lit 1.12)
           then [1, 2, 3, 4, 5] ! (2 - 1) else 0)"
    using others
    by (intro jump_spike_curve [OF curve_totals halvable_one double_three]) simp_all
  then show ?thesis
    by (simp only: spike_three) simp
qed

text \<open>
  C1 as stated says that a single transient spike does not trigger the detector. A
  spike of three times the baseline does: the smoothed value at the spike is 2.
\<close>

theorem spike_triggers_counterexample:
  "totals (curve_results [lit 1, lit 1, lit 3, lit 1, lit 1]) [1, 2, 3, 4, 5] =
     Inr [lit 1, lit 1, lit 3, lit 1, lit 1]
   \<and> jump_of (curve_results [lit 1, lit 1, lit 3, lit 1, lit 1]) [1, 2, 3, 4, 5] = Inr 2"
proof -
  have ts: "[lit 1, lit 1, lit 3, lit 1, lit 1] =
      [Finite False 1, Finite False 1, Finite False 3, Finite False 1, Finite False 1]"
    by simp
  show ?thesis
    unfolding ts by (simp only: curve_totals spike_example simp_thms)
qed

lemma rnd_quarters:
  "rnd s (5 / 4) = Finite s (5 / 4)" "rnd s (9 / 16) = Finite s (9 / 16)"
  "rnd s (17 / 16) = Finite s (17 / 16)" "rnd s (9 / 8) = Finite s (9 / 8)"
  using rnd_dyadic [of 5 2 s] rnd_dyadic [of 9 4 s] rnd_dyadic [of 17 4 s] rnd_dyadic [of 9 3 s]
  by simp_all

lemma step_level:
  "halvable (Finite False (5 / 4))" "halvable (Finite False (3 / 2))"
  "halvable (Finite False (9 / 8))"
  "dge (ddiv (Finite False (5 / 4)) (Finite False 1)) (lit 1.12)"
proof -
  show "halvable (Finite False (5 / 4))" "halvable (Finite False (3 / 2))"
    "halvable (Finite False (9 / 8))"
    using halvable_dyadic [of 5 2] halvable_dyadic [of 3 1] halvable_dyadic [of 9 3]
    by simp_all
  show "dge (ddiv (Finite False (5 / 4)) (Finite False 1)) (lit 1.12)"
    using lit_112 by (auto simp: dge_def rnd_quarters)
qed

lemma small_spike:
  "blend (Finite False (9 / 8)) (Finite False 1) = Finite False (17 / 16)"
  "\<not> dge (ddiv (Finite False (17 / 16)) (Finite False 1)) (lit 1.12)"
proof -
  show "blend (Finite False (9 / 8)) (Finite False 1) = Finite False (17 / 16)"
    by (simp add: blend_finite rnd_quarters round_real_def)
  show "\<not> dge (ddiv (Finite False (17 / 16)) (Finite False 1)) (lit 1.12)"
    using lit_112 by (auto simp: dge_def rnd_quarters)
qed

theorem find_jump_rule_witness:
  "totals (curve_results [Finite False 1, Finite False 1, Finite False (5 / 4),
                          Finite False (5 / 4), Finite False (3 / 2)]) [1, 2, 3, 4, 5] =
     Inr [Finite False 1, Finite False 1, Finite False (5 / 4), Finite False (5 / 4),
          Finite False (3 / 2)]
   \<and> halvable (Finite False 1) \<and> halvable (Finite False (5 / 4))
   \<and> dge (ddiv (Finite False (5 / 4)) (Finite False 1)) (lit 1.12)
   \<and> jump_of (curve_results [Finite False 1, Finite False 1, Finite False (5 / 4),
                             Finite False (5 / 4), Finite False (3 / 2)]) [1, 2, 3, 4, 5] = Inr 2
   \<and> totals (curve_results [Finite False 1, Finite False 1, Finite False (9 / 8),
                            Finite False 1, Finite False 1]) [1, 2, 3, 4, 5] =
       Inr [Finite False 1, Finite False 1, Finite False (9 / 8), Finite False 1, Finite False 1]
   \<and> is_double (Finite False (9 / 8)) \<and> dle (Finite False 1) (Finite False (9 / 8))
   \<and> \<not> dge (ddiv (blend (Finite False (9 / 8)) (Finite False 1)) (Finite False 1)) (lit 1.12)
   \<and> jump_of (curve_results [Finite False 1, Finite False 1, Finite False (9 / 8),
                             Finite False 1, Finite False 1]) [1, 2, 3, 4, 5] = Inr 0"
proof -
  let ?b = "Finite False 1" and ?l = "Finite False (5 / 4)" and ?h = "Finite False (9 / 8)"
  let ?step = "[?b, ?b, ?l, ?l, Finite False (3 / 2)]" and ?spike = "[?b, ?b, ?h, ?b, ?b]"
  let ?spots = "[1, 2, 3, 4, 5 :: u64]"
  have t1: "totals (curve_results ?step) ?spots = Inr ?step"
    and t2: "totals (curve_results ?spike) ?spots = Inr ?spike"
    by (rule curve_totals)+
  have flat: "\<forall>i < 2. ?step ! i = ?b"
    by (auto simp: less_Suc_eq numeral_2_eq_2)
  have up: "\<forall>i. 2 \<le> i \<and> i < length ?step \<longrightarrow> is_double (?step ! i) \<and> dle ?l (?step ! i)"
  proof (intro allI impI)
    fix i :: nat
    assume "2 \<le> i \<and> i < length ?step"
    then have "i = 2 \<or> i = 3 \<or> i = 4"
      by auto
    then show "is_double (?step ! i) \<and> dle ?l (?step ! i)"
      using step_level(1,2) [THEN halvable_is_double] by auto
  qed
  have h1: "totals (curve_results ?step) ?spots = Inr ?step \<and> halvable ?b \<and> halvable ?l \<and>
      dge (ddiv ?l ?b) (lit 1.12) \<and> (0 :: nat) < 2 \<and> 2 < length ?step \<and>
      (\<forall>i < 2. ?step ! i = ?b) \<and>
      (\<forall>i. 2 \<le> i \<and> i < length ?step \<longrightarrow> is_double (?step ! i) \<and> dle ?l (?step ! i))"
    using t1 flat up halvable_one step_level(1,4) by simp
  have base: "\<forall>i < length ?spike. i \<noteq> 2 \<longrightarrow> ?spike ! i = ?b"
  proof (intro allI impI)
    fix i :: nat
    assume "i < length ?spike" and "i \<noteq> 2"
    then have "i = 0 \<or> i = 1 \<or> i = 3 \<or> i = 4"
      by auto
    then show "?spike ! i = ?b"
      by auto
  qed
  have dh: "is_double ?h"
    using step_level(3) by (rule halvable_is_double)
  have h2: "totals (curve_results ?spike) ?spots = Inr ?spike \<and> halvable ?b \<and> is_double ?h \<and>
      dle ?b ?h \<and> 2 + 1 < length ?spike \<and> ?spike ! 2 = ?h \<and>
      (\<forall>i < length ?spike. i \<noteq> 2 \<longrightarrow> ?spike ! i = ?b)"
    using t2 base halvable_one dh by simp
  note r = find_jump_rule [where search_spots = ?spots and measured = "curve_results ?step"
      and ts = ?step and b = ?b and l = ?l and k = 2]
  note r' = find_jump_rule [where search_spots = ?spots and measured = "curve_results ?spike"
      and ts = ?spike and b = ?b and h = ?h and p = 2]
  have j1: "jump_of (curve_results ?step) ?spots = Inr (?spots ! (2 - 1))"
    using r [THEN conjunct2, THEN conjunct2, THEN conjunct2, THEN conjunct2, THEN conjunct1,
        THEN mp, OF h1] .
  have j2: "jump_of (curve_results ?spike) ?spots =
      Inr (if 0 < (2 :: nat) \<and> dge (ddiv ?h ?b) (lit 1.045) \<and>
              dge (ddiv (blend ?h ?b) ?b) (lit 1.12)
           then ?spots ! (2 - 1) else 0)"
    using r' [THEN conjunct2, THEN conjunct2, THEN conjunct2, THEN conjunct2, THEN conjunct2,
        THEN mp, OF h2] .
  have no: "\<not> dge (ddiv (blend ?h ?b) ?b) (lit 1.12)"
    unfolding small_spike(1) by (rule small_spike(2))
  have j2': "jump_of (curve_results ?spike) ?spots = Inr 0"
    using j2 no by (simp only: simp_thms if_False)
  have j1': "jump_of (curve_results ?step) ?spots = Inr 2"
    using j1 by simp
  have le: "dle ?b ?h"
    by simp
  from t1 t2 halvable_one step_level(1,4) j1' dh le no j2' show ?thesis
    by (intro conjI)
qed

text \<open>
  Rounding at the thresholds. A spike of the double 1.24 over the baseline 1 has the
  smoothed value \<open>1.24 * 0.5 + 1 * 0.5\<close>, which lies halfway between two doubles
  and is rounded to the even one, the double 1.12: the second test succeeds with
  equality and the spike triggers the detector.
\<close>

lemma tie_blend: "blend (lit 1.24) (Finite False 1) = lit 1.12"
proof -
  have h: "rnd False (5584463537939415 / 2 ^ 52 * (1 / 2)) =
      Finite False (5584463537939415 / 2 ^ 53)"
    using rnd_dyadic [of 5584463537939415 53 False] by simp
  have s: "rnd False (5584463537939415 / 2 ^ 53 + 1 / 2) =
      Finite False (of_int 5044031582654956 / 2 ^ 52)"
    by (rule rnd_unit) (simp_all add: round_even_def)
  have "blend (Finite False (5584463537939415 / 2 ^ 52)) (Finite False 1) =
      dadd (Finite False (5584463537939415 / 2 ^ 53)) (Finite False (1 / 2))"
    unfolding blend_finite h by simp
  also have "\<dots> = Finite False (5044031582654956 / 2 ^ 52)"
    using s by (simp add: round_real_def)
  finally show ?thesis
    unfolding lit_values .
qed

lemma tie_spike_example:
  "jump_of (curve_results [lit 1, lit 1, lit 1.24, lit 1, lit 1]) [1, 2, 3, 4, 5] = Inr 2"
proof -
  let ?b = "Finite False 1" and ?h = "lit 1.24"
  let ?ts = "[?b, ?b, ?h, ?b, ?b]"
  have others: "\<forall>i < length ?ts. i \<noteq> 2 \<longrightarrow> ?ts ! i = ?b"
  proof (intro allI impI)
    fix i :: nat
    assume "i < length ?ts" and "i \<noteq> 2"
    then have "i = 0 \<or> i = 1 \<or> i = 3 \<or> i = 4"
      by auto
    then show "?ts ! i = ?b"
      by auto
  qed
  have above: "dle ?b ?h"
    unfolding lit_values by simp
  have q1: "dge (ddiv ?h ?b) (lit 1.045)"
    unfolding ddiv_one [OF lit_is_double] unfolding lit_values by (simp add: dge_def)
  have "ddiv (blend ?h ?b) ?b = lit 1.12"
    unfolding tie_blend by (rule ddiv_one [OF lit_is_double])
  then have q2: "dge (ddiv (blend ?h ?b) ?b) (lit 1.12)"
    unfolding lit_values by (simp add: dge_def)
  have "jump_of (curve_results ?ts) [1, 2, 3, 4, 5] =
      Inr (if 0 < (2 :: nat) \<and> dge (ddiv ?h ?b) (lit 1.045) \<and>
              dge (ddiv (blend ?h ?b) ?b) (lit 1.12)
           then [1, 2, 3, 4, 5] ! (2 - 1) else 0)"
    using others above
    by (intro jump_spike_curve [OF curve_totals halvable_one lit_is_double]) simp_all
  then have "jump_of (curve_results ?ts) [1, 2, 3, 4, 5] = Inr 2"
    using q1 q2 by simp
  then show ?thesis
    by simp
qed

text \<open>
  A total that is the double 1.045 times the one before it passes the first test with
  equality: on the totals 1, 1.045, 4, 4, 4 the result is the first spots value.
\<close>

lemma halvable_four: "halvable (Finite False 4)"
  using halvable_dyadic [of 4 0] by simp

lemma blend_boundary:
  "dge (blend (lit 1.045) (Finite False 4)) (lit 1.12)"
proof -
  have h: "rnd False (4706261610602168 / 2 ^ 52 * (1 / 2)) =
      Finite False (4706261610602168 / 2 ^ 53)"
    using rnd_dyadic [of 4706261610602168 53 False] by simp
  have b: "blend (Finite False (4706261610602168 / 2 ^ 52)) (Finite False 4) =
      rnd False (4706261610602168 / 2 ^ 53 + 2)"
    unfolding blend_finite h by (simp add: round_real_def)
  have "nearest 2 = 2"
    using nearest_exact [of 2 0] by simp
  with rnd_above [of 2 "4706261610602168 / 2 ^ 53 + 2"]
  consider c where "rnd False (4706261610602168 / 2 ^ 53 + 2) = Finite False c" and "2 \<le> c"
    | "rnd False (4706261610602168 / 2 ^ 53 + 2) = Infinity False"
    by auto
  then show ?thesis
    unfolding lit_values b by cases (simp_all add: dge_def)
qed

lemma boundary_example:
  "jump_of (curve_results [lit 1, lit 1.045, lit 4, lit 4, lit 4]) [1, 2, 3, 4, 5] = Inr 1"
proof -
  let ?b = "Finite False 1" and ?c = "lit 1.045" and ?l = "Finite False 4"
  let ?ts = "[?b, ?c, ?l, ?l, ?l]"
  let ?spots = "[1, 2, 3, 4, 5 :: u64]"
  let ?sm = "smooth_loop (length ?ts - 1) ?ts"
  have t: "totals (curve_results ?ts) ?spots = Inr ?ts"
    by (rule curve_totals)
  have sums: "\<forall>j < length ?spots. sum_c (curve_results ?ts (?spots ! j)) = Inr (?ts ! j)"
    using totals_spec [OF t] by blast
  have "?sm ! 1 = blend ?c ?l"
    by (simp add: eval_nat_numeral blend_same [OF halvable_four])
  then have "ddiv (?sm ! 1) ?b = blend ?c ?l"
    using ddiv_one [OF blend_is_double [OF lit_is_double halvable_is_double [OF halvable_four]]]
    by simp
  then have q2: "dge (ddiv (?sm ! (0 + 1)) (?ts ! 0)) (lit 1.12)"
    using blend_boundary by simp
  have "ddiv ?c ?b = ?c"
    by (rule ddiv_one [OF lit_is_double])
  then have q1: "dge (ddiv (?ts ! (0 + 1)) (?ts ! 0)) (lit 1.045)"
    unfolding lit_values by (simp add: dge_def)
  have "crosses ?ts ?sm 0"
    unfolding crosses_def using q1 q2 by blast
  then have "scan_loop (curve_results ?ts) ?spots ?sm 0 = Inr (?spots ! 0)"
    by (intro scan_first [OF sums]) simp_all
  moreover have "jump_of (curve_results ?ts) ?spots =
      scan_loop (curve_results ?ts) ?spots ?sm 0"
    by (rule jump_of_scan [OF t]) simp
  ultimately have "jump_of (curve_results ?ts) ?spots = Inr (?spots ! 0)"
    by (simp only:)
  then show ?thesis
    by simp
qed

subsection \<open>The distances of \<open>find_rest_spots\<close>\<close>

lemma sum_c_empty: "sum_c [] = Inl EmptyVector"
  by (simp add: sum_c_def)

lemma sum_c_nonempty: "container \<noteq> [] \<Longrightarrow> \<exists>t. sum_c container = Inr t"
  by (cases container) (simp_all add: sum_c_def)

lemma sum_c_single [simp]: "sum_c [x] = Inr x"
  by (simp add: sum_c_def)

text \<open>
  The loop reads, for every spots value \<open>s\<close>, the previous total at \<open>s\<close>, the new
  total at \<open>s\<close> and the new total at \<open>s / 2 + s % 2\<close>.
\<close>

lemma distances_terms:
  assumes "\<forall>s \<in> set all_spots.
             sum_c (prev_measured s) = Inr (p s) \<and> sum_c (new_measured s) = Inr (n s) \<and>
             sum_c (new_measured (s div 2 + s mod 2)) = Inr (h s)"
  shows "distances cbrt prev_measured new_measured all_spots full half =
           Inr (foldl (\<lambda>a s. dadd a (cbrt (dabs (dsub (p s) (n s))))) full all_spots,
                foldl (\<lambda>a s. dadd a (cbrt (dabs (dsub (p s) (h s))))) half all_spots)"
  using assms by (induction all_spots arbitrary: full half) simp_all

lemma half_rounds_up:
  fixes spots :: u64
  shows "unat (spots div 2 + spots mod 2) = (unat spots + 1) div 2"
proof -
  have d: "unat (spots div 2) = unat spots div 2" and m: "unat (spots mod 2) = unat spots mod 2"
    by (simp_all add: unat_div unat_mod)
  have "unat spots < 2 ^ 64"
    using unsigned_less [of spots, where 'a = nat] by simp
  then have "unat spots div 2 + unat spots mod 2 < 2 ^ 64"
    by linarith
  then have "unat (spots div 2 + spots mod 2) = unat spots div 2 + unat spots mod 2"
    using unat_add_small [of "spots div 2" "spots mod 2"] by (simp add: d m)
  then show ?thesis
    by presburger
qed

lemma root3_cubes: "root 3 0 = 0" "root 3 1 = 1" "root 3 8 = 2" "root 3 27 = 3"
proof -
  show "root 3 0 = 0" "root 3 1 = 1"
    by simp_all
  have "root 3 (2 ^ 3) = 2"
    by (rule real_root_pos_unique) simp_all
  then show "root 3 8 = 2"
    by simp
  have "root 3 (3 ^ 3) = 3"
    by (rule real_root_pos_unique) simp_all
  then show "root 3 27 = 3"
    by simp
qed

lemma cbrt_rn_cubes [simp]:
  "cbrt_rn (Finite False 0) = Finite False 0" "cbrt_rn (Finite False 1) = Finite False 1"
  "cbrt_rn (Finite False 8) = Finite False 2" "cbrt_rn (Finite False 27) = Finite False 3"
  by (simp_all add: root3_cubes)

lemma example_distances:
  "distances cbrt_rn example_prev example_new [1, 2, 3] (lit 0) (lit 0) = Inr (lit 3, lit 5)"
  by (simp add: example_prev_def example_new_def dsub_def round_real_def)

lemma example_rounded_down:
  "half_distance_rounded_down cbrt_rn example_prev example_new [1, 2, 3] (lit 0) = Inr (lit 6)"
  by (simp add: example_prev_def example_new_def dsub_def round_real_def)

lemma example_unmeasured:
  "distances cbrt example_prev example_gap [3] (lit 0) (lit 0) = Inl EmptyVector"
  by (simp add: example_prev_def example_gap_def sum_c_empty)

lemma make_spots_512: "make_spots 512 = Some (Inr (map of_nat [1..<66]))"
  by (simp add: make_spots_def make_spots_loop.simps next_spots_def step_def
      max_discover_mem_def upt_rec)

lemma new_spots_set:
  "set (new_spots xs) = set xs \<union> {s div 2 |s. s \<in> set xs \<and> 1 < s}"
  by (auto simp: new_spots_def split: if_splits)

lemma new_spots_distinct: "distinct (new_spots xs)"
  by (simp add: new_spots_def)

text \<open>
  C2. The half distance of \<open>find_rest_spots\<close> is to compare the previous total at a
  spots value \<open>s\<close> with the new total at \<open>s\<close> halved and rounded down, the value
  that the loop has put into the measured set for \<open>s\<close>. The source reads the new
  total at \<open>s / 2 + s % 2\<close> instead. \<open>make_spots(512)\<close> is 1, 2, ..., 65; for its
  first three values, with one trial each (previous 10, 10, 10, new 2, 9, 10) and a
  correctly rounded cube root, the source computes the half distance 5 where the
  half rounded down gives 6; and where only 3 and its half 1 are measured, the source
  reads the total of the unmeasured 2, an empty vector.
\<close>

theorem half_key_divergence:
  "make_spots 512 = Some (Inr (map of_nat [1..<66]))
   \<and> take 3 (map of_nat [1..<66]) = [1, 2, 3 :: u64]
   \<and> (3 :: u64) div 2 = 1 \<and> 1 \<in> set (new_spots [1, 2, 3])
   \<and> (3 :: u64) div 2 + 3 mod 2 = 2
   \<and> distances cbrt_rn example_prev example_new [1, 2, 3] (lit 0) (lit 0) = Inr (lit 3, lit 5)
   \<and> half_distance_rounded_down cbrt_rn example_prev example_new [1, 2, 3] (lit 0) = Inr (lit 6)
   \<and> set (new_spots [3]) = {3, 1}
   \<and> distances cbrt_rn example_prev example_gap [3] (lit 0) (lit 0) = Inl EmptyVector"
proof -
  have "take 3 (map of_nat [1..<66]) = [1, 2, 3 :: u64]"
    by (simp add: upt_rec)
  moreover have "(3 :: u64) div 2 = 1" and "(3 :: u64) div 2 + 3 mod 2 = 2"
    by simp_all
  moreover have "1 \<in> set (new_spots [1, 2, 3])" and "set (new_spots [3]) = {3, 1}"
    by (auto simp: new_spots_set)
  ultimately show ?thesis
    using make_spots_512 example_distances example_rounded_down
      example_unmeasured [of cbrt_rn]
    by (intro conjI)
qed

subsection \<open>The run of \<open>main\<close>\<close>

declare dec.simps [simp del]

lemma bind_out_Some_Inr:
  assumes "bind_out m f = Some (Inr y)"
  obtains x where "m = Some (Inr x)" and "f x = Some (Inr y)"
proof (cases m)
  case None
  with assms show thesis
    by (simp add: bind_out_def)
next
  case (Some r)
  with assms show thesis
    by (cases r) (auto simp: bind_out_def intro: that)
qed

lemma bind_out_returns:
  "m = Some (Inr x) \<Longrightarrow> bind_out m f = f x"
  by (simp add: bind_out_def)

lemma make_spots_loop_extends:
  assumes "make_spots_loop stride max_spots spots result = Some xs"
  shows "\<exists>ys. xs = result @ ys"
proof (rule make_spots_loop.raw_induct
    [where P = "\<lambda>(s :: u64) (m :: u64) (sp :: u64) result xs. \<exists>ys. xs = result @ ys", OF _ assms])
  fix loop :: "u64 \<Rightarrow> u64 \<Rightarrow> u64 \<Rightarrow> u64 list \<Rightarrow> u64 list option"
    and stride max_spots spots :: u64 and result xs :: "u64 list"
  assume ih: "\<And>s m sp res y. loop s m sp res = Some y \<Longrightarrow> \<exists>ys. y = res @ ys"
    and body: "(if spots \<le> max_spots
        then loop stride max_spots (next_spots stride spots) (result @ [spots])
        else Some result) = Some xs"
  show "\<exists>ys. xs = result @ ys"
  proof (cases "spots \<le> max_spots")
    case True
    with body have "loop stride max_spots (next_spots stride spots) (result @ [spots]) = Some xs"
      by simp
    then have "\<exists>ys. xs = (result @ [spots]) @ ys"
      by (rule ih)
    then show ?thesis
      by auto
  next
    case False
    with body show ?thesis
      by simp
  qed
qed

lemma double_even: "(w :: u64) * 2 mod 2 = 0"
proof -
  have "unat (w * 2) mod 2 = (unat w * 2 mod 2 ^ 64) mod 2"
    by (simp add: unat_word_ariths)
  also have "\<dots> = unat w * 2 mod 2"
    by (rule mod_mod_cancel) simp
  finally have "unat (w * 2 mod 2) = 0"
    by (simp add: unat_mod)
  then show ?thesis
    by (simp add: unat_eq_0)
qed

lemma make_spots_nonempty:
  assumes "make_spots stride = Some (Inr xs)" and "xs \<noteq> []"
  shows "hd xs = 1" and "stride \<noteq> 0" and "unat stride \<le> 2 ^ 15"
proof -
  show nz: "stride \<noteq> 0"
    using assms(1) by (auto simp: make_spots_def)
  let ?m = "next_spots stride (max_discover_mem div stride)"
  have loop: "make_spots_loop stride ?m 1 [] = Some xs"
    using assms(1) nz by (auto simp: make_spots_def)
  have one: "1 \<le> ?m"
  proof (rule ccontr)
    assume "\<not> 1 \<le> ?m"
    then have "make_spots_loop stride ?m 1 [] = Some []"
      by (subst make_spots_loop.simps) simp
    with loop assms(2) show False
      by simp
  qed
  then have "make_spots_loop stride ?m (next_spots stride 1) ([] @ [1]) = Some xs"
    using loop by (subst (asm) make_spots_loop.simps) simp
  then obtain ys where "xs = ([] @ [1]) @ ys"
    using make_spots_loop_extends by blast
  then show "hd xs = 1"
    by simp
  show "unat stride \<le> 2 ^ 15"
  proof (rule ccontr)
    assume "\<not> unat stride \<le> 2 ^ 15"
    then have "unat (max_discover_mem div stride) = 0"
      by (simp add: unat_div max_discover_mem_def)
    then have "max_discover_mem div stride = 0"
      by (simp add: unat_eq_0)
    then have "?m = 0"
      by (simp add: next_spots_def step_def)
    with one show False
      by simp
  qed
qed

lemma distances_empty:
  "distances cbrt prev_measured new_measured [] (lit 0) (lit 0) = Inr (lit 0, lit 0)"
  by simp

lemma rest_loop_front:
  assumes "rest_loop cbrt meth initial_stride stride0 all_spots prev_measured st = Some r"
  shows "initial_stride = 2 \<longrightarrow> make_spots stride0 = Some (Inr all_spots) \<longrightarrow>
         stride0 mod 2 = 0 \<longrightarrow>
         (\<forall>rest st'. r = Inr (rest, st') \<longrightarrow> rest \<noteq> [] \<and> hd rest \<noteq> 0)"
proof (rule rest_loop.raw_induct
    [where P = "\<lambda>(cbrt :: double \<Rightarrow> double) (meth :: measure_method) initial_stride stride0 all_spots
                  (prev_measured :: results) (st :: machine) r.
       initial_stride = 2 \<longrightarrow> make_spots stride0 = Some (Inr all_spots) \<longrightarrow>
         stride0 mod 2 = 0 \<longrightarrow>
         (\<forall>rest (st' :: machine). r = Inr (rest, st') \<longrightarrow> rest \<noteq> [] \<and> hd rest \<noteq> 0)",
     OF _ assms])
  fix loop :: "(double \<Rightarrow> double) \<Rightarrow> measure_method \<Rightarrow> u64 \<Rightarrow> u64 \<Rightarrow> u64 list \<Rightarrow> results \<Rightarrow>
      machine \<Rightarrow> (u64 list \<times> machine) outcome"
    and cbrt :: "double \<Rightarrow> double" and meth :: measure_method and initial_stride stride0 :: u64 and all_spots :: "u64 list"
    and prev_measured :: results and st :: machine and r :: "error + u64 list \<times> machine"
  assume ih: "\<And>cbrt meth initial_stride stride0 all_spots prev_measured st r.
      loop cbrt meth initial_stride stride0 all_spots prev_measured st = Some r \<Longrightarrow>
      initial_stride = 2 \<longrightarrow> make_spots stride0 = Some (Inr all_spots) \<longrightarrow>
         stride0 mod 2 = 0 \<longrightarrow>
         (\<forall>rest (st' :: machine). r = Inr (rest, st') \<longrightarrow> rest \<noteq> [] \<and> hd rest \<noteq> 0)"
    and run: "bind_out (measure_c (stride0 * 2) (new_spots all_spots) meth st)
      (\<lambda>(new_measured, st1).
       case distances cbrt prev_measured new_measured all_spots (lit 0) (lit 0) of
         Inl e \<Rightarrow> Some (Inl e)
       | Inr (full_distance, half_distance) \<Rightarrow>
           if dlt full_distance half_distance
           then (if all_spots \<noteq> [] \<and> initial_stride = 0 then Some (Inl DivByZero)
                 else Some (Inr (map (\<lambda>spots. spots * (stride0 * 2 div 2 div initial_stride))
                                   all_spots, st1)))
           else bind_out (make_spots (stride0 * 2)) (\<lambda>all_spots1.
                  loop cbrt meth initial_stride (stride0 * 2) all_spots1 new_measured st1))
        = Some r"
  show "initial_stride = 2 \<longrightarrow> make_spots stride0 = Some (Inr all_spots) \<longrightarrow>
         stride0 mod 2 = 0 \<longrightarrow>
         (\<forall>rest (st' :: machine). r = Inr (rest, st') \<longrightarrow> rest \<noteq> [] \<and> hd rest \<noteq> 0)"
  proof (intro impI allI)
    fix rest and st' :: machine
    assume init: "initial_stride = 2" and ms: "make_spots stride0 = Some (Inr all_spots)"
      and even: "stride0 mod 2 = 0" and r: "r = Inr (rest, st')"
    from run [unfolded r] obtain new_measured st1 where
      body: "(case distances cbrt prev_measured new_measured all_spots (lit 0) (lit 0) of
         Inl e \<Rightarrow> Some (Inl e)
       | Inr (full_distance, half_distance) \<Rightarrow>
           if dlt full_distance half_distance
           then (if all_spots \<noteq> [] \<and> initial_stride = 0 then Some (Inl DivByZero)
                 else Some (Inr (map (\<lambda>spots. spots * (stride0 * 2 div 2 div initial_stride))
                                   all_spots, st1)))
           else bind_out (make_spots (stride0 * 2)) (\<lambda>all_spots1.
                  loop cbrt meth initial_stride (stride0 * 2) all_spots1 new_measured st1))
        = Some (Inr (rest, st'))"
      by (rule bind_out_Some_Inr) auto
    then obtain full_distance half_distance where
      d: "distances cbrt prev_measured new_measured all_spots (lit 0) (lit 0) = Inr (full_distance, half_distance)"
      by (cases "distances cbrt prev_measured new_measured all_spots (lit 0) (lit 0)") auto
    show "rest \<noteq> [] \<and> hd rest \<noteq> 0"
    proof (cases "dlt full_distance half_distance")
      case True
      have ne: "all_spots \<noteq> []"
        using d True by (cases all_spots) auto
      note m = make_spots_nonempty [OF ms ne]
      have s0: "unat stride0 mod 2 = 0"
        using even by (simp add: word_unat_eq_iff unat_mod)
      have "unat stride0 \<noteq> 0"
        using m(2) by (simp add: unat_eq_0)
      with s0 have ge2: "2 \<le> unat stride0"
        by presburger
      have "unat stride0 * unat (2 :: u64) < 2 ^ 64"
        using m(3) by simp
      then have dbl: "unat (stride0 * 2) = unat stride0 * 2"
        using unat_mult_small [of stride0 2] by simp
      have "unat (stride0 * 2 div 2 div 2) = unat stride0 div 2"
        by (simp add: unat_div dbl)
      then have "unat (stride0 * 2 div 2 div 2) \<noteq> 0"
        using ge2 by simp
      then have f: "stride0 * 2 div 2 div 2 \<noteq> 0"
        by (simp add: unat_eq_0)
      have "rest = map (\<lambda>spots. spots * (stride0 * 2 div 2 div 2)) all_spots"
        using body d True init by simp
      then show ?thesis
        using ne m(1) f by (simp add: hd_map)
    next
      case False
      with body d obtain all_spots1 where
        ms1: "make_spots (stride0 * 2) = Some (Inr all_spots1)" and
        rec: "loop cbrt meth initial_stride (stride0 * 2) all_spots1 new_measured st1 =
          Some (Inr (rest, st'))"
        by (auto elim: bind_out_Some_Inr)
      have "stride0 * 2 mod 2 = 0"
        by (rule double_even)
      with ih [OF rec] init ms1 show ?thesis
        by blast
    qed
  qed
qed

lemma find_rest_spots_front:
  assumes "find_rest_spots_by cbrt method initial_stride st = Some (Inr (rest, st'))"
  shows "rest \<noteq> [] \<and> hd rest \<noteq> 0"
proof -
  from assms obtain all_spots where ms: "make_spots initial_stride = Some (Inr all_spots)"
    and 1: "bind_out (measure_c initial_stride all_spots method st) (\<lambda>(prev_measured, st1).
       rest_loop cbrt method initial_stride initial_stride all_spots prev_measured st1) =
       Some (Inr (rest, st'))"
    unfolding find_rest_spots_by_def by (rule bind_out_Some_Inr)
  from 1 obtain prev_measured st1 where
    "rest_loop cbrt method initial_stride initial_stride all_spots prev_measured st1 =
       Some (Inr (rest, st'))"
    by (rule bind_out_Some_Inr) auto
  from rest_loop_front [OF this] ms show ?thesis
    by (simp add: initial_stride_def)
qed

lemma measure_spots_pure:
  "\<exists>st'. measure_spots (pure_method f) stride i xs res st =
     Some (Inr (\<lambda>k. res k @ replicate (count_list xs k) (to_seconds (f stride k)), st'))"
proof (induction xs arbitrary: res st)
  case Nil
  show ?case by simp
next
  case (Cons x xs)
  let ?res1 = "res(x := res x @ [to_seconds (f stride x)])"
  from Cons [of ?res1 "trial_state x i st"] obtain st' where
    "measure_spots (pure_method f) stride i xs ?res1 (trial_state x i st) =
       Some (Inr (\<lambda>k. ?res1 k @ replicate (count_list xs k) (to_seconds (f stride k)), st'))"
    by blast
  moreover have "(\<lambda>k. ?res1 k @ replicate (count_list xs k) (to_seconds (f stride k))) =
      (\<lambda>k. res k @ replicate (count_list (x # xs) k) (to_seconds (f stride k)))"
    by (rule ext) (simp add: replicate_app_Cons_same)
  moreover have "measure_spots (pure_method f) stride i (x # xs) res st =
      measure_spots (pure_method f) stride i xs ?res1 (trial_state x i st)"
  proof -
    have "pure_method f stride x (trial_state x i st) = Some (Inr (f stride x, trial_state x i st))"
      by (simp add: pure_method_def)
    then show ?thesis
      by (simp only: measure_spots.simps bind_out_returns case_prod_conv)
  qed
  ultimately show ?case
    by (simp only:) blast
qed

lemma measure_iterations_pure:
  "\<exists>st'. measure_iterations (pure_method f) stride xs js res st =
     Some (Inr (\<lambda>k. res k @ replicate (length js * count_list xs k) (to_seconds (f stride k)),
                st'))"
proof (induction js arbitrary: res st)
  case Nil
  show ?case by simp
next
  case (Cons j js)
  obtain st1 where 1: "measure_spots (pure_method f) stride j xs res st =
     Some (Inr (\<lambda>k. res k @ replicate (count_list xs k) (to_seconds (f stride k)), st1))"
    using measure_spots_pure by blast
  let ?res1 = "\<lambda>k. res k @ replicate (count_list xs k) (to_seconds (f stride k))"
  from Cons [of ?res1 st1] obtain st' where
    "measure_iterations (pure_method f) stride xs js ?res1 st1 =
       Some (Inr (\<lambda>k. ?res1 k @ replicate (length js * count_list xs k)
                                  (to_seconds (f stride k)), st'))"
    by blast
  moreover have "(\<lambda>k. ?res1 k @ replicate (length js * count_list xs k) (to_seconds (f stride k))) =
      (\<lambda>k. res k @ replicate (length (j # js) * count_list xs k) (to_seconds (f stride k)))"
    by (rule ext) (simp add: replicate_add [symmetric])
  moreover have "measure_iterations (pure_method f) stride xs (j # js) res st =
      measure_iterations (pure_method f) stride xs js ?res1 st1"
    by (simp only: measure_iterations.simps bind_out_returns [OF 1] case_prod_conv)
  ultimately show ?case
    by (simp only:) blast
qed

lemma measure_c_pure:
  "\<exists>st'. measure_c stride xs (pure_method f) st = Some (Inr (pure_results f stride xs, st'))"
  using measure_iterations_pure [of f stride xs "[0..<iterations]" "\<lambda>k. []" st]
  by (simp add: measure_c_def pure_results_def iterations_def)

lemma count_list_distinct:
  "distinct xs \<Longrightarrow> k \<in> set xs \<Longrightarrow> count_list xs k = 1"
  by (induction xs) auto

lemma pure_results_member:
  assumes "distinct xs" and "k \<in> set xs"
  shows "pure_results f stride xs k = replicate 9 (to_seconds (f stride k))"
  using assms by (simp add: pure_results_def count_list_distinct)

lemma sum_c_replicate9: "sum_c (replicate 9 c) = Inr (nine_times c)"
proof -
  have "replicate 9 c = c # replicate 8 c"
    by (simp add: eval_nat_numeral)
  then show ?thesis
    by (simp add: sum_c_def nine_times_def)
qed

lemma insort_d_same: "x \<noteq> NaN \<Longrightarrow> insort_d x (replicate n x) = replicate (Suc n) x"
  by (cases n) (simp_all add: dle_refl)

lemma sort_d_replicate: "x \<noteq> NaN \<Longrightarrow> sort_d (replicate n x) = replicate n x"
proof (induction n)
  case 0
  show ?case by (simp add: sort_d_def)
next
  case (Suc n)
  then have "sort_d (replicate (Suc n) x) = insort_d x (replicate n x)"
    by (simp add: sort_d_def)
  also have "\<dots> = replicate (Suc n) x"
    using Suc.prems by (rule insort_d_same)
  finally show ?case .
qed

lemma median_replicate9:
  assumes "c \<noteq> NaN"
  shows "median (replicate 9 c) = Inr c"
proof -
  have "sortable (replicate 9 c)"
    using assms by (auto simp: sortable_def)
  then show ?thesis
    using assms by (simp add: median_def sort_d_replicate)
qed

lemma rnd_not_NaN [simp]: "rnd s m \<noteq> NaN"
  by (simp add: rnd_def Let_def)

lemma to_seconds_not_NaN [simp]: "to_seconds n \<noteq> NaN"
proof -
  have b: "int_to_double 1000000000 = Finite False 1000000000"
    by (simp add: int_to_double_def round_real_def)
  show ?thesis
    unfolding to_seconds_def b
    by (cases "int_to_double (sint n)") (simp_all add: int_to_double_def round_real_def split: if_splits)
qed

lemma foldl_dadd_nat:
  assumes "a + k * n < 2 ^ 53"
  shows "foldl dadd (Finite False (of_nat a)) (replicate k (Finite False (of_nat n))) =
           Finite False (of_nat (a + k * n))"
  using assms
proof (induction k arbitrary: a)
  case 0
  show ?case by simp
next
  case (Suc k)
  have "a + n < 2 ^ 53"
    using Suc.prems by simp
  then have "rnd False (of_nat (a + n)) = Finite False (of_nat (a + n))"
    by (rule rnd_nat)
  then have "dadd (Finite False (of_nat a)) (Finite False (of_nat n)) =
      Finite False (of_nat (a + n))"
    by (simp add: round_real_def)
  moreover have "a + n + k * n < 2 ^ 53"
    using Suc.prems by (simp add: add.assoc)
  ultimately show ?case
    using Suc.IH [of "a + n"] by (simp add: add.assoc)
qed

lemma nine_times_nat:
  assumes "9 * n < 2 ^ 53"
  shows "nine_times (Finite False (of_nat n)) = Finite False (of_nat (9 * n))"
  using foldl_dadd_nat [of n 8 n] assms by (simp add: nine_times_def)

lemma find_rest_spots_pure:
  assumes ms: "make_spots 2 = Some (Inr xs)"
    and dist: "distinct xs"
    and shape: "\<forall>s \<in> set xs. s = 1 \<or> (s mod 2 = 0 \<and> 1 < s)"
    and less: "dlt
       (foldl (\<lambda>a s. dadd a (cbrt (dabs (dsub (nine_times (to_seconds (f 2 s)))
                                               (nine_times (to_seconds (f 4 s)))))))
          (lit 0) xs)
       (foldl (\<lambda>a s. dadd a (cbrt (dabs (dsub (nine_times (to_seconds (f 2 s)))
                                  (nine_times (to_seconds (f 4 (s div 2 + s mod 2))))))))
          (lit 0) xs)"
  shows "\<exists>st'. find_rest_spots_by cbrt (pure_method f) initial_stride st = Some (Inr (xs, st'))"
proof -
  let ?prev = "pure_results f 2 xs" and ?new = "pure_results f 4 (new_spots xs)"
  obtain st1 where m1: "measure_c 2 xs (pure_method f) st = Some (Inr (?prev, st1))"
    using measure_c_pure by blast
  obtain st2 where m2: "measure_c 4 (new_spots xs) (pure_method f) st1 = Some (Inr (?new, st2))"
    using measure_c_pure by blast
  have half_in: "s div 2 + s mod 2 \<in> set (new_spots xs)" if "s \<in> set xs" for s
  proof -
    from shape that consider "s = 1" | "s mod 2 = 0" "1 < s"
      by blast
    then show ?thesis
    proof cases
      case 1
      then show ?thesis
        using that by (simp add: new_spots_set)
    next
      case 2
      then show ?thesis
        using that by (auto simp: new_spots_set)
    qed
  qed
  have p: "?prev s = replicate 9 (to_seconds (f 2 s))" if "s \<in> set xs" for s
    using dist that by (rule pure_results_member)
  have n: "?new s = replicate 9 (to_seconds (f 4 s))" if "s \<in> set (new_spots xs)" for s
    using new_spots_distinct that by (rule pure_results_member)
  have n1: "?new s = replicate 9 (to_seconds (f 4 s))" if "s \<in> set xs" for s
    using that by (intro n) (simp add: new_spots_set)
  have sums: "\<forall>s \<in> set xs.
      sum_c (?prev s) = Inr (nine_times (to_seconds (f 2 s))) \<and>
      sum_c (?new s) = Inr (nine_times (to_seconds (f 4 s))) \<and>
      sum_c (?new (s div 2 + s mod 2)) = Inr (nine_times (to_seconds (f 4 (s div 2 + s mod 2))))"
    by (simp add: p n1 n half_in sum_c_replicate9)
  note d = distances_terms [OF sums, of cbrt "lit 0" "lit 0"]
  have "rest_loop cbrt (pure_method f) 2 2 xs ?prev st1 = Some (Inr (xs, st2))"
    using less d by (subst rest_loop.simps) (simp add: m2 bind_out_returns)
  then have "find_rest_spots_by cbrt (pure_method f) 2 st = Some (Inr (xs, st2))"
    by (simp add: find_rest_spots_by_def bind_out_returns [OF ms] bind_out_returns [OF m1])
  then show ?thesis
    by (auto simp: initial_stride_def)
qed

lemma totals_pure:
  assumes "distinct xs" and "set ys \<subseteq> set xs"
  shows "totals (pure_results f stride xs) ys =
           Inr (map (\<lambda>s. nine_times (to_seconds (f stride s))) ys)"
  using assms(2)
proof (induction ys)
  case Nil
  show ?case by simp
next
  case (Cons y ys)
  then have "pure_results f stride xs y = replicate 9 (to_seconds (f stride y))"
    using assms(1) by (intro pure_results_member) simp_all
  then show ?case
    using Cons by (simp add: sum_c_replicate9)
qed

lemma find_jump_pure:
  assumes "distinct xs"
  shows "\<exists>st'. find_jump_by (pure_method f) stride xs st =
           Some (bind_err (jump_of (pure_results f stride xs) xs) (\<lambda>spots. Inr (spots, st')))"
proof -
  obtain st1 where "measure_c stride xs (pure_method f) st =
      Some (Inr (pure_results f stride xs, st1))"
    using measure_c_pure by blast
  then show ?thesis
    by (auto simp: find_jump_by_def bind_out_returns)
qed

lemma sweep_pure:
  "\<exists>st'. sweep (pure_method f) strides results st =
     Some (Inr (results @ map (\<lambda>stride. to_seconds (f stride (max_check_mem div stride))) strides,
                st'))"
proof (induction strides arbitrary: results st)
  case Nil
  show ?case by simp
next
  case (Cons stride strides)
  let ?spots = "max_check_mem div stride"
  obtain st1 where m: "measure_c stride [?spots] (pure_method f) st =
      Some (Inr (pure_results f stride [?spots], st1))"
    using measure_c_pure by blast
  have "pure_results f stride [?spots] ?spots = replicate 9 (to_seconds (f stride ?spots))"
    by (rule pure_results_member) simp_all
  then have med: "median (pure_results f stride [?spots] ?spots) =
      Inr (to_seconds (f stride ?spots))"
    by (simp add: median_replicate9)
  from Cons [of "results @ [to_seconds (f stride ?spots)]" st1] show ?case
    by (simp add: bind_out_returns [OF m] med)
qed

lemma find_cache_line_size_pure:
  "\<exists>st'. find_cache_line_size_by (pure_method f) st =
     Some (Inr (cache_line_stride_of
                  (map (\<lambda>stride. to_seconds (f stride (max_check_mem div stride)))
                     [2, 4, 8, 16, 32, 64, 128]),
                st'))"
proof -
  obtain st1 where "sweep (pure_method f) [2, 4, 8, 16, 32, 64, 128] [] st =
      Some (Inr ([] @ map (\<lambda>stride. to_seconds (f stride (max_check_mem div stride)))
                         [2, 4, 8, 16, 32, 64, 128], st1))"
    using sweep_pure by blast
  then show ?thesis
    by (simp add: find_cache_line_size_by_def stride_sweep bind_out_returns)
qed


lemma dec_digits: "set (dec n) \<subseteq> set ''0123456789''"
proof (induction n rule: dec.induct)
  case (1 n)
  have d: "''0123456789'' ! k \<in> set ''0123456789''" if "k < 10" for k
    using that by (intro nth_mem) simp
  show ?case
  proof (cases "n < 10")
    case True
    then show ?thesis
      using d [of n] by (subst dec.simps) simp
  next
    case False
    have "n mod 10 < 10"
      by simp
    then have "''0123456789'' ! (n mod 10) \<in> set ''0123456789''"
      by (rule d)
    with False 1 show ?thesis
      by (subst dec.simps) simp
  qed
qed

lemma dec_no_separator:
  "count_list (dec n) (CHR 0x0A) = 0" "count_list (dec n) CHR '' '' = 0"
proof -
  have "CHR 0x0A \<notin> set (dec n)" and "CHR '' '' \<notin> set (dec n)"
    using dec_digits [of n] by auto
  then show "count_list (dec n) (CHR 0x0A) = 0" "count_list (dec n) CHR '' '' = 0"
    by (simp_all add: count_list_0_iff)
qed

lemma print_summary_returns:
  assumes "print_summary jump rest_spots cache_line_size = Inr out"
  shows "rest_spots \<noteq> []" and "hd rest_spots \<noteq> 0"
    and "out = ''associativity='' @ dec (unat (jump div hd rest_spots))
               @ '' cache_size='' @ dec (unat (jump * initial_stride * 8))
               @ '' cache_line_size='' @ dec (unat (cache_line_size * 8))
               @ [CHR 0x0A]"
  using assms by (auto simp: print_summary_def slot_bytes_def split: list.splits if_splits)

lemma print_summary_total:
  assumes "rest_spots \<noteq> []" and "hd rest_spots \<noteq> 0"
  shows "print_summary jump rest_spots cache_line_size =
           Inr (''associativity='' @ dec (unat (jump div hd rest_spots))
               @ '' cache_size='' @ dec (unat (jump * initial_stride * 8))
               @ '' cache_line_size='' @ dec (unat (cache_line_size * 8))
               @ [CHR 0x0A])"
  using assms by (cases rest_spots) (simp_all add: print_summary_def slot_bytes_def)

lemma summary_one_line:
  assumes "out = ''associativity='' @ a @ '' cache_size='' @ b @ '' cache_line_size='' @ c
             @ [CHR 0x0A]"
    and "count_list a (CHR 0x0A) = 0" "count_list b (CHR 0x0A) = 0" "count_list c (CHR 0x0A) = 0"
    and "count_list a CHR '' '' = 0" "count_list b CHR '' '' = 0" "count_list c CHR '' '' = 0"
  shows "count_list out (CHR 0x0A) = 1" and "last out = CHR 0x0A"
    and "count_list out CHR '' '' = 2"
  using assms by simp_all

lemma main_by_returns:
  assumes "main_by cbrt shuffled lookbehind st = Some (Inr (out, st'))"
  obtains rest_spots st1 jump st2 cache_line_size where
    "find_rest_spots_by cbrt shuffled initial_stride st = Some (Inr (rest_spots, st1))"
    "find_jump_by shuffled initial_stride rest_spots st1 = Some (Inr (jump, st2))"
    "find_cache_line_size_by lookbehind st2 = Some (Inr (cache_line_size, st'))"
    "print_summary jump rest_spots cache_line_size = Inr out"
proof -
  from assms obtain r1 where 1: "find_rest_spots_by cbrt shuffled initial_stride st = Some (Inr r1)"
    and k1: "(case r1 of (rest_spots, st1) \<Rightarrow>
       bind_out (find_jump_by shuffled initial_stride rest_spots st1) (\<lambda>(jump, st2).
       bind_out (find_cache_line_size_by lookbehind st2) (\<lambda>(cache_line_size, st3).
         Some (bind_err (print_summary jump rest_spots cache_line_size)
                 (\<lambda>out. Inr (out, st3)))))) = Some (Inr (out, st'))"
    unfolding main_by_def by (rule bind_out_Some_Inr)
  obtain rest_spots st1 where r1: "r1 = (rest_spots, st1)"
    by (cases r1)
  from k1 [unfolded r1, simplified] obtain r2 where
    2: "find_jump_by shuffled initial_stride rest_spots st1 = Some (Inr r2)"
    and k2: "(case r2 of (jump, st2) \<Rightarrow>
       bind_out (find_cache_line_size_by lookbehind st2) (\<lambda>(cache_line_size, st3).
         Some (bind_err (print_summary jump rest_spots cache_line_size)
                 (\<lambda>out. Inr (out, st3))))) = Some (Inr (out, st'))"
    by (rule bind_out_Some_Inr)
  obtain jump st2 where r2: "r2 = (jump, st2)"
    by (cases r2)
  from k2 [unfolded r2, simplified] obtain r3 where
    3: "find_cache_line_size_by lookbehind st2 = Some (Inr r3)"
    and k3: "(case r3 of (cache_line_size, st3) \<Rightarrow>
         Some (bind_err (print_summary jump rest_spots cache_line_size)
                 (\<lambda>out. Inr (out, st3)))) = Some (Inr (out, st'))"
    by (rule bind_out_Some_Inr)
  obtain cache_line_size st3 where r3: "r3 = (cache_line_size, st3)"
    by (cases r3)
  from k3 [unfolded r3, simplified] have
    "print_summary jump rest_spots cache_line_size = Inr out" and "st3 = st'"
    by (cases "print_summary jump rest_spots cache_line_size"; simp)+
  with 1 2 3 r1 r2 r3 show thesis
    by (intro that [of rest_spots st1 jump st2 cache_line_size]) simp_all
qed

lemma main_by_total:
  assumes "find_rest_spots_by cbrt shuffled initial_stride st = Some (Inr (rest_spots, st1))"
    and "find_jump_by shuffled initial_stride rest_spots st1 = Some (Inr (jump, st2))"
    and "find_cache_line_size_by lookbehind st2 = Some (Inr (cache_line_size, st3))"
  shows "main_by cbrt shuffled lookbehind st =
           Some (Inr (''associativity='' @ dec (unat (jump div hd rest_spots))
               @ '' cache_size='' @ dec (unat (jump * initial_stride * 8))
               @ '' cache_line_size='' @ dec (unat (cache_line_size * 8))
               @ [CHR 0x0A], st3))"
proof -
  have "rest_spots \<noteq> [] \<and> hd rest_spots \<noteq> 0"
    using assms(1) by (rule find_rest_spots_front)
  then show ?thesis
    by (simp add: main_by_def bind_out_returns [OF assms(1)] bind_out_returns [OF assms(2)]
        bind_out_returns [OF assms(3)] print_summary_total)
qed

lemma make_spots_loop_bound:
  assumes "make_spots_loop stride max_spots spots result = Some xs"
  shows "(\<forall>s \<in> set result. s \<le> max_spots) \<longrightarrow> (\<forall>s \<in> set xs. s \<le> max_spots)"
proof (rule make_spots_loop.raw_induct
    [where P = "\<lambda>(s :: u64) (m :: u64) (sp :: u64) result xs.
       (\<forall>s \<in> set result. s \<le> m) \<longrightarrow> (\<forall>s \<in> set xs. s \<le> m)", OF _ assms])
  fix loop :: "u64 \<Rightarrow> u64 \<Rightarrow> u64 \<Rightarrow> u64 list \<Rightarrow> u64 list option"
    and stride max_spots spots :: u64 and result xs :: "u64 list"
  assume ih: "\<And>s m sp res y. loop s m sp res = Some y \<Longrightarrow>
      (\<forall>s \<in> set res. s \<le> m) \<longrightarrow> (\<forall>s \<in> set y. s \<le> m)"
    and body: "(if spots \<le> max_spots
        then loop stride max_spots (next_spots stride spots) (result @ [spots])
        else Some result) = Some xs"
  show "(\<forall>s \<in> set result. s \<le> max_spots) \<longrightarrow> (\<forall>s \<in> set xs. s \<le> max_spots)"
  proof (cases "spots \<le> max_spots")
    case True
    with body have "loop stride max_spots (next_spots stride spots) (result @ [spots]) = Some xs"
      by simp
    from ih [OF this] True show ?thesis
      by simp
  next
    case False
    with body show ?thesis
      by simp
  qed
qed

lemma max_spots_bound:
  assumes "stride \<noteq> 0"
  shows "unat (next_spots stride (max_discover_mem div stride)) \<le> 2 ^ 16"
proof -
  let ?q = "max_discover_mem div stride"
  have pos: "0 < unat stride"
    using assms by (simp add: unat_gt_0)
  have q: "unat ?q = 2 ^ 15 div unat stride"
    by (simp add: unat_div max_discover_mem_def)
  have "2 ^ 15 div unat stride * unat stride \<le> (2 :: nat) ^ 15"
    by simp
  then have prod: "unat ?q * unat stride \<le> 2 ^ 15"
    by (simp only: q)
  have "2 ^ 15 div unat stride \<le> (2 :: nat) ^ 15"
    by (rule div_le_dividend)
  then have le: "unat ?q \<le> 2 ^ 15"
    by (simp only: q)
  have d: "512 div unat stride \<le> (512 :: nat)"
    by (rule div_le_dividend)
  from le have le': "unat ?q \<le> 32768"
    by simp
  have "unat ?q + 512 div unat stride \<le> 65536"
    using le' d by (rule order_trans [OF add_mono]) simp
  with le have "unat ?q * 2 \<le> 2 ^ 16" and "unat ?q + 1 \<le> 2 ^ 16"
    and "unat ?q + 512 div unat stride \<le> 2 ^ 16"
    by simp_all
  then have "(if unat ?q * unat stride \<le> 512 then unat ?q * 2
            else if unat stride > 512 then unat ?q + 1
            else unat ?q + 512 div unat stride) \<le> 2 ^ 16"
    by (simp only: split: if_split) blast
  moreover have "unat (next_spots stride ?q) =
           (if unat ?q * unat stride \<le> 512 then unat ?q * 2
            else if unat stride > 512 then unat ?q + 1
            else unat ?q + 512 div unat stride)"
    using prod le by (intro next_spots_unat) simp_all
  ultimately show ?thesis
    by (simp only:)
qed

lemma make_spots_bound:
  assumes "make_spots stride = Some (Inr xs)"
  shows "\<forall>s \<in> set xs. unat s \<le> 2 ^ 16"
proof -
  have nz: "stride \<noteq> 0"
    using assms by (auto simp: make_spots_def)
  let ?m = "next_spots stride (max_discover_mem div stride)"
  have "make_spots_loop stride ?m 1 [] = Some xs"
    using assms nz by (auto simp: make_spots_def)
  from make_spots_loop_bound [OF this] have "\<forall>s \<in> set xs. s \<le> ?m"
    by simp
  then have "\<forall>s \<in> set xs. unat s \<le> unat ?m"
    by (simp add: word_le_nat_alt)
  with max_spots_bound [OF nz] show ?thesis
    by (meson order_trans)
qed

lemma rest_loop_bound:
  assumes "rest_loop cbrt meth initial_stride stride0 all_spots prev_measured st = Some r"
  shows "initial_stride = 2 \<longrightarrow> make_spots stride0 = Some (Inr all_spots) \<longrightarrow>
         (\<forall>rest st'. r = Inr (rest, st') \<longrightarrow> (\<forall>s \<in> set rest. unat s \<le> 2 ^ 30))"
proof (rule rest_loop.raw_induct
    [where P = "\<lambda>(cbrt :: double \<Rightarrow> double) (meth :: measure_method) initial_stride stride0 all_spots
                  (prev_measured :: results) (st :: machine) r.
       initial_stride = 2 \<longrightarrow> make_spots stride0 = Some (Inr all_spots) \<longrightarrow>
         (\<forall>rest (st' :: machine). r = Inr (rest, st') \<longrightarrow> (\<forall>s \<in> set rest. unat s \<le> 2 ^ 30))",
     OF _ assms])
  fix loop :: "(double \<Rightarrow> double) \<Rightarrow> measure_method \<Rightarrow> u64 \<Rightarrow> u64 \<Rightarrow> u64 list \<Rightarrow> results \<Rightarrow>
      machine \<Rightarrow> (u64 list \<times> machine) outcome"
    and cbrt :: "double \<Rightarrow> double" and meth :: measure_method and initial_stride stride0 :: u64 and all_spots :: "u64 list"
    and prev_measured :: results and st :: machine and r :: "error + u64 list \<times> machine"
  assume ih: "\<And>cbrt meth initial_stride stride0 all_spots prev_measured st r.
      loop cbrt meth initial_stride stride0 all_spots prev_measured st = Some r \<Longrightarrow>
      initial_stride = 2 \<longrightarrow> make_spots stride0 = Some (Inr all_spots) \<longrightarrow>
         (\<forall>rest (st' :: machine). r = Inr (rest, st') \<longrightarrow> (\<forall>s \<in> set rest. unat s \<le> 2 ^ 30))"
    and run: "bind_out (measure_c (stride0 * 2) (new_spots all_spots) meth st)
      (\<lambda>(new_measured, st1).
       case distances cbrt prev_measured new_measured all_spots (lit 0) (lit 0) of
         Inl e \<Rightarrow> Some (Inl e)
       | Inr (full_distance, half_distance) \<Rightarrow>
           if dlt full_distance half_distance
           then (if all_spots \<noteq> [] \<and> initial_stride = 0 then Some (Inl DivByZero)
                 else Some (Inr (map (\<lambda>spots. spots * (stride0 * 2 div 2 div initial_stride))
                                   all_spots, st1)))
           else bind_out (make_spots (stride0 * 2)) (\<lambda>all_spots1.
                  loop cbrt meth initial_stride (stride0 * 2) all_spots1 new_measured st1))
        = Some r"
  show "initial_stride = 2 \<longrightarrow> make_spots stride0 = Some (Inr all_spots) \<longrightarrow>
         (\<forall>rest (st' :: machine). r = Inr (rest, st') \<longrightarrow> (\<forall>s \<in> set rest. unat s \<le> 2 ^ 30))"
  proof (intro impI allI)
    fix rest and st' :: machine
    assume init: "initial_stride = 2" and ms: "make_spots stride0 = Some (Inr all_spots)"
      and r: "r = Inr (rest, st')"
    from run [unfolded r] obtain new_measured st1 where
      body: "(case distances cbrt prev_measured new_measured all_spots (lit 0) (lit 0) of
         Inl e \<Rightarrow> Some (Inl e)
       | Inr (full_distance, half_distance) \<Rightarrow>
           if dlt full_distance half_distance
           then (if all_spots \<noteq> [] \<and> initial_stride = 0 then Some (Inl DivByZero)
                 else Some (Inr (map (\<lambda>spots. spots * (stride0 * 2 div 2 div initial_stride))
                                   all_spots, st1)))
           else bind_out (make_spots (stride0 * 2)) (\<lambda>all_spots1.
                  loop cbrt meth initial_stride (stride0 * 2) all_spots1 new_measured st1))
        = Some (Inr (rest, st'))"
      by (rule bind_out_Some_Inr) auto
    then obtain full_distance half_distance where
      d: "distances cbrt prev_measured new_measured all_spots (lit 0) (lit 0) = Inr (full_distance, half_distance)"
      by (cases "distances cbrt prev_measured new_measured all_spots (lit 0) (lit 0)") auto
    show "\<forall>s \<in> set rest. unat s \<le> 2 ^ 30"
    proof (cases "dlt full_distance half_distance")
      case True
      have ne: "all_spots \<noteq> []"
        using d True by (cases all_spots) auto
      note m = make_spots_nonempty [OF ms ne]
      have "unat stride0 * unat (2 :: u64) < 2 ^ 64"
        using m(3) by simp
      then have dbl: "unat (stride0 * 2) = unat stride0 * 2"
        using unat_mult_small [of stride0 2] by simp
      have f: "unat (stride0 * 2 div 2 div 2) = unat stride0 div 2"
        by (simp add: unat_div dbl)
      have "unat stride0 div 2 \<le> 2 ^ 15 div 2"
        using m(3) by (rule div_le_mono)
      then have fle: "unat (stride0 * 2 div 2 div 2) \<le> 2 ^ 14"
        using f by simp
      have rest: "rest = map (\<lambda>spots. spots * (stride0 * 2 div 2 div 2)) all_spots"
        using body d True init by simp
      show ?thesis
      proof
        fix s
        assume "s \<in> set rest"
        then obtain x where x: "x \<in> set all_spots" and s: "s = x * (stride0 * 2 div 2 div 2)"
          using rest by auto
        from make_spots_bound [OF ms] x have xle: "unat x \<le> 2 ^ 16"
          by blast
        from xle fle have "unat x * unat (stride0 * 2 div 2 div 2) \<le> 2 ^ 16 * 2 ^ 14"
          by (rule mult_le_mono)
        then have p: "unat x * unat (stride0 * 2 div 2 div 2) \<le> 2 ^ 30"
          by simp
        then have "unat x * unat (stride0 * 2 div 2 div 2) < 2 ^ 64"
          by simp
        then have "unat s = unat x * unat (stride0 * 2 div 2 div 2)"
          unfolding s by (rule unat_mult_small)
        with p show "unat s \<le> 2 ^ 30"
          by simp
      qed
    next
      case False
      with body d obtain all_spots1 where
        ms1: "make_spots (stride0 * 2) = Some (Inr all_spots1)" and
        rec: "loop cbrt meth initial_stride (stride0 * 2) all_spots1 new_measured st1 =
          Some (Inr (rest, st'))"
        by (auto elim: bind_out_Some_Inr)
      with ih [OF rec] init ms1 show ?thesis
        by blast
    qed
  qed
qed

lemma find_rest_spots_bound:
  assumes "find_rest_spots_by cbrt shuffled initial_stride st = Some (Inr (rest, st'))"
  shows "\<forall>s \<in> set rest. unat s \<le> 2 ^ 30"
proof -
  from assms obtain all_spots where ms: "make_spots initial_stride = Some (Inr all_spots)"
    and 1: "bind_out (measure_c initial_stride all_spots shuffled st) (\<lambda>(prev_measured, st1).
       rest_loop cbrt shuffled initial_stride initial_stride all_spots prev_measured st1) =
       Some (Inr (rest, st'))"
    unfolding find_rest_spots_by_def by (rule bind_out_Some_Inr)
  from 1 obtain prev_measured st1 where
    "rest_loop cbrt shuffled initial_stride initial_stride all_spots prev_measured st1 =
       Some (Inr (rest, st'))"
    by (rule bind_out_Some_Inr) auto
  from rest_loop_bound [OF this] ms show ?thesis
    by (simp add: initial_stride_def)
qed

lemma jump_of_member:
  assumes "jump_of measured search_spots = Inr j"
  shows "j = 0 \<or> j \<in> set search_spots"
proof -
  have ne: "search_spots \<noteq> []"
    using assms by (auto simp: jump_of_empty)
  obtain ts where ts: "totals measured search_spots = Inr ts"
    using assms by (cases "totals measured search_spots") (simp_all add: jump_of_def)
  have len: "length ts = length search_spots"
    using totals_spec [OF ts] by simp
  from jump_of_cases [OF ts ne] assms len show ?thesis
    by auto
qed

lemma find_jump_member:
  assumes "find_jump_by shuffled stride search_spots st = Some (Inr (j, st'))"
  shows "j = 0 \<or> j \<in> set search_spots"
proof -
  from assms obtain r where
    "(case r of (measured, st1) \<Rightarrow>
        Some (bind_err (jump_of measured search_spots) (\<lambda>spots. Inr (spots, st1)))) =
      Some (Inr (j, st'))"
    unfolding find_jump_by_def by (rule bind_out_Some_Inr)
  then obtain measured where "jump_of measured search_spots = Inr j"
    by (cases r; cases "jump_of (fst r) search_spots") auto
  then show ?thesis
    by (rule jump_of_member)
qed

lemma speedup_loop_range:
  "speedup_loop results k cls m = cls \<or>
   (\<exists>i. k \<le> i \<and> i < length results \<and> speedup_loop results k cls m = push_bit i min_stride div 2)"
proof (induction "length results - k" arbitrary: k cls m)
  case 0
  then have "\<not> k < length results"
    by simp
  then show ?case
    by (simp add: speedup_loop_exit)
next
  case (Suc n)
  then have k: "k < length results" and n: "n = length results - (k + 1)"
    by simp_all
  let ?s = "ddiv (results ! k) (results ! (k - 1))"
  show ?case
  proof (cases "dge ?s m")
    case True
    then have "speedup_loop results k cls m =
        speedup_loop results (k + 1) (push_bit k min_stride div 2) ?s"
      using k by (subst speedup_loop.simps) (simp add: Let_def)
    with Suc.hyps(1) [OF n, of "push_bit k min_stride div 2" ?s] k show ?thesis
      by (metis Suc_leD Suc_eq_plus1 order_refl)
  next
    case False
    then have "speedup_loop results k cls m = speedup_loop results (k + 1) cls m"
      using k by (subst speedup_loop.simps) (simp add: Let_def)
    with Suc.hyps(1) [OF n, of cls m] show ?thesis
      by (metis Suc_leD Suc_eq_plus1)
  qed
qed

lemma sweep_length:
  assumes "sweep m strides results st = Some (Inr (rs, st'))"
  shows "length rs = length results + length strides"
  using assms
proof (induction strides arbitrary: results st)
  case Nil
  then show ?case by simp
next
  case (Cons stride strides)
  from Cons.prems obtain r where
    "(case r of (measured, st1) \<Rightarrow>
       case median (measured (max_check_mem div stride)) of
         Inl e \<Rightarrow> Some (Inl e)
       | Inr result \<Rightarrow> sweep m strides (results @ [result]) st1) = Some (Inr (rs, st'))"
    unfolding sweep.simps by (rule bind_out_Some_Inr)
  then obtain result st1 where "sweep m strides (results @ [result]) st1 = Some (Inr (rs, st'))"
    by (cases r; cases "median (fst r (max_check_mem div stride))") auto
  from Cons.IH [OF this] show ?case
    by simp
qed

lemma find_cache_line_size_bound:
  assumes "find_cache_line_size_by lookbehind st = Some (Inr (cls, st'))"
  shows "unat cls \<le> 64"
proof -
  from assms obtain r where 1: "sweep lookbehind [2, 4, 8, 16, 32, 64, 128] [] st = Some (Inr r)"
    and 2: "(case r of (results, st1) \<Rightarrow> Some (Inr (cache_line_stride_of results, st1))) =
      (Some (Inr (cls, st')) :: (u64 \<times> machine) outcome)"
    unfolding find_cache_line_size_by_def stride_sweep by (rule bind_out_Some_Inr)
  obtain results st1 where r: "r = (results, st1)"
    by (cases r)
  from 2 r have cls: "cls = cache_line_stride_of results"
    by simp
  from sweep_length [OF 1 [unfolded r]] have len: "length results = 7"
    by simp
  from speedup_loop_range [of results 1 1 "lit 1.0"]
  consider "cls = 1" | i where "i < 7" and "cls = push_bit i min_stride div 2"
    unfolding cls cache_line_stride_of_def len by blast
  then show ?thesis
  proof cases
    case 1
    then show ?thesis by simp
  next
    case 2
    then have "cls = 2 ^ i"
      by (simp add: half_stride)
    moreover have "unat ((2 :: u64) ^ i) = 2 ^ i"
      using 2(1) by (intro unat_two_power) simp
    moreover have "(2 :: nat) ^ i \<le> 2 ^ 6"
      using 2(1) by (intro power_increasing) simp_all
    ultimately show ?thesis
      by simp
  qed
qed


lemma summary_values:
  fixes jump cache_line_size :: u64
  assumes "unat jump \<le> 2 ^ 30" and "unat cache_line_size \<le> 64"
  shows "unat (jump * initial_stride * 8) = unat jump * unat initial_stride * 8"
    and "unat (cache_line_size * 8) = unat cache_line_size * 8"
proof -
  have i: "unat initial_stride = 2"
    by (simp add: initial_stride_def)
  have "unat jump * 2 \<le> 2 ^ 30 * 2"
    using assms(1) by (rule mult_le_mono1)
  then have j2: "unat jump * unat initial_stride < 2 ^ 64"
    by (simp add: i)
  then have a: "unat (jump * initial_stride) = unat jump * unat initial_stride"
    by (rule unat_mult_small)
  have "unat jump * 2 * 8 \<le> 2 ^ 30 * 2 * 8"
    using assms(1) by (intro mult_le_mono1)
  then have "unat (jump * initial_stride) * unat (8 :: u64) < 2 ^ 64"
    by (simp add: a i)
  then have "unat (jump * initial_stride * 8) = unat (jump * initial_stride) * unat (8 :: u64)"
    by (rule unat_mult_small)
  with a show "unat (jump * initial_stride * 8) = unat jump * unat initial_stride * 8"
    by simp
  have "unat cache_line_size * 8 \<le> 64 * 8"
    using assms(2) by (rule mult_le_mono1)
  then have "unat cache_line_size * unat (8 :: u64) < 2 ^ 64"
    by simp
  then have "unat (cache_line_size * 8) = unat cache_line_size * unat (8 :: u64)"
    by (rule unat_mult_small)
  then show "unat (cache_line_size * 8) = unat cache_line_size * 8"
    by simp
qed

text \<open>
  C3. Whenever the program returns, with either measuring method, it has written one
  line to the standard output: \<open>associativity=\<close>, \<open>cache_size=\<close> and
  \<open>cache_line_size=\<close> in this order, separated by single spaces and closed by the only
  line feed. The first value is the result of \<open>find_jump\<close> divided by the first
  element of the sequence returned by \<open>find_rest_spots\<close>, which exists and is not
  zero; the second is the result of \<open>find_jump\<close> times the initial stride times 8;
  the third is the result of \<open>find_cache_line_size\<close> times 8. The values are
  printed in decimal; none of the 64-bit products wraps, so they are stated on the
  natural numbers.
\<close>

theorem main_prints_summary:
  "(main_by cbrt shuffled lookbehind st = Some (Inr (out, st')) \<longrightarrow>
      (\<exists>rest_spots st1 jump st2 cache_line_size.
         find_rest_spots_by cbrt shuffled initial_stride st = Some (Inr (rest_spots, st1)) \<and>
         find_jump_by shuffled initial_stride rest_spots st1 = Some (Inr (jump, st2)) \<and>
         find_cache_line_size_by lookbehind st2 = Some (Inr (cache_line_size, st')) \<and>
         rest_spots \<noteq> [] \<and> hd rest_spots \<noteq> 0 \<and>
         out = ''associativity='' @ dec (unat jump div unat (hd rest_spots))
               @ '' cache_size='' @ dec (unat jump * unat initial_stride * 8)
               @ '' cache_line_size='' @ dec (unat cache_line_size * 8)
               @ [CHR 0x0A] \<and>
         count_list out (CHR 0x0A) = 1 \<and> last out = CHR 0x0A \<and>
         count_list out CHR '' '' = 2))
   \<and> main cbrt = main_by cbrt measure_shuffled measure_lookbehind"
proof (intro conjI impI)
  assume run: "main_by cbrt shuffled lookbehind st = Some (Inr (out, st'))"
  from main_by_returns [OF run] obtain rest_spots st1 jump st2 cache_line_size where
    1: "find_rest_spots_by cbrt shuffled initial_stride st = Some (Inr (rest_spots, st1))" and
    2: "find_jump_by shuffled initial_stride rest_spots st1 = Some (Inr (jump, st2))" and
    3: "find_cache_line_size_by lookbehind st2 = Some (Inr (cache_line_size, st'))" and
    4: "print_summary jump rest_spots cache_line_size = Inr out"
    by blast
  note p = print_summary_returns [OF 4]
  have "unat jump \<le> 2 ^ 30"
    using find_jump_member [OF 2] find_rest_spots_bound [OF 1] by auto
  note v = unat_div [of jump "hd rest_spots"]
    summary_values [OF this find_cache_line_size_bound [OF 3]]
  have o: "out = ''associativity='' @ dec (unat jump div unat (hd rest_spots))
               @ '' cache_size='' @ dec (unat jump * unat initial_stride * 8)
               @ '' cache_line_size='' @ dec (unat cache_line_size * 8)
               @ [CHR 0x0A]"
    using p(3) by (simp only: v)
  note l = summary_one_line [OF o dec_no_separator(1) dec_no_separator(1) dec_no_separator(1)
      dec_no_separator(2) dec_no_separator(2) dec_no_separator(2)]
  from 1 2 3 p(1,2) o l
  show "\<exists>rest_spots st1 jump st2 cache_line_size.
         find_rest_spots_by cbrt shuffled initial_stride st = Some (Inr (rest_spots, st1)) \<and>
         find_jump_by shuffled initial_stride rest_spots st1 = Some (Inr (jump, st2)) \<and>
         find_cache_line_size_by lookbehind st2 = Some (Inr (cache_line_size, st')) \<and>
         rest_spots \<noteq> [] \<and> hd rest_spots \<noteq> 0 \<and>
         out = ''associativity='' @ dec (unat jump div unat (hd rest_spots))
               @ '' cache_size='' @ dec (unat jump * unat initial_stride * 8)
               @ '' cache_line_size='' @ dec (unat cache_line_size * 8)
               @ [CHR 0x0A] \<and>
         count_list out (CHR 0x0A) = 1 \<and> last out = CHR 0x0A \<and>
         count_list out CHR '' '' = 2"
    by blast
next
  show "main cbrt = main_by cbrt measure_shuffled measure_lookbehind"
    by (rule main_def)
qed

lemma make_spots_2: "make_spots 2 = Some (Inr spots2)"
  by (simp add: spots2_def make_spots_def make_spots_loop.simps next_spots_def step_def
      max_discover_mem_def)

lemma spots2_distinct: "distinct spots2"
  by (simp add: spots2_def)

lemma spots2_shape: "\<forall>s \<in> set spots2. s = 1 \<or> (s mod 2 = 0 \<and> 1 < s)"
  by (simp add: spots2_def)

lemma spots2_length: "length spots2 = 73"
  by (simp add: spots2_def)

lemma spots2_members: "512 \<in> set spots2" "768 \<in> set spots2" "384 \<notin> set spots2"
  by (simp_all add: spots2_def)

lemma spots2_front: "hd spots2 = 1" "spots2 ! 8 = 256"
  by (simp_all add: spots2_def)

lemma spots2_low: "list_all (\<lambda>s. \<not> 512 \<le> s) (take 9 spots2)"
  by (simp add: spots2_def word_le_nat_alt)

lemma spots2_high: "list_all (\<lambda>s. 512 \<le> s) (drop 9 spots2)"
  by (simp add: spots2_def)


lemma measure_spots_grows:
  assumes "measure_spots m stride i xs res st = Some (Inr (res', st'))"
  shows "(\<forall>k. res k \<noteq> [] \<longrightarrow> res' k \<noteq> []) \<and> (\<forall>k \<in> set xs. res' k \<noteq> [])"
  using assms
proof (induction xs arbitrary: res st)
  case Nil
  then show ?case by simp
next
  case (Cons x xs)
  from Cons.prems obtain r where
    "(case r of (d, st1) \<Rightarrow> measure_spots m stride i xs (res(x := res x @ [to_seconds d])) st1) =
       Some (Inr (res', st'))"
    unfolding measure_spots.simps by (rule bind_out_Some_Inr)
  then obtain d st1 where
    "measure_spots m stride i xs (res(x := res x @ [to_seconds d])) st1 = Some (Inr (res', st'))"
    by (cases r) simp
  from Cons.IH [OF this]
  have keep: "\<forall>k. (res(x := res x @ [to_seconds d])) k \<noteq> [] \<longrightarrow> res' k \<noteq> []"
    and rest: "\<forall>k \<in> set xs. res' k \<noteq> []"
    by simp_all
  from keep [rule_format, of x] have "res' x \<noteq> []"
    by simp
  moreover have "res' k \<noteq> []" if "res k \<noteq> []" for k
    using keep [rule_format, of k] that by (cases "k = x") simp_all
  ultimately show ?case
    using rest by simp
qed

lemma measure_iterations_grows:
  assumes "measure_iterations m stride xs js res st = Some (Inr (res', st'))"
  shows "(\<forall>k. res k \<noteq> [] \<longrightarrow> res' k \<noteq> []) \<and> (js \<noteq> [] \<longrightarrow> (\<forall>k \<in> set xs. res' k \<noteq> []))"
  using assms
proof (induction js arbitrary: res st)
  case Nil
  then show ?case by simp
next
  case (Cons j js)
  from Cons.prems obtain r where 1: "measure_spots m stride j xs res st = Some (Inr r)"
    and "(case r of (res1, st1) \<Rightarrow> measure_iterations m stride xs js res1 st1) =
       Some (Inr (res', st'))"
    unfolding measure_iterations.simps by (rule bind_out_Some_Inr)
  then obtain res1 st1 where r: "r = (res1, st1)"
    and 2: "measure_iterations m stride xs js res1 st1 = Some (Inr (res', st'))"
    by (cases r) simp
  note a = measure_spots_grows [OF 1 [unfolded r]]
  note b = Cons.IH [OF 2]
  from a b show ?case
    by blast
qed

lemma measure_c_nonempty:
  assumes "measure_c stride xs m st = Some (Inr (measured, st'))"
  shows "\<forall>k \<in> set xs. measured k \<noteq> []"
proof -
  have "[0..<iterations] \<noteq> []"
    by (simp add: iterations_def)
  with measure_iterations_grows [OF assms [unfolded measure_c_def]] show ?thesis
    by blast
qed

lemma totals_total:
  assumes "\<forall>k \<in> set xs. measured k \<noteq> []"
  shows "\<exists>ts. totals measured xs = Inr ts"
  using assms
proof (induction xs)
  case Nil
  show ?case by simp
next
  case (Cons x xs)
  then obtain ts where "totals measured xs = Inr ts"
    by auto
  moreover obtain t where "sum_c (measured x) = Inr t"
    using Cons.prems sum_c_nonempty [of "measured x"] by auto
  ultimately show ?case
    by simp
qed

lemma jump_of_none:
  assumes "totals measured search_spots = Inr ts" and "search_spots \<noteq> []"
    and "\<forall>i < length ts - 1. \<not> crosses ts (smooth_loop (length ts - 1) ts) i"
  shows "jump_of measured search_spots = Inr 0"
proof -
  note tsp = totals_spec [OF assms(1)]
  then have len: "length ts = length search_spots"
    and sums: "\<forall>j < length search_spots. sum_c (measured (search_spots ! j)) = Inr (ts ! j)"
    by simp_all
  have "\<forall>j. 0 \<le> j \<and> j < length search_spots - 1 \<longrightarrow>
      \<not> crosses ts (smooth_loop (length ts - 1) ts) j"
    using assms(3) len by simp
  from scan_none [OF sums this] show ?thesis
    by (simp add: jump_of_scan [OF assms(1,2)])
qed

text \<open>
  C9. When \<open>find_jump\<close> has measured a non-empty spots sequence, the totals exist,
  and if no position satisfies both threshold conditions, \<open>find_jump\<close> returns 0.
  When \<open>find_jump\<close> returns 0 in \<open>main\<close> and the line-size discovery
  returns, the program returns as well and prints \<open>associativity=0\<close> (0 divided by
  the first returned spots value, which is not zero) and \<open>cache_size=0\<close>.
\<close>

theorem no_jump_sentinel:
  "(search_spots \<noteq> [] \<and>
    measure_c stride search_spots shuffled st1 = Some (Inr (measured, st2)) \<longrightarrow>
      (\<exists>ts. totals measured search_spots = Inr ts \<and>
         ((\<forall>i < length ts - 1. \<not> crosses ts (smooth_loop (length ts - 1) ts) i) \<longrightarrow>
            find_jump_by shuffled stride search_spots st1 = Some (Inr (0, st2)))))
   \<and> (find_rest_spots_by cbrt shuffled initial_stride st = Some (Inr (rest_spots, st1)) \<and>
      find_jump_by shuffled initial_stride rest_spots st1 = Some (Inr (0, st2)) \<and>
      find_cache_line_size_by lookbehind st2 = Some (Inr (cache_line_size, st3)) \<longrightarrow>
        rest_spots \<noteq> [] \<and> hd rest_spots \<noteq> 0 \<and>
        main_by cbrt shuffled lookbehind st =
          Some (Inr (''associativity=0 cache_size=0 cache_line_size=''
                       @ dec (unat cache_line_size * 8) @ [CHR 0x0A], st3)))"
proof (intro conjI impI; (elim conjE)?)
  assume ne: "search_spots \<noteq> []"
    and m: "measure_c stride search_spots shuffled st1 = Some (Inr (measured, st2))"
  from totals_total [OF measure_c_nonempty [OF m]] obtain ts where
    ts: "totals measured search_spots = Inr ts"
    by blast
  have "find_jump_by shuffled stride search_spots st1 = Some (Inr (0, st2))"
    if "\<forall>i < length ts - 1. \<not> crosses ts (smooth_loop (length ts - 1) ts) i"
    using jump_of_none [OF ts ne that] by (simp add: find_jump_by_def bind_out_returns [OF m])
  with ts show "\<exists>ts. totals measured search_spots = Inr ts \<and>
         ((\<forall>i < length ts - 1. \<not> crosses ts (smooth_loop (length ts - 1) ts) i) \<longrightarrow>
            find_jump_by shuffled stride search_spots st1 = Some (Inr (0, st2)))"
    by blast
next
  assume 1: "find_rest_spots_by cbrt shuffled initial_stride st = Some (Inr (rest_spots, st1))"
    and 2: "find_jump_by shuffled initial_stride rest_spots st1 = Some (Inr (0, st2))"
    and 3: "find_cache_line_size_by lookbehind st2 = Some (Inr (cache_line_size, st3))"
  from find_rest_spots_front [OF 1] show "rest_spots \<noteq> []" and "hd rest_spots \<noteq> 0"
    by simp_all
  have "unat (0 :: u64) \<le> 2 ^ 30"
    by simp
  note v = summary_values(2) [OF this find_cache_line_size_bound [OF 3]]
  from main_by_total [OF 1 2 3]
  show "main_by cbrt shuffled lookbehind st =
          Some (Inr (''associativity=0 cache_size=0 cache_line_size=''
                       @ dec (unat cache_line_size * 8) @ [CHR 0x0A], st3))"
    by (simp add: dec.simps v)
qed


lemma nth_take_all:
  assumes "list_all P (take k xs)" and "i < k" and "i < length xs"
  shows "P (xs ! i)"
proof -
  have "i < length (take k xs)"
    using assms(2,3) by simp
  with assms(1) have "P (take k xs ! i)"
    by (simp add: list_all_length)
  with assms(2) show ?thesis
    by simp
qed

lemma nth_drop_all:
  assumes "list_all P (drop k xs)" and "k \<le> i" and "i < length xs"
  shows "P (xs ! i)"
proof -
  have "i - k < length (drop k xs)"
    using assms(2,3) by simp
  with assms(1) have "P (drop k xs ! (i - k))"
    by (simp add: list_all_length)
  with assms(2,3) show ?thesis
    by simp
qed

text \<open>One and four seconds, and nine trials of each.\<close>

lemma to_seconds_values:
  "to_seconds 1000000000 = Finite False 1" "to_seconds 4000000000 = Finite False 4"
  by (simp_all add: to_seconds_def int_to_double_def round_real_def)

lemma nine_values:
  "nine_times (Finite False 1) = Finite False 9" "nine_times (Finite False 4) = Finite False 36"
  using nine_times_nat [of 1] nine_times_nat [of 4] by simp_all

lemma step_total:
  "nine_times (to_seconds (step_duration stride s)) =
     (if 512 \<le> s then Finite False 36 else Finite False 9)"
  by (simp add: step_duration_def to_seconds_values nine_values)

lemma bump_total:
  "nine_times (to_seconds (bump_duration stride s)) =
     (if stride = 4 \<and> s = 384 then Finite False 36 else Finite False 9)"
  by (simp add: bump_duration_def to_seconds_values nine_values)

lemma root_term:
  "cbrt_rn (dabs (dsub (Finite False 9) (Finite False 9))) = Finite False 0"
  "cbrt_rn (dabs (dsub (Finite False 36) (Finite False 36))) = Finite False 0"
  "cbrt_rn (dabs (dsub (Finite False 36) (Finite False 9))) = Finite False 3"
  "cbrt_rn (dabs (dsub (Finite False 9) (Finite False 36))) = Finite False 3"
  by (simp_all add: dsub_def round_real_def)

lemma foldl_dadd_nats:
  assumes "a + sum_list (map g xs) < 2 ^ 53"
  shows "foldl (\<lambda>a s. dadd a (Finite False (of_nat (g s)))) (Finite False (of_nat a)) xs =
           Finite False (of_nat (a + sum_list (map g xs)))"
  using assms
proof (induction xs arbitrary: a)
  case Nil
  show ?case by simp
next
  case (Cons x xs)
  have "a + g x < 2 ^ 53"
    using Cons.prems by simp
  then have "rnd False (of_nat (a + g x)) = Finite False (of_nat (a + g x))"
    by (rule rnd_nat)
  then have "dadd (Finite False (of_nat a)) (Finite False (of_nat (g x))) =
      Finite False (of_nat (a + g x))"
    by (simp add: round_real_def)
  moreover have "a + g x + sum_list (map g xs) < 2 ^ 53"
    using Cons.prems by (simp add: add.assoc)
  ultimately show ?case
    using Cons.IH [of "a + g x"] by (simp add: add.assoc)
qed

lemma foldl_dadd_from_zero:
  assumes "sum_list (map g xs) = n" and "n < 2 ^ 53"
  shows "foldl (\<lambda>a s. dadd a (Finite False (of_nat (g s)))) (lit 0) xs = Finite False (of_nat n)"
  using foldl_dadd_nats [of 0 g xs] assms by simp

lemma step_rest:
  "\<exists>st'. find_rest_spots_by cbrt_rn (pure_method step_duration) initial_stride st =
     Some (Inr (spots2, st'))"
proof (rule find_rest_spots_pure [OF make_spots_2 spots2_distinct spots2_shape])
  have full: "(\<lambda>a s. dadd a (cbrt_rn (dabs (dsub (nine_times (to_seconds (step_duration 2 s)))
        (nine_times (to_seconds (step_duration 4 s))))))) =
      (\<lambda>a s. dadd a (Finite False (of_nat ((\<lambda>s. 0) s))))"
    by (intro ext) (simp add: step_total root_term)
  have half: "(\<lambda>a s. dadd a (cbrt_rn (dabs (dsub (nine_times (to_seconds (step_duration 2 s)))
        (nine_times (to_seconds (step_duration 4 (s div 2 + s mod 2)))))))) =
      (\<lambda>a s. dadd a (Finite False (of_nat
         ((\<lambda>s. if (512 \<le> s) \<noteq> (512 \<le> s div 2 + s mod 2) then 3 else 0) s))))"
    by (intro ext) (simp add: step_total root_term)
  have f: "foldl (\<lambda>a s. dadd a (Finite False (of_nat ((\<lambda>s. 0) s)))) (lit 0) spots2 =
      Finite False (of_nat 0)"
    by (rule foldl_dadd_from_zero) simp_all
  have h: "foldl (\<lambda>a s. dadd a (Finite False (of_nat
         ((\<lambda>s. if (512 \<le> s) \<noteq> (512 \<le> s div 2 + s mod 2) then 3 else 0) s)))) (lit 0) spots2 =
      Finite False (of_nat 6)"
    by (rule foldl_dadd_from_zero) (simp_all add: spots2_def word_le_nat_alt)
  show "dlt
       (foldl (\<lambda>a s. dadd a (cbrt_rn (dabs (dsub (nine_times (to_seconds (step_duration 2 s)))
                                               (nine_times (to_seconds (step_duration 4 s)))))))
          (lit 0) spots2)
       (foldl (\<lambda>a s. dadd a (cbrt_rn (dabs (dsub (nine_times (to_seconds (step_duration 2 s)))
                           (nine_times (to_seconds (step_duration 4 (s div 2 + s mod 2))))))))
          (lit 0) spots2)"
    unfolding full half f h by simp
qed

lemma halvable_nine: "halvable (Finite False 9)" "halvable (Finite False 36)"
  using halvable_dyadic [of 9 0] halvable_dyadic [of 36 0] by simp_all

lemma step_ratio: "dge (ddiv (Finite False 36) (Finite False 9)) (lit 1.12)"
  using lit_112 by (auto simp: dge_def round_real_def)

lemma step_jump_of: "jump_of (pure_results step_duration 2 spots2) spots2 = Inr 256"
proof -
  let ?ts = "map (\<lambda>s. nine_times (to_seconds (step_duration 2 s))) spots2"
  have ts: "totals (pure_results step_duration 2 spots2) spots2 = Inr ?ts"
    by (rule totals_pure [OF spots2_distinct subset_refl])
  have low: "\<forall>i < 9. ?ts ! i = Finite False 9"
  proof (intro allI impI)
    fix i :: nat
    assume "i < 9"
    then have "i < length spots2"
      by (simp add: spots2_length)
    moreover from nth_take_all [OF spots2_low \<open>i < 9\<close> this] have "\<not> 512 \<le> spots2 ! i" .
    ultimately show "?ts ! i = Finite False 9"
      by (simp add: step_total)
  qed
  have high: "\<forall>i. 9 \<le> i \<and> i < length ?ts \<longrightarrow>
      is_double (?ts ! i) \<and> dle (Finite False 36) (?ts ! i)"
  proof (intro allI impI, elim conjE)
    fix i :: nat
    assume "9 \<le> i" and "i < length ?ts"
    then have i: "i < length spots2"
      by simp
    from nth_drop_all [OF spots2_high \<open>9 \<le> i\<close> i] have "512 \<le> spots2 ! i" .
    with i have "?ts ! i = Finite False 36"
      by (simp add: step_total)
    then show "is_double (?ts ! i) \<and> dle (Finite False 36) (?ts ! i)"
      using halvable_is_double [OF halvable_nine(2)] by simp
  qed
  have "jump_of (pure_results step_duration 2 spots2) spots2 = Inr (spots2 ! (9 - 1))"
    by (rule jump_step_curve [OF ts halvable_nine step_ratio _ _ low high])
      (simp_all add: spots2_length)
  then show ?thesis
    by (simp add: spots2_front)
qed

lemma step_jump:
  "\<exists>st'. find_jump_by (pure_method step_duration) initial_stride spots2 st =
     Some (Inr (256, st'))"
  using find_jump_pure [OF spots2_distinct, of step_duration 2 st]
  by (simp add: initial_stride_def step_jump_of)

lemma flat_line:
  assumes "c = Finite False 1 \<or> c = Finite False 4"
  shows "cache_line_stride_of [c, c, c, c, c, c, c] = 64"
proof -
  have "ddiv c c = Finite False 1"
    using assms by (auto simp: round_real_def)
  then show ?thesis
    by (simp add: cache_line_stride_of_def speedup_loop.simps dge_def min_stride_def)
qed

lemma step_line:
  "\<exists>st'. find_cache_line_size_by (pure_method step_duration) st = Some (Inr (64, st'))"
proof -
  have "map (\<lambda>stride. to_seconds (step_duration stride (max_check_mem div stride)))
      [2, 4, 8, 16, 32, 64, 128] =
      [Finite False 4, Finite False 4, Finite False 4, Finite False 4, Finite False 4,
       Finite False 4, Finite False 4]"
    by (simp add: step_duration_def max_check_mem_def word_le_nat_alt to_seconds_values)
  with find_cache_line_size_pure [of step_duration st] show ?thesis
    by (simp add: flat_line)
qed

lemma bump_rest:
  "\<exists>st'. find_rest_spots_by cbrt_rn (pure_method bump_duration) initial_stride st =
     Some (Inr (spots2, st'))"
proof (rule find_rest_spots_pure [OF make_spots_2 spots2_distinct spots2_shape])
  have full: "(\<lambda>a s. dadd a (cbrt_rn (dabs (dsub (nine_times (to_seconds (bump_duration 2 s)))
        (nine_times (to_seconds (bump_duration 4 s))))))) =
      (\<lambda>a s. dadd a (Finite False (of_nat ((\<lambda>s. if s = 384 then 3 else 0) s))))"
    by (intro ext) (simp add: bump_total root_term)
  have half: "(\<lambda>a s. dadd a (cbrt_rn (dabs (dsub (nine_times (to_seconds (bump_duration 2 s)))
        (nine_times (to_seconds (bump_duration 4 (s div 2 + s mod 2)))))))) =
      (\<lambda>a s. dadd a (Finite False (of_nat
         ((\<lambda>s. if s div 2 + s mod 2 = 384 then 3 else 0) s))))"
    by (intro ext) (simp add: bump_total root_term)
  have f: "foldl (\<lambda>a s. dadd a (Finite False (of_nat ((\<lambda>s. if s = 384 then 3 else 0) s))))
      (lit 0) spots2 = Finite False (of_nat 0)"
    by (rule foldl_dadd_from_zero) (simp_all add: spots2_def)
  have h: "foldl (\<lambda>a s. dadd a (Finite False (of_nat
         ((\<lambda>s. if s div 2 + s mod 2 = 384 then 3 else 0) s)))) (lit 0) spots2 =
      Finite False (of_nat 3)"
    by (rule foldl_dadd_from_zero) (simp_all add: spots2_def)
  show "dlt
       (foldl (\<lambda>a s. dadd a (cbrt_rn (dabs (dsub (nine_times (to_seconds (bump_duration 2 s)))
                                               (nine_times (to_seconds (bump_duration 4 s)))))))
          (lit 0) spots2)
       (foldl (\<lambda>a s. dadd a (cbrt_rn (dabs (dsub (nine_times (to_seconds (bump_duration 2 s)))
                           (nine_times (to_seconds (bump_duration 4 (s div 2 + s mod 2))))))))
          (lit 0) spots2)"
    unfolding full half f h by simp
qed

lemma bump_totals:
  "totals (pure_results bump_duration 2 spots2) spots2 = Inr (replicate 73 (Finite False 9))"
proof -
  have "map (\<lambda>s. nine_times (to_seconds (bump_duration 2 s))) spots2 =
      replicate 73 (Finite False 9)"
    by (simp add: bump_total map_replicate_const spots2_length)
  with totals_pure [OF spots2_distinct subset_refl, of bump_duration 2] show ?thesis
    by simp
qed

lemma bump_line:
  "\<exists>st'. find_cache_line_size_by (pure_method bump_duration) st = Some (Inr (64, st'))"
proof -
  have "map (\<lambda>stride. to_seconds (bump_duration stride (max_check_mem div stride)))
      [2, 4, 8, 16, 32, 64, 128] =
      [Finite False 1, Finite False 1, Finite False 1, Finite False 1, Finite False 1,
       Finite False 1, Finite False 1]"
    by (simp add: bump_duration_def max_check_mem_def to_seconds_values)
  with find_cache_line_size_pure [of bump_duration st] show ?thesis
    by (simp add: flat_line)
qed

theorem main_prints_summary_witness:
  "\<exists>st1 st2 st3.
     find_rest_spots_by cbrt_rn (pure_method step_duration) initial_stride example_machine =
       Some (Inr (spots2, st1)) \<and>
     find_jump_by (pure_method step_duration) initial_stride spots2 st1 = Some (Inr (256, st2)) \<and>
     find_cache_line_size_by (pure_method step_duration) st2 = Some (Inr (64, st3)) \<and>
     hd spots2 = 1 \<and>
     main_by cbrt_rn (pure_method step_duration) (pure_method step_duration) example_machine =
       Some (Inr (''associativity=256 cache_size=4096 cache_line_size=512'' @ [CHR 0x0A], st3)) \<and>
     count_list (''associativity=256 cache_size=4096 cache_line_size=512'' @ [CHR 0x0A])
       (CHR 0x0A) = 1"
proof -
  let ?m = "pure_method step_duration"
  let ?line = "''associativity=256 cache_size=4096 cache_line_size=512'' @ [CHR 0x0A]"
  obtain st1 where 1: "find_rest_spots_by cbrt_rn ?m initial_stride example_machine =
      Some (Inr (spots2, st1))"
    using step_rest by blast
  obtain st2 where 2: "find_jump_by ?m initial_stride spots2 st1 = Some (Inr (256, st2))"
    using step_jump by blast
  obtain st3 where 3: "find_cache_line_size_by ?m st2 = Some (Inr (64, st3))"
    using step_line by blast
  have run: "main_by cbrt_rn ?m ?m example_machine = Some (Inr (?line, st3))"
    using main_by_total [OF 1 2 3] by (simp add: spots2_front initial_stride_def dec.simps)
  from main_prints_summary [of cbrt_rn ?m ?m example_machine ?line st3, THEN conjunct1, THEN mp,
      OF run]
  have "count_list ?line (CHR 0x0A) = 1"
    by blast
  with 1 2 3 run spots2_front(1) show ?thesis
    by blast
qed

theorem no_jump_sentinel_witness:
  "spots2 \<noteq> [] \<and>
   totals (pure_results bump_duration 2 spots2) spots2 = Inr (replicate 73 (Finite False 9)) \<and>
   list_all (\<lambda>i. \<not> crosses (replicate 73 (Finite False 9))
                      (smooth_loop 72 (replicate 73 (Finite False 9))) i) [0..<72] \<and>
   (\<exists>st1 st2 st3.
      find_rest_spots_by cbrt_rn (pure_method bump_duration) initial_stride example_machine =
        Some (Inr (spots2, st1)) \<and>
      measure_c initial_stride spots2 (pure_method bump_duration) st1 =
        Some (Inr (pure_results bump_duration 2 spots2, st2)) \<and>
      find_jump_by (pure_method bump_duration) initial_stride spots2 st1 = Some (Inr (0, st2)) \<and>
      find_cache_line_size_by (pure_method bump_duration) st2 = Some (Inr (64, st3)) \<and>
      main_by cbrt_rn (pure_method bump_duration) (pure_method bump_duration) example_machine =
        Some (Inr (''associativity=0 cache_size=0 cache_line_size=512'' @ [CHR 0x0A], st3)))"
proof -
  let ?m = "pure_method bump_duration"
  let ?measured = "pure_results bump_duration 2 spots2"
  let ?ts = "replicate 73 (Finite False 9)"
  have ne: "spots2 \<noteq> []"
    using spots2_length by auto
  obtain st1 where 1: "find_rest_spots_by cbrt_rn ?m initial_stride example_machine =
      Some (Inr (spots2, st1))"
    using bump_rest by blast
  obtain st2 where m: "measure_c 2 spots2 ?m st1 = Some (Inr (?measured, st2))"
    using measure_c_pure by blast
  have flat: "\<forall>i < length ?ts - 1. \<not> crosses ?ts (smooth_loop (length ?ts - 1) ?ts) i"
    by (intro allI impI flat_no_crossing [OF halvable_nine(1)]) simp_all
  from no_jump_sentinel [where search_spots = spots2 and stride = 2 and shuffled = ?m
      and ?st1.0 = st1 and measured = ?measured and ?st2.0 = st2,
      THEN conjunct1, THEN mp, OF conjI [OF ne m]]
  obtain ts where "totals ?measured spots2 = Inr ts"
    and "(\<forall>i < length ts - 1. \<not> crosses ts (smooth_loop (length ts - 1) ts) i) \<longrightarrow>
       find_jump_by ?m 2 spots2 st1 = Some (Inr (0, st2))"
    by blast
  with bump_totals flat have 2: "find_jump_by ?m initial_stride spots2 st1 = Some (Inr (0, st2))"
    by (simp add: initial_stride_def)
  obtain st3 where 3: "find_cache_line_size_by ?m st2 = Some (Inr (64, st3))"
    using bump_line by blast
  from no_jump_sentinel [where cbrt = cbrt_rn and shuffled = ?m and st = example_machine
      and rest_spots = spots2 and ?st1.0 = st1 and ?st2.0 = st2 and lookbehind = ?m
      and cache_line_size = 64 and ?st3.0 = st3, THEN conjunct2, THEN mp,
      OF conjI [OF 1 conjI [OF 2 3]]]
  have run: "main_by cbrt_rn ?m ?m example_machine =
      Some (Inr (''associativity=0 cache_size=0 cache_line_size=512'' @ [CHR 0x0A], st3))"
    by (simp add: dec.simps)
  have cross: "list_all (\<lambda>i. \<not> crosses ?ts (smooth_loop 72 ?ts) i) [0..<72]"
    using flat by (simp add: list_all_iff)
  from m have m': "measure_c initial_stride spots2 ?m st1 = Some (Inr (?measured, st2))"
    by (simp add: initial_stride_def)
  from ne bump_totals cross 1 m' 2 3 run show ?thesis
    by blast
qed

end
